(* ===== verification/Prelude.thy ===== *)
theory Prelude
  imports Main "HOL-Library.Word"
begin

text \<open>
  The vocabulary the components share.

  \<^item> Machine types: \<open>usize\<close> and \<open>u64\<close> are 64-bit words (the crate is Linux/\<open>io_uring\<close>
    only and packs a 32-bit write offset above bit 31 of a \<open>usize\<close>).
  \<^item> \<open>outcome\<close>: what running a Rust function can lead to. \<open>Done\<close> is a normal
    return (an \<open>Err\<close> is a value returned normally), \<open>Panic\<close> an unwinding panic
    (\<open>assert!\<close>, \<open>expect\<close>, an index out of range, checked arithmetic), \<open>Undefined\<close>
    an operation outside the contract of an \<open>unsafe\<close> primitive.
  \<^item> \<open>profile\<close>: plain \<open>+\<close> and \<open>*\<close> of Rust panic on overflow in a debug build and wrap
    in a release build.
  \<^item> Lemmas on words, byte lists and half-open ranges used by several components.
\<close>

unbundle bit_operations_syntax

named_theorems outcome_simps \<open>evaluation of binds and checked arithmetic\<close>
named_theorems field_simps_word \<open>how the operations of a state word act on its fields\<close>

section \<open>Machine integers\<close>

type_synonym u8 = "8 word"
type_synonym u32 = "32 word"
type_synonym u64 = "64 word"
type_synonym usize = "64 word"

datatype profile = Debug | Release

datatype 'a outcome = Done 'a | Panic | Undefined

primrec bind_outcome :: "'a outcome \<Rightarrow> ('a \<Rightarrow> 'b outcome) \<Rightarrow> 'b outcome" where
  "bind_outcome (Done x) f = f x"
| "bind_outcome Panic f = Panic"
| "bind_outcome Undefined f = Undefined"

declare bind_outcome.simps [outcome_simps]

lemma bind_outcome_eq_Done [simp]:
  "bind_outcome m f = Done y \<longleftrightarrow> (\<exists>x. m = Done x \<and> f x = Done y)"
  by (cases m) auto

text \<open>Rust's \<open>+\<close> and \<open>*\<close> on \<open>usize\<close>.\<close>

definition add_usize :: "profile \<Rightarrow> usize \<Rightarrow> usize \<Rightarrow> usize outcome" where
  "add_usize pf a b =
     (if unat a + unat b < 2 ^ 64 then Done (a + b)
      else case pf of Debug \<Rightarrow> Panic | Release \<Rightarrow> Done (a + b))"

definition mul_usize :: "profile \<Rightarrow> usize \<Rightarrow> usize \<Rightarrow> usize outcome" where
  "mul_usize pf a b =
     (if unat a * unat b < 2 ^ 64 then Done (a * b)
      else case pf of Debug \<Rightarrow> Panic | Release \<Rightarrow> Done (a * b))"

text \<open>
  The standard library's \<open>usize::next_multiple_of\<close>: the remainder panics for a zero
  right-hand side, the final addition overflows as \<open>+\<close> does.
\<close>

definition next_multiple_of :: "profile \<Rightarrow> usize \<Rightarrow> usize \<Rightarrow> usize outcome" where
  "next_multiple_of pf a m =
     (if m = 0 then Panic
      else let r = a mod m in if r = 0 then Done a else add_usize pf a (m - r))"

text \<open>The same rounding on natural numbers, used in specifications.\<close>

definition round_up :: "nat \<Rightarrow> nat \<Rightarrow> nat" where
  "round_up n m = (if n mod m = 0 then n else n + (m - n mod m))"

lemma add_usize_no_overflow [outcome_simps]:
  "unat a + unat b < 2 ^ 64 \<Longrightarrow> add_usize pf a b = Done (a + b)"
  by (simp add: add_usize_def)

lemma mul_usize_no_overflow [outcome_simps]:
  "unat a * unat b < 2 ^ 64 \<Longrightarrow> mul_usize pf a b = Done (a * b)"
  by (simp add: mul_usize_def)

lemma unat_add_no_overflow:
  "unat (a :: usize) + unat b < 2 ^ 64 \<Longrightarrow> unat (a + b) = unat a + unat b"
  by (simp add: unat_word_ariths)

lemma unat_mul_no_overflow:
  "unat (a :: usize) * unat b < 2 ^ 64 \<Longrightarrow> unat (a * b) = unat a * unat b"
  by (simp add: unat_word_ariths)

lemma round_up_ge: "n \<le> round_up n m"
  by (simp add: round_up_def)

lemma round_up_dvd: "0 < m \<Longrightarrow> m dvd round_up n m"
proof -
  assume m: "0 < m"
  show ?thesis
  proof (cases "n mod m = 0")
    case True
    then show ?thesis by (simp add: round_up_def dvd_eq_mod_eq_0)
  next
    case False
    have "n + (m - n mod m) = n div m * m + m"
      using m mod_less_divisor [OF m, of n] div_mult_mod_eq [of n m] by linarith
    then show ?thesis using False by (simp add: round_up_def)
  qed
qed

lemma round_up_less: "0 < m \<Longrightarrow> round_up n m < n + m"
  by (simp add: round_up_def)

lemma round_up_le_multiple: "0 < m \<Longrightarrow> m dvd k \<Longrightarrow> n \<le> k \<Longrightarrow> round_up n m \<le> k"
proof -
  assume m: "0 < m" and k: "m dvd k" and n: "n \<le> k"
  show ?thesis
  proof (rule ccontr)
    assume "\<not> round_up n m \<le> k"
    then have lt: "k < round_up n m" by simp
    have "m dvd round_up n m - k" using round_up_dvd [OF m] k by (rule dvd_diff_nat)
    then have "m \<le> round_up n m - k" using lt by (auto dest: dvd_imp_le)
    then show False using round_up_less [OF m, of n] n lt by linarith
  qed
qed

lemma unat_word_of_nat_usize: "n < 2 ^ 64 \<Longrightarrow> unat (word_of_nat n :: usize) = n"
  by (simp add: unsigned_of_nat take_bit_nat_eq_self)

lemma next_multiple_of_no_overflow [outcome_simps]:
  assumes "m \<noteq> 0" and "unat a + unat m < 2 ^ 64"
  shows "next_multiple_of pf a m = Done (word_of_nat (round_up (unat a) (unat m)))"
proof -
  have r: "unat (a mod m) = unat a mod unat m" by (simp add: unat_mod)
  have m: "0 < unat m" using assms(1) by (simp add: unat_gt_0)
  have "unat (m - a mod m) = unat m - unat a mod unat m"
    using r mod_less_divisor [OF m, of "unat a"]
    by (subst unat_sub) (simp_all add: word_le_nat_alt)
  moreover have "a mod m = 0 \<longleftrightarrow> unat a mod unat m = 0"
    using r by (metis unat_0 unsigned_eq_0_iff)
  ultimately show ?thesis
    using assms by (auto simp: next_multiple_of_def add_usize_def round_up_def Let_def
        word_unat_eq_iff unat_word_ariths unat_word_of_nat_usize)
qed

section \<open>Runs that need not return\<close>

text \<open>
  A function with a loop that may run for ever returns \<open>'a outcome option\<close>, \<open>None\<close>
  standing for not returning. \<open>bind_run\<close> sequences such runs; \<open>try_run\<close> is Rust's
  \<open>?\<close> in a method on \<open>&mut self\<close>: an \<open>Err\<close> returns at once, with the state reached.
\<close>

definition bind_run :: "'a outcome option \<Rightarrow> ('a \<Rightarrow> 'b outcome option) \<Rightarrow> 'b outcome option" where
  "bind_run m f =
     (case m of None \<Rightarrow> None | Some Panic \<Rightarrow> Some Panic | Some Undefined \<Rightarrow> Some Undefined | Some (Done x) \<Rightarrow> f x)"

definition try_run ::
  "(('e + 'a) \<times> 's) outcome option \<Rightarrow> ('a \<Rightarrow> 's \<Rightarrow> (('e + 'b) \<times> 's) outcome option)
     \<Rightarrow> (('e + 'b) \<times> 's) outcome option" where
  "try_run m f =
     bind_run m (\<lambda>(r, s). case r of Inl e \<Rightarrow> Some (Done (Inl e, s)) | Inr x \<Rightarrow> f x s)"

lemma bind_run_simps [simp]:
  "bind_run None f = None" "bind_run (Some Panic) f = Some Panic"
  "bind_run (Some Undefined) f = Some Undefined" "bind_run (Some (Done x)) f = f x"
  by (simp_all add: bind_run_def)

lemma try_run_simps [simp]:
  "try_run None f = None" "try_run (Some Panic) f = Some Panic"
  "try_run (Some Undefined) f = Some Undefined"
  "try_run (Some (Done (Inl e, s))) f = Some (Done (Inl e, s))"
  "try_run (Some (Done (Inr x, s))) f = f x s"
  by (simp_all add: try_run_def)

lemma bind_run_mono [partial_function_mono]:
  assumes "mono_option B" and "\<And>y. mono_option (\<lambda>f. C y f)"
  shows "mono_option (\<lambda>f. bind_run (B f) (\<lambda>y. C y f))"
proof -
  let ?c = "\<lambda>f r. case r of Panic \<Rightarrow> Some Panic | Undefined \<Rightarrow> Some Undefined | Done y \<Rightarrow> C y f"
  have "mono_option (\<lambda>f. ?c f r)" for r
    by (cases r) (simp_all add: assms(2) option.const_mono)
  then have "mono_option (\<lambda>f. Option.bind (B f) (?c f))"
    by (intro bind_mono assms(1))
  moreover have "bind_run (B f) (\<lambda>y. C y f) = Option.bind (B f) (?c f)" for f
    by (simp add: bind_run_def split: option.splits outcome.splits)
  ultimately show ?thesis by simp
qed

text \<open>The runs that return, with what they return.\<close>

definition returns :: "'a outcome option \<Rightarrow> ('a \<Rightarrow> bool) \<Rightarrow> bool" where
  "returns m P \<longleftrightarrow> (\<exists>x. m = Some (Done x) \<and> P x)"

lemma returnsI: "m = Some (Done x) \<Longrightarrow> P x \<Longrightarrow> returns m P"
  by (simp add: returns_def)

lemma returns_Done [simp]: "returns (Some (Done x)) P \<longleftrightarrow> P x"
  by (simp add: returns_def)

lemma returns_bind: "returns m Q \<Longrightarrow> (\<And>x. Q x \<Longrightarrow> returns (f x) P) \<Longrightarrow> returns (bind_run m f) P"
  by (auto simp: returns_def)

lemma returns_try:
  "returns m Q \<Longrightarrow> (\<And>e s. Q (Inl e, s) \<Longrightarrow> P (Inl e, s)) \<Longrightarrow> (\<And>x s. Q (Inr x, s) \<Longrightarrow> returns (f x s) P)
     \<Longrightarrow> returns (try_run m f) P"
  unfolding try_run_def by (erule returns_bind) (auto split: sum.split)

lemma returns_mono: "returns m Q \<Longrightarrow> (\<And>x. Q x \<Longrightarrow> P x) \<Longrightarrow> returns m P"
  by (auto simp: returns_def)

lemma returns_no_error:
  fixes m :: "(('e + unit) \<times> 's) outcome option"
  assumes "returns m (\<lambda>(r, s). case r of Inl _ \<Rightarrow> \<not> c | Inr _ \<Rightarrow> P s)"
  shows "\<exists>r s. m = Some (Done (r, s)) \<and> (c \<longrightarrow> r = Inr ())"
proof -
  obtain r s where m: "m = Some (Done (r, s))" "case r of Inl _ \<Rightarrow> \<not> c | Inr _ \<Rightarrow> P s"
    using assms by (auto simp: returns_def)
  then have "c \<longrightarrow> r = Inr ()" by (cases r) simp_all
  then show ?thesis using m(1) by blast
qed

end
