(* ===== verification/State_Word.thy ===== *)
theory State_Word
  imports Prelude
begin

text \<open>
  The packed state word of a flush buffer: the bit layout and the accessors of
  \<^verbatim>\<open>src/src/lib.rs\<close> and the \<open>State\<close> wrapper of \<^verbatim>\<open>src/src/state.rs\<close>, the abstract
  record of fields the word stands for, and how each atomic update of the word acts on
  those fields.
\<close>

section \<open>Layout constants\<close>

definition SEALED_BIT :: usize where
  "SEALED_BIT = push_bit 0 1"

definition FLUSH_IN_PROGRESS_BIT :: usize where
  "FLUSH_IN_PROGRESS_BIT = push_bit 1 1"

definition WRITER_SHIFT :: nat where
  "WRITER_SHIFT = 8"

definition WRITER_ONE :: usize where
  "WRITER_ONE = push_bit WRITER_SHIFT 1"

definition WRITER_MASK :: usize where
  "WRITER_MASK = 0x00FFFFFF00"

definition OFFSET_SHIFT :: nat where
  "OFFSET_SHIFT = 32"

definition OFFSET_ONE :: usize where
  "OFFSET_ONE = push_bit OFFSET_SHIFT 1"

definition RING_SIZE :: usize where
  "RING_SIZE = 4"

definition ONE_MEGABYTE_BLOCK :: usize where
  "ONE_MEGABYTE_BLOCK = 1024 * 1024"

definition FOUR_KB_BLOCK :: usize where
  "FOUR_KB_BLOCK = 4096"

lemmas layout_consts =
  SEALED_BIT_def FLUSH_IN_PROGRESS_BIT_def WRITER_SHIFT_def WRITER_ONE_def WRITER_MASK_def
  OFFSET_SHIFT_def OFFSET_ONE_def

section \<open>Accessors\<close>

definition state_offset :: "usize \<Rightarrow> usize" where
  "state_offset state = drop_bit OFFSET_SHIFT state"

definition state_writers :: "usize \<Rightarrow> usize" where
  "state_writers state = drop_bit WRITER_SHIFT (state AND WRITER_MASK)"

definition state_sealed :: "usize \<Rightarrow> bool" where
  "state_sealed state \<longleftrightarrow> state AND SEALED_BIT \<noteq> 0"

definition state_flush_in_progress :: "usize \<Rightarrow> bool" where
  "state_flush_in_progress state \<longleftrightarrow> state AND FLUSH_IN_PROGRESS_BIT \<noteq> 0"

text \<open>The snapshot type of \<^verbatim>\<open>state.rs\<close> and its conversions.\<close>

record State =
  inner :: usize

definition State_offset :: "State \<Rightarrow> usize" where
  "State_offset s = drop_bit OFFSET_SHIFT (inner s)"

definition State_n_writers :: "State \<Rightarrow> usize" where
  "State_n_writers s = drop_bit WRITER_SHIFT (inner s AND WRITER_MASK)"

definition State_sealed :: "State \<Rightarrow> bool" where
  "State_sealed s \<longleftrightarrow> inner s AND SEALED_BIT \<noteq> 0"

definition State_flushing :: "State \<Rightarrow> bool" where
  "State_flushing s \<longleftrightarrow> inner s AND FLUSH_IN_PROGRESS_BIT \<noteq> 0"

definition State_from_usize :: "usize \<Rightarrow> State" where
  "State_from_usize w = \<lparr>inner = w\<rparr>"

definition usize_from_State :: "State \<Rightarrow> usize" where
  "usize_from_State s = inner s"

section \<open>The fields a word stands for\<close>

record fields =
  f_offset :: nat
  f_writers :: nat
  f_reserved :: nat
  f_flushing :: bool
  f_sealed :: bool

definition fields_of :: "usize \<Rightarrow> fields" where
  "fields_of w =
     \<lparr>f_offset = unat (state_offset w), f_writers = unat (state_writers w),
      f_reserved = unat w div 4 mod 64,
      f_flushing = state_flush_in_progress w, f_sealed = state_sealed w\<rparr>"

definition pack :: "fields \<Rightarrow> usize" where
  "pack v = word_of_nat
     (f_offset v * 2 ^ 32 + f_writers v * 2 ^ 8 + f_reserved v * 4
      + 2 * of_bool (f_flushing v) + of_bool (f_sealed v))"

definition fields_ok :: "fields \<Rightarrow> bool" where
  "fields_ok v \<longleftrightarrow> f_offset v < 2 ^ 32 \<and> f_writers v < 2 ^ 24 \<and> f_reserved v < 64"

text \<open>Each accessor as arithmetic on the word's value.\<close>

lemma unat_state_offset: "unat (state_offset w) = unat w div 2 ^ 32"
  by (simp add: state_offset_def OFFSET_SHIFT_def drop_bit_eq_div unat_div)

lemma writer_mask_shifted: "state_writers w = take_bit 24 (drop_bit 8 w)"
  by (simp add: state_writers_def WRITER_SHIFT_def WRITER_MASK_def take_bit_eq_mask mask_eq_exp_minus_1)

lemma unat_state_writers: "unat (state_writers w) = unat w div 2 ^ 8 mod 2 ^ 24"
  by (simp add: writer_mask_shifted take_bit_eq_mod drop_bit_eq_div unat_div unat_mod)

lemma state_sealed_bit: "state_sealed w \<longleftrightarrow> bit w 0"
  by (simp add: state_sealed_def SEALED_BIT_def and_one_eq odd_iff_mod_2_eq_one bit_0)

lemma state_flushing_bit: "state_flush_in_progress w \<longleftrightarrow> bit w 1"
  by (simp add: state_flush_in_progress_def FLUSH_IN_PROGRESS_BIT_def bit_iff_and_push_bit_not_eq_0)

lemma state_sealed_odd: "state_sealed w \<longleftrightarrow> odd (unat w)"
proof -
  have "bit w 0 \<longleftrightarrow> bit (unat w) 0" by (simp only: bit_unsigned_iff) simp
  then show ?thesis by (simp add: state_sealed_bit bit_0)
qed

lemma state_flushing_odd: "state_flush_in_progress w \<longleftrightarrow> odd (unat w div 2)"
proof -
  have "bit w 1 \<longleftrightarrow> bit (unat w) 1" by (simp only: bit_unsigned_iff) simp
  then show ?thesis by (simp add: state_flushing_bit bit_iff_odd)
qed

text \<open>
  The fields are a complete reading of the word: packing and reading are inverse.
\<close>

lemma nat_decompose:
  "n = n div 2 ^ 32 * 2 ^ 32 + n div 2 ^ 8 mod 2 ^ 24 * 2 ^ 8
     + n div 4 mod 64 * 4 + 2 * of_bool (odd (n div 2)) + of_bool (odd (n :: nat))"
proof -
  have "n = 2 * (n div 2) + of_bool (odd n)"
    and "n div 2 = 2 * (n div 2 div 2) + of_bool (odd (n div 2))"
    by (simp_all add: of_bool_def)
  moreover have "n div 2 div 2 = n div 4" by (simp flip: div_mult2_eq)
  moreover have "n div 4 = n div 256 * 64 + n div 4 mod 64"
    using div_mult_mod_eq [of "n div 4" 64] by (simp flip: div_mult2_eq)
  moreover have "n div 256 = n div 2 ^ 32 * 2 ^ 24 + n div 256 mod 2 ^ 24"
    using div_mult_mod_eq [of "n div 256" "2 ^ 24"] by (simp flip: div_mult2_eq)
  ultimately show ?thesis by simp
qed

lemma pack_fields_of: "pack (fields_of w) = w"
proof -
  have "pack (fields_of w) = word_of_nat
      (unat w div 2 ^ 32 * 2 ^ 32 + unat w div 2 ^ 8 mod 2 ^ 24 * 2 ^ 8
       + unat w div 4 mod 64 * 4 + 2 * of_bool (odd (unat w div 2)) + of_bool (odd (unat w)))"
    by (simp only: pack_def fields_of_def fields.simps unat_state_offset unat_state_writers
        state_sealed_odd state_flushing_odd)
  also have "\<dots> = word_of_nat (unat w)" by (simp only: nat_decompose [of "unat w", symmetric])
  finally show ?thesis by simp
qed

lemma fields_ok_fields_of: "fields_ok (fields_of w)"
  using unsigned_less [of w, where ?'a = nat]
  by (simp add: fields_ok_def fields_of_def unat_state_offset unat_state_writers less_mult_imp_div_less)

lemma unat_pack:
  assumes "fields_ok v"
  shows "unat (pack v) = f_offset v * 2 ^ 32 + f_writers v * 2 ^ 8 + f_reserved v * 4
      + 2 * of_bool (f_flushing v) + of_bool (f_sealed v)"
proof -
  have "2 * of_bool (f_flushing v) + of_bool (f_sealed v) \<le> (3 :: nat)"
    by (simp add: of_bool_def)
  then show ?thesis
    using assms unfolding pack_def fields_ok_def by (subst unat_word_of_nat_usize) simp_all
qed

lemma fields_of_pack:
  assumes "fields_ok v"
  shows "fields_of (pack v) = v"
proof -
  obtain off wr rs fl se where v: "v = \<lparr>f_offset = off, f_writers = wr, f_reserved = rs,
      f_flushing = fl, f_sealed = se\<rparr>" by (cases v)
  define low where "low = rs * 4 + 2 * of_bool fl + (of_bool se :: nat)"
  have low: "low < 256" "low div 4 = rs" "odd (low div 2) = fl" "odd low = se"
    using assms by (auto simp: low_def v fields_ok_def of_bool_def)
  have "wr * 256 + low < 2 ^ 32"
    using assms low(1) by (simp add: v fields_ok_def)
  have n: "unat (pack v) = off * 2 ^ 32 + (wr * 2 ^ 8 + low)"
    using unat_pack [OF assms] by (simp add: v low_def)
  have offset: "unat (pack v) div 2 ^ 32 = off"
    using \<open>wr * 256 + low < 2 ^ 32\<close> by (simp add: n)
  have "unat (pack v) div 2 ^ 8 = off * 2 ^ 24 + wr"
    using low(1) by (simp add: n)
  then have writers: "unat (pack v) div 2 ^ 8 mod 2 ^ 24 = wr"
    using assms by (simp add: v fields_ok_def)
  define X where "X = off * 2 ^ 24 + wr"
  have "unat (pack v) = low + (X * 64) * 4" and "unat (pack v) = low + (X * 128) * 2"
    by (simp_all add: n X_def)
  then have "unat (pack v) div 4 = X * 64 + low div 4" "unat (pack v) div 2 = X * 128 + low div 2"
    by (simp_all only: div_mult_self1)
  moreover have "odd (unat (pack v)) = odd low"
    by (simp add: n)
  ultimately have "unat (pack v) div 4 mod 64 = rs" "odd (unat (pack v) div 2) = fl"
      "odd (unat (pack v)) = se"
    using assms low by (simp_all add: v fields_ok_def)
  then show ?thesis
    using offset writers
    by (simp add: fields_of_def unat_state_offset unat_state_writers state_sealed_odd state_flushing_odd v)
qed

lemma fields_of_inject: "fields_of v = fields_of w \<longleftrightarrow> v = w"
  by (metis pack_fields_of)

lemma unat_state_reserved: "unat w div 4 mod 64 = unat (take_bit 6 (drop_bit 2 (w :: usize)))"
  by (simp add: take_bit_eq_mod drop_bit_eq_div unat_div unat_mod)

section \<open>How the atomic updates act on the fields\<close>

text \<open>
  \<open>fetch_or\<close> and \<open>fetch_and\<close> of one flag bit change that flag and nothing else.
\<close>

lemma bit_SEALED_BIT: "bit SEALED_BIT n \<longleftrightarrow> n = 0"
  by (simp add: SEALED_BIT_def bit_1_iff)

lemma bit_FLUSH_IN_PROGRESS_BIT: "bit FLUSH_IN_PROGRESS_BIT n \<longleftrightarrow> n = 1"
proof -
  have "bit (push_bit 1 (1 :: usize)) n \<longleftrightarrow> n = 1"
    unfolding bit_push_bit_iff bit_1_iff by auto
  then show ?thesis by (simp only: FLUSH_IN_PROGRESS_BIT_def)
qed

lemmas flag_bits = bit_SEALED_BIT bit_FLUSH_IN_PROGRESS_BIT state_sealed_bit state_flushing_bit

lemma flag_update_frame:
  fixes w m :: usize
  assumes "\<And>n. bit m n \<Longrightarrow> n < 2"
  shows "state_offset (w OR m) = state_offset w" "state_offset (w AND NOT m) = state_offset w"
    and "state_writers (w OR m) = state_writers w" "state_writers (w AND NOT m) = state_writers w"
    and "unat (w OR m) div 4 mod 64 = unat w div 4 mod 64"
      "unat (w AND NOT m) div 4 mod 64 = unat w div 4 mod 64"
proof -
  have no: "\<not> bit m (k + n)" if "2 \<le> k" for k n using assms [of "k + n"] that by auto
  show "state_offset (w OR m) = state_offset w" "state_offset (w AND NOT m) = state_offset w"
    by (rule bit_word_eqI; auto simp: state_offset_def OFFSET_SHIFT_def bit_simps no dest: bit_imp_le_length)+
  show "state_writers (w OR m) = state_writers w" "state_writers (w AND NOT m) = state_writers w"
    by (rule bit_word_eqI; auto simp: writer_mask_shifted bit_simps no dest: bit_imp_le_length)+
  have "take_bit 6 (drop_bit 2 (w OR m)) = take_bit 6 (drop_bit 2 w)"
    "take_bit 6 (drop_bit 2 (w AND NOT m)) = take_bit 6 (drop_bit 2 w)"
    using no [of 2] by (auto intro!: bit_word_eqI simp: bit_simps)
  then show "unat (w OR m) div 4 mod 64 = unat w div 4 mod 64"
      "unat (w AND NOT m) div 4 mod 64 = unat w div 4 mod 64"
    by (simp_all only: unat_state_reserved)
qed

lemmas flag_frames =
  flag_update_frame [of SEALED_BIT, simplified bit_SEALED_BIT, simplified]
  flag_update_frame [of FLUSH_IN_PROGRESS_BIT, simplified bit_FLUSH_IN_PROGRESS_BIT, simplified]

lemma fields_of_set_sealed [field_simps_word]:
  "fields_of (w OR SEALED_BIT) = (fields_of w)\<lparr>f_sealed := True\<rparr>"
  by (simp add: fields_of_def flag_frames flag_bits bit_or_iff)

lemma fields_of_clear_sealed [field_simps_word]:
  "fields_of (w AND NOT SEALED_BIT) = (fields_of w)\<lparr>f_sealed := False\<rparr>"
  by (simp add: fields_of_def flag_frames flag_bits bit_and_iff bit_not_iff)

lemma fields_of_set_flush [field_simps_word]:
  "fields_of (w OR FLUSH_IN_PROGRESS_BIT) = (fields_of w)\<lparr>f_flushing := True\<rparr>"
  by (simp add: fields_of_def flag_frames flag_bits bit_or_iff)

lemma fields_of_clear_flush [field_simps_word]:
  "fields_of (w AND NOT FLUSH_IN_PROGRESS_BIT) = (fields_of w)\<lparr>f_flushing := False\<rparr>"
  by (simp add: fields_of_def flag_frames flag_bits bit_and_iff bit_not_iff)

lemma fields_of_keep_low [field_simps_word]:
  "fields_of (w AND 0x00000000FFFFFFFF) = (fields_of w)\<lparr>f_offset := 0\<rparr>"
proof -
  have low: "w AND 0x00000000FFFFFFFF = take_bit 32 w"
    by (simp add: take_bit_eq_mask mask_eq_exp_minus_1)
  have "state_offset (take_bit 32 w) = 0"
    "state_writers (take_bit 32 w) = state_writers w"
    "take_bit 6 (drop_bit 2 (take_bit 32 w)) = take_bit 6 (drop_bit 2 w)"
    by (auto intro!: bit_word_eqI simp: state_offset_def OFFSET_SHIFT_def writer_mask_shifted bit_simps
        dest: bit_imp_le_length)
  then show ?thesis
    by (simp add: fields_of_def unat_state_reserved state_sealed_bit state_flushing_bit low bit_take_bit_iff)
qed

lemma fields_of_zero [field_simps_word]:
  "fields_of 0 = \<lparr>f_offset = 0, f_writers = 0, f_reserved = 0, f_flushing = False, f_sealed = False\<rparr>"
  by (simp add: fields_of_def state_offset_def state_writers_def state_sealed_def state_flush_in_progress_def)

text \<open>
  Additions and subtractions act on one field as long as they do not carry out of it.
\<close>

lemma fields_of_add:
  assumes "f_offset (fields_of w) + p < 2 ^ 32" and "f_writers (fields_of w) + k < 2 ^ 24"
  shows "fields_of (w + word_of_nat p * OFFSET_ONE + word_of_nat k * WRITER_ONE)
    = (fields_of w)\<lparr>f_offset := f_offset (fields_of w) + p, f_writers := f_writers (fields_of w) + k\<rparr>"
    (is "_ = ?v")
proof -
  have "fields_ok ?v" using fields_ok_fields_of [of w] assms by (simp add: fields_ok_def)
  moreover have "w + word_of_nat p * OFFSET_ONE + word_of_nat k * WRITER_ONE = pack ?v"
    by (subst (1) pack_fields_of [symmetric]) (simp add: pack_def layout_consts algebra_simps)
  ultimately show ?thesis by (simp only: fields_of_pack)
qed

lemma fields_of_drop_writer [field_simps_word]:
  assumes "0 < f_writers (fields_of w)"
  shows "fields_of (w - WRITER_ONE) = (fields_of w)\<lparr>f_writers := f_writers (fields_of w) - 1\<rparr>"
    (is "_ = ?v")
proof -
  have "fields_ok ?v" using fields_ok_fields_of [of w] by (auto simp: fields_ok_def)
  moreover obtain k where "f_writers (fields_of w) = Suc k" using assms gr0_implies_Suc by blast
  then have "w - WRITER_ONE = pack ?v"
    by (subst (1) pack_fields_of [symmetric]) (simp add: pack_def layout_consts algebra_simps)
  ultimately show ?thesis by (simp only: fields_of_pack)
qed

lemma fields_of_drop_writer_underflow:
  assumes "f_writers (fields_of w) = 0" and "0 < f_offset (fields_of w)"
  shows "fields_of (w - WRITER_ONE)
    = (fields_of w)\<lparr>f_offset := f_offset (fields_of w) - 1, f_writers := 2 ^ 24 - 1\<rparr>"
    (is "_ = ?v")
proof -
  have "fields_ok ?v" using fields_ok_fields_of [of w] by (auto simp: fields_ok_def)
  moreover obtain k where "f_offset (fields_of w) = Suc k" using assms gr0_implies_Suc by blast
  then have "w - WRITER_ONE = pack ?v"
    using assms(1)
    by (subst (1) pack_fields_of [symmetric]) (simp add: pack_def layout_consts algebra_simps)
  ultimately show ?thesis by (simp only: fields_of_pack)
qed

lemma fields_sel [simp]:
  "f_sealed (fields_of w) = state_sealed w" "f_flushing (fields_of w) = state_flush_in_progress w"
  "f_offset (fields_of w) = unat (state_offset w)" "f_writers (fields_of w) = unat (state_writers w)"
  by (simp_all add: fields_of_def)

lemma offset_bound: "unat (state_offset w) < 4294967296"
  using fields_ok_fields_of [of w] by (simp add: fields_ok_def)

lemma writers_bound: "unat (state_writers w) < 16777216"
  using fields_ok_fields_of [of w] by (simp add: fields_ok_def)

lemma fields_of_reserve [field_simps_word]:
  assumes "unat (state_offset w) + unat n \<le> 1048576" and "unat (state_writers w) < 2 ^ 24 - 1"
  shows "fields_of (w + n * OFFSET_ONE + WRITER_ONE) = (fields_of w)
    \<lparr>f_offset := unat (state_offset w) + unat n, f_writers := unat (state_writers w) + 1\<rparr>"
  using fields_of_add [of w "unat n" 1] assms by simp

lemma fields_of_add_writer [field_simps_word]:
  assumes "unat (state_writers w) < 2 ^ 24 - 1"
  shows "fields_of (w + WRITER_ONE) = (fields_of w)\<lparr>f_writers := unat (state_writers w) + 1\<rparr>"
  using fields_of_add [of w 0 1] assms offset_bound [of w] by simp

lemma fields_of_drop_writer_cases:
  "fields_of (w - WRITER_ONE) =
    (let v = fields_of w in
     if 0 < f_writers v then v\<lparr>f_writers := f_writers v - 1\<rparr>
     else v\<lparr>f_writers := 2 ^ 24 - 1,
            f_offset := (if 0 < f_offset v then f_offset v - 1 else 2 ^ 32 - 1)\<rparr>)"
proof (cases "f_writers (fields_of w) = 0 \<and> f_offset (fields_of w) = 0")
  case True
  let ?v = "(fields_of w)\<lparr>f_writers := 2 ^ 24 - 1, f_offset := 2 ^ 32 - 1\<rparr>"
  have "fields_ok ?v" using fields_ok_fields_of [of w] by (auto simp: fields_ok_def)
  moreover have "w - WRITER_ONE = pack ?v"
  proof -
    define low where "low = f_reserved (fields_of w) * 4 + 2 * of_bool (state_flush_in_progress w)
      + of_bool (state_sealed w)"
    have "w = word_of_nat low"
      using True by (subst pack_fields_of [symmetric]) (simp add: pack_def low_def)
    moreover have "pack ?v = word_of_nat (18446744073709551360 + low)"
      by (simp add: pack_def low_def)
    moreover have "(word_of_nat 18446744073709551360 :: usize) = - 256" by simp
    ultimately show ?thesis by (simp only: of_nat_add) (simp add: layout_consts)
  qed
  ultimately have "fields_of (w - WRITER_ONE) = ?v" by (simp only: fields_of_pack)
  then show ?thesis using True by (simp add: Let_def)
next
  case False
  then show ?thesis
    using fields_of_drop_writer [of w] fields_of_drop_writer_underflow [of w]
    by (auto simp: Let_def)
qed

lemma fields_of_sub_offset:
  assumes "k \<le> unat (state_offset w)"
  shows "fields_of (w - word_of_nat k * OFFSET_ONE)
    = (fields_of w)\<lparr>f_offset := unat (state_offset w) - k\<rparr>" (is "_ = ?v")
proof -
  have "fields_ok ?v" using fields_ok_fields_of [of w] by (auto simp: fields_ok_def)
  moreover obtain d where "f_offset (fields_of w) = k + d" using assms le_Suc_ex by auto
  then have "w - word_of_nat k * OFFSET_ONE = pack ?v"
    by (subst (1) pack_fields_of [symmetric])
      (simp add: pack_def layout_consts algebra_simps flip: fields_sel)
  ultimately show ?thesis by (simp only: fields_of_pack)
qed

lemma word_eq_pack: "fields_of w = v \<Longrightarrow> w = pack v"
  using pack_fields_of by metis

section \<open>Accessors of an updated word\<close>

lemma flags_clear_iff:
  "w AND (SEALED_BIT OR FLUSH_IN_PROGRESS_BIT) = 0 \<longleftrightarrow>
     \<not> state_sealed w \<and> \<not> state_flush_in_progress w"
  unfolding bit.conj_disj_distrib or_eq_0_iff state_sealed_def state_flush_in_progress_def by simp

lemma set_sealed_sel [simp]:
  "state_sealed (w OR SEALED_BIT)"
  "state_flush_in_progress (w OR SEALED_BIT) = state_flush_in_progress w"
  "state_offset (w OR SEALED_BIT) = state_offset w"
  "state_writers (w OR SEALED_BIT) = state_writers w"
  by (simp_all add: flag_frames flag_bits bit_or_iff)

lemma clear_sealed_sel [simp]:
  "\<not> state_sealed (w AND NOT SEALED_BIT)"
  "state_flush_in_progress (w AND NOT SEALED_BIT) = state_flush_in_progress w"
  "state_offset (w AND NOT SEALED_BIT) = state_offset w"
  "state_writers (w AND NOT SEALED_BIT) = state_writers w"
  by (simp_all add: flag_frames flag_bits bit_and_iff bit_not_iff)

lemma set_flush_sel [simp]:
  "state_flush_in_progress (w OR FLUSH_IN_PROGRESS_BIT)"
  "state_sealed (w OR FLUSH_IN_PROGRESS_BIT) = state_sealed w"
  "state_offset (w OR FLUSH_IN_PROGRESS_BIT) = state_offset w"
  "state_writers (w OR FLUSH_IN_PROGRESS_BIT) = state_writers w"
  by (simp_all add: flag_frames flag_bits bit_or_iff)

lemma zero_word_sel [simp]:
  "\<not> state_sealed 0" "\<not> state_flush_in_progress 0" "state_offset 0 = 0" "state_writers 0 = 0"
  by (simp_all add: state_sealed_def state_flush_in_progress_def state_offset_def state_writers_def)

lemma drop_writer_sel:
  assumes "0 < unat (state_writers w)"
  shows "state_sealed (w - WRITER_ONE) = state_sealed w"
    "state_flush_in_progress (w - WRITER_ONE) = state_flush_in_progress w"
    "state_offset (w - WRITER_ONE) = state_offset w"
    "unat (state_writers (w - WRITER_ONE)) = unat (state_writers w) - 1"
  using fields_of_drop_writer [of w] assms
  by (simp_all add: fields_of_def word_unat_eq_iff)

lemma reserve_sel:
  assumes "unat (state_offset w) + unat n \<le> 1048576" and "unat (state_writers w) < 2 ^ 24 - 1"
  shows "state_sealed (w + n * OFFSET_ONE + WRITER_ONE) = state_sealed w"
    "state_flush_in_progress (w + n * OFFSET_ONE + WRITER_ONE) = state_flush_in_progress w"
    "unat (state_offset (w + n * OFFSET_ONE + WRITER_ONE)) = unat (state_offset w) + unat n"
    "unat (state_writers (w + n * OFFSET_ONE + WRITER_ONE)) = unat (state_writers w) + 1"
  using fields_of_reserve [OF assms] by (simp_all add: fields_of_def)

lemma keep_low_sel [simp]:
  "state_offset (w AND 0x00000000FFFFFFFF) = 0"
  "state_writers (w AND 0x00000000FFFFFFFF) = state_writers w"
  "state_sealed (w AND 0x00000000FFFFFFFF) = state_sealed w"
  "state_flush_in_progress (w AND 0x00000000FFFFFFFF) = state_flush_in_progress w"
  using fields_of_keep_low [of w] by (simp_all add: fields_of_def word_unat_eq_iff)

text \<open>
  C40: The packed word loses nothing. Every combination of a 32-bit offset, a 24-bit writer
  count, the reserved bits and the two flags is packed into one word, from which each of the
  four accessors of \<open>State\<close> and each of the four free functions \<open>state_offset\<close>,
  \<open>state_writers\<close>, \<open>state_sealed\<close> and \<open>state_flush_in_progress\<close> reads its own field back; and every word is the
  packing of exactly one such combination, so the four fields never overlap.
\<close>
theorem state_word_roundtrip:
  assumes "fields_ok v"
  shows "unat (State_offset (State_from_usize (pack v))) = f_offset v
    \<and> unat (State_n_writers (State_from_usize (pack v))) = f_writers v
    \<and> State_sealed (State_from_usize (pack v)) = f_sealed v
    \<and> State_flushing (State_from_usize (pack v)) = f_flushing v
    \<and> usize_from_State (State_from_usize (pack v)) = pack v
    \<and> unat (state_offset (pack v)) = f_offset v
    \<and> unat (state_writers (pack v)) = f_writers v
    \<and> state_sealed (pack v) = f_sealed v
    \<and> state_flush_in_progress (pack v) = f_flushing v
    \<and> (\<forall>w. \<exists>!v. fields_ok v \<and> pack v = w)"
proof -
  let ?s = "State_from_usize (pack v)"
  have acc: "State_offset ?s = state_offset (pack v)" "State_n_writers ?s = state_writers (pack v)"
    "State_sealed ?s = state_sealed (pack v)" "State_flushing ?s = state_flush_in_progress (pack v)"
    by (simp_all add: State_offset_def State_n_writers_def State_sealed_def State_flushing_def
        State_from_usize_def state_offset_def state_writers_def state_sealed_def state_flush_in_progress_def)
  have "unat (state_offset (pack v)) = f_offset v" "unat (state_writers (pack v)) = f_writers v"
    "state_sealed (pack v) = f_sealed v" "state_flush_in_progress (pack v) = f_flushing v"
    using fields_sel [of "pack v"] fields_of_pack [OF assms] by simp_all
  moreover have "\<exists>!v. fields_ok v \<and> pack v = w" for w
    using fields_ok_fields_of pack_fields_of fields_of_pack by metis
  ultimately show ?thesis by (simp add: acc) (simp add: State_from_usize_def usize_from_State_def)
qed

theorem state_word_roundtrip_witness:
  "unat (State_n_writers (State_from_usize 0x6400000503)) = 5
   \<and> unat (State_offset (State_from_usize 0x6400000503)) = 100
   \<and> unat (state_writers 0x6400000503) = 5 \<and> unat (state_offset 0x6400000503) = 100
   \<and> state_sealed 0x6400000503 \<and> state_flush_in_progress 0x6400000503"
proof -
  let ?v = "\<lparr>f_offset = 100, f_writers = 5, f_reserved = 0, f_flushing = True, f_sealed = True\<rparr>"
  have "fields_ok ?v" by (simp add: fields_ok_def)
  moreover have "pack ?v = 0x6400000503" by (simp add: pack_def)
  ultimately show ?thesis using state_word_roundtrip [of ?v] by simp
qed

end
