(* ===== verification/Aligned_Buffer.thy ===== *)
theory Aligned_Buffer
  imports State_Word
begin

text \<open>
  The aligned allocation \<open>Buffer\<close> of \<^verbatim>\<open>src/src/lib.rs\<close>: its construction, its
  deallocation, and raw copies into it. The allocator is not part of the crate; it is the
  parameter \<open>alloc\<close>, which maps a layout to the address it returns, 0 being the null
  pointer.
\<close>

text \<open>\<open>std::alloc::Layout::from_size_align\<close> on a 64-bit target.\<close>

type_synonym layout = "usize \<times> usize"

definition layout_from_size_align :: "usize \<Rightarrow> usize \<Rightarrow> layout option" where
  "layout_from_size_align sz align =
     (if align \<noteq> 0 \<and> align AND (align - 1) = 0 \<and> unat sz \<le> 2 ^ 63 - unat align
      then Some (sz, align) else None)"

record Buffer =
  buf_ptr :: u64
  buf_mem :: "u8 list"
  buf_size :: usize

definition new_aligned :: "(layout \<Rightarrow> u64) \<Rightarrow> usize \<Rightarrow> Buffer outcome" where
  "new_aligned alloc sz =
     (case layout_from_size_align sz FOUR_KB_BLOCK of
        None \<Rightarrow> Panic
      | Some layout \<Rightarrow>
          if fst layout = 0 then Undefined
          else let ptr = alloc layout in
            if ptr = 0 then Panic
            else Done \<lparr>buf_ptr = ptr, buf_mem = replicate (unat sz) 0, buf_size = sz\<rparr>)"

text \<open>\<open>Drop\<close> hands the allocator the pointer together with a layout rebuilt from the size.\<close>

definition drop_buffer :: "Buffer \<Rightarrow> (u64 \<times> layout) outcome" where
  "drop_buffer b =
     (case layout_from_size_align (buf_size b) FOUR_KB_BLOCK of
        None \<Rightarrow> Panic
      | Some layout \<Rightarrow> Done (buf_ptr b, layout))"

definition buffer_wf :: "Buffer \<Rightarrow> bool" where
  "buffer_wf b \<longleftrightarrow> buf_ptr b \<noteq> 0 \<and> 0 < unat (buf_size b) \<and> length (buf_mem b) = unat (buf_size b)
     \<and> unat (buf_size b) \<le> 2 ^ 63 - 4096"

section \<open>Raw copies\<close>

text \<open>
  \<open>ptr::copy_nonoverlapping\<close> of a payload to \<open>base + offset\<close>: defined only when the whole
  destination lies inside the allocation.
\<close>

definition blit :: "nat \<Rightarrow> 'a list \<Rightarrow> 'a list \<Rightarrow> 'a list" where
  "blit off xs mem = take off mem @ xs @ drop (off + length xs) mem"

definition copy_into :: "usize \<Rightarrow> u8 list \<Rightarrow> Buffer \<Rightarrow> Buffer outcome" where
  "copy_into offset payload b =
     (if unat offset + length payload \<le> length (buf_mem b)
      then Done (b\<lparr>buf_mem := blit (unat offset) payload (buf_mem b)\<rparr>)
      else Undefined)"

lemma length_blit [simp]:
  "off + length xs \<le> length mem \<Longrightarrow> length (blit off xs mem) = length mem"
  by (simp add: blit_def)

lemma nth_blit:
  "off + length xs \<le> length mem \<Longrightarrow> i < length mem \<Longrightarrow>
   blit off xs mem ! i = (if off \<le> i \<and> i < off + length xs then xs ! (i - off) else mem ! i)"
  by (auto simp: blit_def nth_append min_def)

lemma take_drop_blit:
  "off + length xs \<le> length mem \<Longrightarrow> take (length xs) (drop off (blit off xs mem)) = xs"
  by (simp add: blit_def)

text \<open>A copy to a disjoint range leaves what an earlier copy stored.\<close>

lemma take_drop_blit_disjoint:
  assumes "off + length xs \<le> length mem" and "o' + n \<le> off \<or> off + length xs \<le> o'" and "o' + n \<le> length mem"
  shows "take n (drop o' (blit off xs mem)) = take n (drop o' mem)"
  using assms by (intro nth_equalityI) (auto simp: nth_blit)

lemma copy_into_Done:
  "copy_into offset payload b = Done b' \<longleftrightarrow>
     unat offset + length payload \<le> length (buf_mem b)
     \<and> b' = b\<lparr>buf_mem := blit (unat offset) payload (buf_mem b)\<rparr>"
  by (auto simp: copy_into_def)

lemma copy_into_wf: "buffer_wf b \<Longrightarrow> copy_into offset payload b = Done b' \<Longrightarrow> buffer_wf b'"
  by (auto simp: copy_into_Done buffer_wf_def)

section \<open>Construction and deallocation\<close>

lemma layout_4k:
  "layout_from_size_align sz FOUR_KB_BLOCK =
     (if unat sz \<le> 2 ^ 63 - 4096 then Some (sz, FOUR_KB_BLOCK) else None)"
  by (simp add: layout_from_size_align_def FOUR_KB_BLOCK_def)

lemma new_aligned_Done:
  "new_aligned alloc sz = Done b \<longleftrightarrow>
     0 < unat sz \<and> unat sz \<le> 2 ^ 63 - 4096 \<and> alloc (sz, FOUR_KB_BLOCK) \<noteq> 0
     \<and> b = \<lparr>buf_ptr = alloc (sz, FOUR_KB_BLOCK), buf_mem = replicate (unat sz) 0, buf_size = sz\<rparr>"
  by (auto simp: new_aligned_def layout_4k Let_def unat_gt_0)

lemma new_aligned_wf: "new_aligned alloc sz = Done b \<Longrightarrow> buffer_wf b"
  by (auto simp: new_aligned_Done buffer_wf_def)

text \<open>
  Every outcome of allocating an aligned buffer. A size of zero violates the
  allocator's contract, a size too large for a layout or a null allocation panics, and every
  other size succeeds with a zeroed store of exactly that size, whether or not the size is a
  multiple of the 4 KB block.
\<close>
lemma new_aligned_outcomes:
  "new_aligned alloc sz =
     (if 2 ^ 63 - 4096 < unat sz then Panic
      else if sz = 0 then Undefined
      else if alloc (sz, FOUR_KB_BLOCK) = 0 then Panic
      else Done \<lparr>buf_ptr = alloc (sz, FOUR_KB_BLOCK), buf_mem = replicate (unat sz) 0, buf_size = sz\<rparr>)"
  by (simp add: new_aligned_def layout_4k Let_def)

text \<open>
  A buffer is released with the pointer and the layout it was allocated with, also
  after any number of copies into it, and dropping it never panics.
\<close>
lemma drop_matches_alloc:
  assumes "new_aligned alloc sz = Done b"
    and "buf_ptr b' = buf_ptr b" and "buf_size b' = buf_size b"
  shows "drop_buffer b' = Done (alloc (sz, FOUR_KB_BLOCK), (sz, FOUR_KB_BLOCK))"
  using assms by (auto simp: new_aligned_Done drop_buffer_def layout_4k)

theorem drop_matches_alloc_witness:
  "drop_buffer \<lparr>buf_ptr = 8192, buf_mem = replicate 4096 7, buf_size = 4096\<rparr>
     = Done (8192, (4096, FOUR_KB_BLOCK))"
  using drop_matches_alloc [of "\<lambda>_. 8192" 4096
      "\<lparr>buf_ptr = 8192, buf_mem = replicate 4096 0, buf_size = 4096\<rparr>"
      "\<lparr>buf_ptr = 8192, buf_mem = replicate 4096 7, buf_size = 4096\<rparr>"]
  by (simp add: new_aligned_Done)

end
