(* ===== verification/Uring.thy ===== *)
theory Uring
  imports Prelude
begin

text \<open>
  The interface to the \<open>io-uring\<close> crate and the kernel behind it, which are not part of
  this repository. Everything the crate calls is a field of \<open>uring_api\<close>, a parameter of the
  definitions that use it; the state of one \<open>IoUring\<close> instance is the type variable
  \<open>'u\<close>. What the crate builds itself, submission entries, is data.
\<close>

datatype io_error = Other string | RawOs int

text \<open>
  A submission queue entry as \<^verbatim>\<open>quik_io.rs\<close> builds it: the opcode with its pointer and its
  32-bit length, the file offset, the two flags the code uses, and the user data.
  \<open>sqe_bytes\<close> is a ghost field: the bytes the buffer holds at the entry's pointer when the
  entry is built, which are the bytes written if the caller keeps the buffer unmodified
  until the completion is observed, as the safety comment of \<open>submit\<close> requires.
\<close>

datatype opcode = WriteOp u64 u32 | ReadOp u64 u32 | FsyncOp

record sqe =
  sqe_opcode :: opcode
  sqe_fd :: int
  sqe_offset :: u64
  sqe_io_link :: bool
  sqe_io_drain :: bool
  sqe_user_data :: u64
  sqe_bytes :: "u8 list"

text \<open>A completion queue entry: the user data of its submission and a signed result.\<close>

record cqe =
  cqe_user_data :: u64
  cqe_result :: int

text \<open>
  \<^item> \<open>sq_push\<close>: \<open>submission().push\<close>, \<open>None\<close> when the submission queue is full;
  \<^item> \<open>ring_submit\<close>, \<open>ring_submit_and_wait\<close>: the system calls, with their \<open>io::Result\<close>;
  \<^item> \<open>cq_sync\<close>, \<open>cq_next\<close>: make the kernel's completions visible, and take one;
  \<^item> \<open>sq_len\<close>, \<open>cq_len\<close>: queue lengths;
  \<^item> \<open>mem_at\<close>: what the kernel has stored at an address, for reads.
\<close>

record 'u uring_api =
  sq_push :: "sqe \<Rightarrow> 'u \<Rightarrow> 'u option"
  ring_submit :: "'u \<Rightarrow> (io_error + nat) \<times> 'u"
  ring_submit_and_wait :: "nat \<Rightarrow> 'u \<Rightarrow> (io_error + nat) \<times> 'u"
  cq_sync :: "'u \<Rightarrow> 'u"
  cq_next :: "'u \<Rightarrow> cqe option \<times> 'u"
  sq_len :: "'u \<Rightarrow> nat"
  cq_len :: "'u \<Rightarrow> nat"
  mem_at :: "u64 \<Rightarrow> nat \<Rightarrow> 'u \<Rightarrow> u8 list"

end
