(* ===== verification/Dispenser.thy ===== *)
theory Dispenser
  imports Prelude
begin

text \<open>
  The interface between what hands out byte ranges and what relies on their being disjoint.
  The crate has two such counters: the write offset of a buffer (\<^verbatim>\<open>reserve_space\<close>), and the
  address range of the ring (\<^verbatim>\<open>incrment_address\<close>). A dispenser takes a size and returns the
  start of a range, or refuses.
\<close>

section \<open>Successive requests\<close>

text \<open>
  Serve a list of sizes one after the other. \<open>between\<close> is what happens to the state after
  the \<open>i\<close>-th request. The result are the ranges granted, with start and size.
\<close>

fun serve ::
  "(nat \<Rightarrow> 's \<Rightarrow> (nat \<times> 's) option) \<Rightarrow> (nat \<Rightarrow> 's \<Rightarrow> 's) \<Rightarrow> nat list \<Rightarrow> 's \<Rightarrow> (nat \<times> nat) list \<times> 's" where
  "serve dispense between [] s = ([], s)"
| "serve dispense between (n # ns) s =
     (case dispense n s of
        None \<Rightarrow> serve dispense between ns (between (length ns) s)
      | Some (start, s') \<Rightarrow>
          (case serve dispense between ns (between (length ns) s') of (rs, s'') \<Rightarrow> ((start, n) # rs, s'')))"

text \<open>The first range ends before the second begins.\<close>

definition ends_before :: "nat \<times> nat \<Rightarrow> nat \<times> nat \<Rightarrow> bool" where
  "ends_before a b \<longleftrightarrow> fst a + snd a \<le> fst b"

section \<open>The contract\<close>

locale dispenser =
  fixes dispense :: "nat \<Rightarrow> 's \<Rightarrow> (nat \<times> 's) option"
    and cursor :: "'s \<Rightarrow> nat"
    and quiet :: "('s \<Rightarrow> 's) \<Rightarrow> bool"
  assumes grant: "dispense n s = Some (start, s') \<Longrightarrow> start = cursor s \<and> cursor s' = start + n"
    and quiet: "quiet f \<Longrightarrow> cursor (f s) = cursor s"
begin

text \<open>Whatever happens between the requests, as long as it leaves the cursor alone.\<close>

lemma serve_ranges:
  assumes "\<And>i. quiet (between i)" and "serve dispense between ns s = (rs, s')"
  shows "sorted_wrt ends_before rs \<and> cursor s \<le> cursor s'
    \<and> (\<forall>(start, n) \<in> set rs. cursor s \<le> start \<and> start + n \<le> cursor s')
    \<and> cursor s' = cursor s + sum_list (map snd rs)"
  using assms(2)
proof (induction ns arbitrary: s rs s')
  case Nil
  then show ?case by simp
next
  case (Cons n ns)
  show ?case
  proof (cases "dispense n s")
    case None
    then have "serve dispense between ns (between (length ns) s) = (rs, s')" using Cons.prems by simp
    from Cons.IH [OF this] show ?thesis unfolding quiet [OF assms(1)] .
  next
    case (Some p)
    obtain start t where p: "p = (start, t)" by fastforce
    obtain rs' where rs: "rs = (start, n) # rs'"
      and rest: "serve dispense between ns (between (length ns) t) = (rs', s')"
      using Cons.prems Some p by (auto split: prod.splits)
    have g: "start = cursor s" "cursor t = start + n" using grant Some p by auto
    have "ends_before (start, n) q" if "q \<in> set rs'" for q
      using Cons.IH [OF rest] that g(2) quiet [OF assms(1)] by (auto simp: ends_before_def)
    then show ?thesis
      using Cons.IH [OF rest] g quiet [OF assms(1)] by (auto simp: rs)
  qed
qed

lemma serve_disjoint:
  assumes "\<And>i. quiet (between i)" and "serve dispense between ns s = (rs, s')"
    and "i < j" and "j < length rs"
  shows "fst (rs ! i) + snd (rs ! i) \<le> fst (rs ! j)"
proof -
  have "sorted_wrt ends_before rs" using serve_ranges [OF assms(1,2)] by blast
  then show ?thesis using assms(3,4) by (simp add: sorted_wrt_iff_nth_less ends_before_def)
qed

end

text \<open>A dispenser of finite space.\<close>

locale bounded_dispenser = dispenser +
  fixes limit :: nat
  assumes fits: "dispense n s = Some (start, s') \<Longrightarrow> start + n \<le> limit"
begin

lemma serve_within:
  assumes "serve dispense between ns s = (rs, s')"
  shows "\<forall>(start, n) \<in> set rs. start + n \<le> limit"
  using assms
proof (induction ns arbitrary: s rs s')
  case (Cons n ns)
  show ?case
  proof (cases "dispense n s")
    case (Some p)
    then show ?thesis
      using Cons.IH Cons.prems fits by (cases p) (fastforce split: prod.splits)
  qed (use Cons.IH Cons.prems in simp)
qed simp

text \<open>No more than the limit can be handed out altogether.\<close>

lemma serve_total:
  assumes "\<And>i. quiet (between i)" and "serve dispense between ns s = (rs, s')" and "cursor s \<le> limit"
  shows "cursor s' \<le> limit"
  using assms(2,3)
proof (induction ns arbitrary: s rs s')
  case (Cons n ns)
  show ?case
  proof (cases "dispense n s")
    case None
    then show ?thesis using Cons.IH Cons.prems quiet [OF assms(1)] by simp
  next
    case (Some p)
    obtain start t where p: "p = (start, t)" by fastforce
    obtain rs' where "serve dispense between ns (between (length ns) t) = (rs', s')"
      using Cons.prems Some p by (auto split: prod.splits)
    moreover have "cursor t \<le> limit" using grant [of n s start t] fits [of n s start t] Some p by simp
    ultimately show ?thesis using Cons.IH quiet [OF assms(1)] by simp
  qed
qed simp

end

end
