(* ===== verification/Flush_Buffer.thy ===== *)
theory Flush_Buffer
  imports Aligned_Buffer Uring Dispenser
begin

text \<open>
  One flush buffer: the types of \<^verbatim>\<open>src/src/lib.rs\<close> and the operations of
  \<^verbatim>\<open>src/src/flush_buffer.rs\<close>. Every operation is one function on the \<open>FlushBuffer\<close>
  record. An operation made of a load and a later compare-exchange takes an
  \<open>interfere\<close> argument: what the other threads do to the buffer between the two accesses
  (the identity when nothing happens). Atomic orderings are not modelled: all accesses to
  one atomic word are taken in one order.
\<close>

datatype BufferError =
    InsufficientSpace
  | EncounteredSealedBuffer
  | EncounteredSealedBufferDuringCOMPEX
  | EncounteredUnSealedBufferDuringCOMPEX
  | ActiveUsers
  | InvalidState
  | RingExhausted
  | FailedReservation
  | FailedUnsealed

text \<open>
  \<open>fb_addr\<close> is the address at which the buffer is pinned, the value of
  \<open>self as *const FlushBuffer\<close>.
\<close>

record FlushBuffer =
  fb_state :: usize
  fb_buf :: Buffer
  fb_pos :: usize
  fb_local_address :: usize
  fb_sqe :: "sqe option"
  fb_addr :: u64

datatype BufferMsg =
    SealedBuffer
  | SuccessfullWrite
  | SuccessfullWriteFlush
  | FreeToFlush FlushBuffer

section \<open>Operations\<close>

subsection \<open>Construction\<close>

definition new_buffer :: "(layout \<Rightarrow> u64) \<Rightarrow> u64 \<Rightarrow> usize \<Rightarrow> usize \<Rightarrow> FlushBuffer outcome" where
  "new_buffer alloc place buffer_number sz =
     bind_outcome (new_aligned alloc sz) (\<lambda>b.
       Done \<lparr>fb_state = 0, fb_buf = b, fb_pos = buffer_number, fb_local_address = 0,
             fb_sqe = None, fb_addr = place\<rparr>)"

definition numbered_buffer :: "(layout \<Rightarrow> u64) \<Rightarrow> u64 \<Rightarrow> usize \<Rightarrow> FlushBuffer outcome" where
  "numbered_buffer alloc place buffer_pos =
     bind_outcome (new_aligned alloc ONE_MEGABYTE_BLOCK) (\<lambda>b.
       Done \<lparr>fb_state = 0, fb_buf = b, fb_pos = buffer_pos, fb_local_address = 0,
             fb_sqe = None, fb_addr = place\<rparr>)"

definition default_buffer :: "(layout \<Rightarrow> u64) \<Rightarrow> u64 \<Rightarrow> FlushBuffer outcome" where
  "default_buffer alloc place =
     bind_outcome (new_aligned alloc ONE_MEGABYTE_BLOCK) (\<lambda>b.
       Done \<lparr>fb_state = 0, fb_buf = b, fb_pos = 0, fb_local_address = 0,
             fb_sqe = None, fb_addr = place\<rparr>)"

subsection \<open>Reservation\<close>

definition is_available :: "FlushBuffer \<Rightarrow> bool" where
  "is_available fb \<longleftrightarrow>
     fb_state fb AND (SEALED_BIT OR FLUSH_IN_PROGRESS_BIT) = 0 \<and> state_offset (fb_state fb) = 0"

text \<open>\<open>compare_exchange\<close> on the state word: whether it succeeded, and the buffer after it.\<close>

definition cas_state :: "usize \<Rightarrow> usize \<Rightarrow> FlushBuffer \<Rightarrow> bool \<times> FlushBuffer" where
  "cas_state current new fb =
     (if fb_state fb = current then (True, fb\<lparr>fb_state := new\<rparr>) else (False, fb))"

text \<open>
  \<open>reserve_space\<close> up to its compare-exchange, as a function of the word it loaded: an
  error, or the offset to hand out together with the new word to install.
\<close>

definition reserve_check :: "profile \<Rightarrow> usize \<Rightarrow> usize \<Rightarrow> (BufferError + usize \<times> usize) outcome" where
  "reserve_check pf payload_size state =
     (if \<not> payload_size \<le> ONE_MEGABYTE_BLOCK then Panic
      else if state AND (SEALED_BIT OR FLUSH_IN_PROGRESS_BIT) \<noteq> 0
      then Done (Inl EncounteredSealedBuffer)
      else let offset = state_offset state in
        bind_outcome (add_usize pf offset payload_size) (\<lambda>reach.
          if reach > ONE_MEGABYTE_BLOCK then Done (Inl InsufficientSpace)
          else bind_outcome (mul_usize pf payload_size OFFSET_ONE) (\<lambda>inc.
            Done (Inr (offset, (state + inc) + WRITER_ONE)))))"

definition reserve_space ::
  "profile \<Rightarrow> (FlushBuffer \<Rightarrow> FlushBuffer) \<Rightarrow> usize \<Rightarrow> FlushBuffer
     \<Rightarrow> ((BufferError + usize) \<times> FlushBuffer) outcome" where
  "reserve_space pf interfere payload_size fb =
     bind_outcome (reserve_check pf payload_size (fb_state fb)) (\<lambda>r.
       case r of
         Inl e \<Rightarrow> Done (Inl e, fb)
       | Inr (offset, new) \<Rightarrow>
           (case cas_state (fb_state fb) new (interfere fb) of
              (True, fb') \<Rightarrow> Done (Inr offset, fb')
            | (False, fb') \<Rightarrow> Done (Inl FailedReservation, fb')))"

definition increment_offset ::
  "profile \<Rightarrow> usize \<Rightarrow> FlushBuffer \<Rightarrow> ((BufferError + usize) \<times> FlushBuffer) outcome" where
  "increment_offset pf payload_size fb =
     (let state = fb_state fb; offset = state_offset state in
      bind_outcome (add_usize pf offset payload_size) (\<lambda>reach.
        if reach > ONE_MEGABYTE_BLOCK then Done (Inl InsufficientSpace, fb)
        else bind_outcome (mul_usize pf payload_size OFFSET_ONE) (\<lambda>inc.
          Done (Inr offset, fb\<lparr>fb_state := state + inc\<rparr>))))"

subsection \<open>Writer count and flags; each returns the previous word\<close>

definition decrement_writers :: "FlushBuffer \<Rightarrow> usize \<times> FlushBuffer" where
  "decrement_writers fb = (fb_state fb, fb\<lparr>fb_state := fb_state fb - WRITER_ONE\<rparr>)"

definition increment_writers :: "FlushBuffer \<Rightarrow> usize \<times> FlushBuffer" where
  "increment_writers fb = (fb_state fb, fb\<lparr>fb_state := fb_state fb + WRITER_ONE\<rparr>)"

definition set_flush_in_progress :: "FlushBuffer \<Rightarrow> usize \<times> FlushBuffer" where
  "set_flush_in_progress fb =
     (fb_state fb, fb\<lparr>fb_state := fb_state fb OR FLUSH_IN_PROGRESS_BIT\<rparr>)"

definition clear_flush_in_progress :: "FlushBuffer \<Rightarrow> usize \<times> FlushBuffer" where
  "clear_flush_in_progress fb =
     (fb_state fb, fb\<lparr>fb_state := fb_state fb AND NOT FLUSH_IN_PROGRESS_BIT\<rparr>)"

definition write_buffer :: "usize \<Rightarrow> u8 list \<Rightarrow> FlushBuffer \<Rightarrow> FlushBuffer outcome" where
  "write_buffer offset payload fb =
     bind_outcome (copy_into offset payload (fb_buf fb)) (\<lambda>b. Done (fb\<lparr>fb_buf := b\<rparr>))"

definition is_sealed :: "FlushBuffer \<Rightarrow> bool \<times> FlushBuffer" where
  "is_sealed fb =
     (let state = fb_state fb
      in (state_sealed state, fb\<lparr>fb_state := fb_state fb OR SEALED_BIT\<rparr>))"

definition seal :: "FlushBuffer \<Rightarrow> (BufferError + unit) \<times> FlushBuffer" where
  "seal fb =
     (let prev = fb_state fb; fb' = fb\<lparr>fb_state := fb_state fb OR SEALED_BIT\<rparr>
      in (if state_sealed prev then Inl EncounteredSealedBufferDuringCOMPEX else Inr (), fb'))"

definition un_sealed ::
  "(FlushBuffer \<Rightarrow> FlushBuffer) \<Rightarrow> FlushBuffer \<Rightarrow> (BufferError + unit) \<times> FlushBuffer" where
  "un_sealed interfere fb =
     (let current = fb_state fb in
      if state_writers current \<noteq> 0 \<or> state_flush_in_progress current then (Inl ActiveUsers, fb)
      else if \<not> state_sealed current then (Inl EncounteredUnSealedBufferDuringCOMPEX, fb)
      else case cas_state current (current AND NOT SEALED_BIT) (interfere fb) of
        (True, fb') \<Rightarrow> (Inr (), fb')
      | (False, fb') \<Rightarrow> (Inl FailedUnsealed, fb'))"

text \<open>
  The compare-exchange loop of \<open>reset_offset\<close>; \<open>env i\<close> is what the other threads do in
  round \<open>i\<close> between the load and the exchange.
\<close>

partial_function (option) reset_offset ::
  "(nat \<Rightarrow> FlushBuffer \<Rightarrow> FlushBuffer) \<Rightarrow> nat \<Rightarrow> FlushBuffer \<Rightarrow> FlushBuffer option" where
  "reset_offset env i fb =
     (let current = fb_state fb; zeroed = current AND 0x00000000FFFFFFFF;
          r = cas_state current zeroed (env i fb)
      in if fst r then Some (snd r) else reset_offset env (Suc i) (snd r))"

subsection \<open>Observers and the address slot\<close>

definition buffer_len :: "FlushBuffer \<Rightarrow> usize" where
  "buffer_len fb = (let len = state_offset (fb_state fb) in len)"

definition state_snapshot :: "FlushBuffer \<Rightarrow> State" where
  "state_snapshot fb = State_from_usize (fb_state fb)"

definition local_address :: "FlushBuffer \<Rightarrow> usize" where
  "local_address fb = fb_local_address fb"

definition set_address ::
  "(FlushBuffer \<Rightarrow> FlushBuffer) \<Rightarrow> usize \<Rightarrow> FlushBuffer \<Rightarrow> (usize + usize) \<times> FlushBuffer" where
  "set_address interfere address_space fb =
     (let range = fb_local_address fb; fb' = interfere fb in
      if fb_local_address fb' = range
      then (Inr range, fb'\<lparr>fb_local_address := address_space\<rparr>)
      else (Inl (fb_local_address fb'), fb'))"

definition sqe_cell :: "FlushBuffer \<Rightarrow> sqe option" where
  "sqe_cell fb = fb_sqe fb"

definition buffer_position :: "FlushBuffer \<Rightarrow> usize" where
  "buffer_position fb = fb_pos fb"

definition get_pos :: "FlushBuffer \<Rightarrow> usize" where
  "get_pos fb = fb_pos fb"

definition get_sqe :: "FlushBuffer \<Rightarrow> sqe option" where
  "get_sqe fb = fb_sqe fb"

subsection \<open>The \<open>FlushableBuffer\<close> view\<close>

definition fb_buffer_data :: "profile \<Rightarrow> FlushBuffer \<Rightarrow> (u64 \<times> u8 list) outcome" where
  "fb_buffer_data pf fb =
     (let ptr = buf_ptr (fb_buf fb); len = state_offset (fb_state fb) in
      bind_outcome (next_multiple_of pf len FOUR_KB_BLOCK) (\<lambda>padded.
        if unat padded \<le> length (buf_mem (fb_buf fb))
        then Done (ptr, take (unat padded) (buf_mem (fb_buf fb)))
        else Undefined))"

definition fb_offset :: "FlushBuffer \<Rightarrow> u64" where
  "fb_offset fb = fb_local_address fb"

definition fb_user_data :: "FlushBuffer \<Rightarrow> u64" where
  "fb_user_data fb = fb_addr fb"

definition fb_submit_entry :: "sqe \<Rightarrow> FlushBuffer \<Rightarrow> FlushBuffer" where
  "fb_submit_entry e fb = fb\<lparr>fb_sqe := Some e\<rparr>"

section \<open>The operations on the fields of the word\<close>

abbreviation word_fields :: "FlushBuffer \<Rightarrow> fields" where
  "word_fields fb \<equiv> fields_of (fb_state fb)"

text \<open>Neither closed to writers nor being flushed.\<close>

abbreviation open_word :: "usize \<Rightarrow> bool" where
  "open_word w \<equiv> \<not> f_sealed (fields_of w) \<and> \<not> f_flushing (fields_of w)"

lemma megabyte: "unat ONE_MEGABYTE_BLOCK = 1048576"
  by (simp add: ONE_MEGABYTE_BLOCK_def)

lemma reserve_check_eq:
  "reserve_check pf n w =
     (if 1048576 < unat n then Panic
      else if f_sealed (fields_of w) \<or> f_flushing (fields_of w) then Done (Inl EncounteredSealedBuffer)
      else if 1048576 < f_offset (fields_of w) + unat n then Done (Inl InsufficientSpace)
      else Done (Inr (state_offset w, w + n * OFFSET_ONE + WRITER_ONE)))"
proof -
  have off: "unat (state_offset w) < 2 ^ 32"
    using fields_ok_fields_of [of w] by (simp add: fields_ok_def fields_of_def)
  show ?thesis
  proof (cases "unat n \<le> 1048576")
    case False
    then show ?thesis by (simp add: reserve_check_def word_le_nat_alt megabyte)
  next
    case True
    then have n: "n \<le> ONE_MEGABYTE_BLOCK" by (simp add: word_le_nat_alt megabyte)
    have sum: "unat (state_offset w + n) = unat (state_offset w) + unat n"
      using off True by (intro unat_add_no_overflow) simp
    have one: "unat OFFSET_ONE = 2 ^ 32" by (simp add: layout_consts)
    have "add_usize pf (state_offset w) n = Done (state_offset w + n)"
      "mul_usize pf n OFFSET_ONE = Done (n * OFFSET_ONE)"
      using off True by (simp_all add: outcome_simps one)
    then show ?thesis
      using n True
      by (simp add: reserve_check_def flags_clear_iff Let_def fields_of_def word_less_nat_alt sum megabyte)
  qed
qed

text \<open>
  C28: \<open>reserve_space\<close> with nobody interfering, for every payload length and every state whose
  writer count is below \<open>2 ^ 24 - 1\<close>, so that one more writer fits its field: it
  panics for a payload over one megabyte, refuses a sealed or flushing buffer, refuses a payload that does not
  fit below the one-megabyte mark, and otherwise hands out the old offset, advances the
  offset by the payload, counts one more writer and changes nothing else. The build profile
  makes no difference.
\<close>
theorem reserve_space_spec:
  assumes "unat (state_writers (fb_state fb)) < 2 ^ 24 - 1"
  shows "reserve_space pf (\<lambda>b. b) n fb =
    (let w = fb_state fb in
     if 1048576 < unat n then Panic
     else if state_sealed w \<or> state_flush_in_progress w
     then Done (Inl EncounteredSealedBuffer, fb)
     else if 1048576 < unat (state_offset w) + unat n
     then Done (Inl InsufficientSpace, fb)
     else Done (Inr (state_offset w),
       fb\<lparr>fb_state := pack ((fields_of w)\<lparr>f_offset := unat (state_offset w) + unat n,
                                          f_writers := unat (state_writers w) + 1\<rparr>)\<rparr>))"
  using word_eq_pack [OF fields_of_reserve [OF _ assms, of n]]
  by (simp add: reserve_space_def reserve_check_eq cas_state_def Let_def)

theorem reserve_space_spec_witness:
  "reserve_space Debug (\<lambda>b. b) 100
     \<lparr>fb_state = 0, fb_buf = \<lparr>buf_ptr = 4096, buf_mem = [], buf_size = 0\<rparr>, fb_pos = 0,
      fb_local_address = 0, fb_sqe = None, fb_addr = 64\<rparr>
   = Done (Inr 0, \<lparr>fb_state = 429496729856, fb_buf = \<lparr>buf_ptr = 4096, buf_mem = [], buf_size = 0\<rparr>,
      fb_pos = 0, fb_local_address = 0, fb_sqe = None, fb_addr = 64\<rparr>)"
  by (subst reserve_space_spec) (simp_all add: pack_def fields_of_zero)

lemma reserve_space_Ok:
  "reserve_space pf g n fb = Done (Inr off, fb') \<longleftrightarrow>
     unat n \<le> 1048576 \<and> open_word (fb_state fb)
     \<and> unat (state_offset (fb_state fb)) + unat n \<le> 1048576
     \<and> fb_state (g fb) = fb_state fb \<and> off = state_offset (fb_state fb)
     \<and> fb' = (g fb)\<lparr>fb_state := fb_state fb + n * OFFSET_ONE + WRITER_ONE\<rparr>"
  by (auto simp: reserve_space_def reserve_check_eq cas_state_def split: if_splits)

text \<open>
  \<open>reserve_space\<close> under contention. Whatever the other threads do to the buffer
  between the load and the compare-exchange, a call that fails leaves the buffer as they
  left it, a call that succeeds installed its reservation on a word equal to the one it
  checked, and once the checks passed the reservation fails exactly when the word changed.
\<close>
lemma reserve_space_contended:
  assumes "unat n \<le> 1048576" and "open_word (fb_state fb)"
    and "unat (state_offset (fb_state fb)) + unat n \<le> 1048576"
  shows "reserve_space pf others n fb =
    Done (if fb_state (others fb) = fb_state fb
          then (Inr (state_offset (fb_state fb)),
                (others fb)\<lparr>fb_state := fb_state fb + n * OFFSET_ONE + WRITER_ONE\<rparr>)
          else (Inl FailedReservation, others fb))"
  using assms by (auto simp: reserve_space_def reserve_check_eq cas_state_def)

theorem reserve_space_contended_witness:
  "reserve_space Release (\<lambda>b. b\<lparr>fb_state := 1\<rparr>) 8
     \<lparr>fb_state = 0, fb_buf = \<lparr>buf_ptr = 4096, buf_mem = [], buf_size = 0\<rparr>, fb_pos = 0,
      fb_local_address = 0, fb_sqe = None, fb_addr = 64\<rparr>
   = Done (Inl FailedReservation,
     \<lparr>fb_state = 1, fb_buf = \<lparr>buf_ptr = 4096, buf_mem = [], buf_size = 0\<rparr>, fb_pos = 0,
      fb_local_address = 0, fb_sqe = None, fb_addr = 64\<rparr>)"
  by (subst reserve_space_contended) simp_all


lemma fb_buffer_data_eq:
  "fb_buffer_data pf fb =
    (let k = round_up (unat (state_offset (fb_state fb))) 4096 in
     if k \<le> length (buf_mem (fb_buf fb))
     then Done (buf_ptr (fb_buf fb), take k (buf_mem (fb_buf fb))) else Undefined)"
proof -
  have k: "round_up (unat (state_offset (fb_state fb))) 4096 < 2 ^ 64"
    using round_up_less [of 4096 "unat (state_offset (fb_state fb))"] offset_bound [of "fb_state fb"] by simp
  show ?thesis
    using offset_bound [of "fb_state fb"]
    by (simp add: fb_buffer_data_def FOUR_KB_BLOCK_def next_multiple_of_no_overflow Let_def
        unat_word_of_nat_usize [OF k])
qed

text \<open>
  The writer whose payload was accepted can copy it, on a buffer of at least one
  megabyte: the copy stays inside the allocation, stores the payload in the reserved range
  and changes no byte outside it, and the data later handed to the kernel contains the
  payload at its offset.
\<close>
lemma reserve_write_read_back:
  assumes "buffer_wf (fb_buf fb)" and "1048576 \<le> unat (buf_size (fb_buf fb))"
    and "unat (state_writers (fb_state fb)) < 2 ^ 24 - 1"
    and "reserve_space pf (\<lambda>b. b) n fb = Done (Inr off, fb1)" and "length payload = unat n"
  shows "\<exists>fb2 ptr data. write_buffer off payload fb1 = Done fb2
    \<and> fb_buffer_data pf fb2 = Done (ptr, data)
    \<and> take (unat n) (drop (unat off) data) = payload
    \<and> (\<forall>i < length data. i < unat off \<or> unat off + unat n \<le> i \<longrightarrow> data ! i = buf_mem (fb_buf fb) ! i)"
proof -
  let ?w = "fb_state fb" and ?mem = "buf_mem (fb_buf fb)"
  let ?k = "round_up (unat off + unat n) 4096"
  from assms(4) have off: "off = state_offset ?w" "unat off + unat n \<le> 1048576"
    and fb1: "fb1 = fb\<lparr>fb_state := ?w + n * OFFSET_ONE + WRITER_ONE\<rparr>"
    by (auto simp: reserve_space_Ok)
  have len: "1048576 \<le> length ?mem" using assms(1,2) by (simp add: buffer_wf_def)
  define mem2 where "mem2 = blit (unat off) payload ?mem"
  define fb2 where "fb2 = fb1\<lparr>fb_buf := (fb_buf fb)\<lparr>buf_mem := mem2\<rparr>\<rparr>"
  have w: "write_buffer off payload fb1 = Done fb2"
    using off len assms(5) by (simp add: write_buffer_def copy_into_def fb2_def fb1 mem2_def)
  have "unat (state_offset (fb_state fb2)) = unat off + unat n"
    using reserve_sel [of ?w n] off assms(3) by (simp add: fb2_def fb1)
  moreover have "?k \<le> 1048576" using off by (intro round_up_le_multiple) simp_all
  moreover have "length mem2 = length ?mem" using off len assms(5) by (simp add: mem2_def)
  ultimately have d: "fb_buffer_data pf fb2 = Done (buf_ptr (fb_buf fb), take ?k mem2)"
    using len by (simp add: fb_buffer_data_eq Let_def) (simp add: fb2_def)
  have "take (unat n) (drop (unat off) mem2) = payload"
    using take_drop_blit [of "unat off" payload ?mem] off len assms(5) by (simp add: mem2_def)
  moreover have "unat n \<le> ?k - unat off"
    using round_up_ge [of "unat off + unat n" 4096] by linarith
  ultimately have "take (unat n) (drop (unat off) (take ?k mem2)) = payload"
    by (simp only: drop_take take_take min_absorb1)
  moreover have "take ?k mem2 ! i = ?mem ! i"
    if "i < length (take ?k mem2)" "i < unat off \<or> unat off + unat n \<le> i" for i
    using that off len assms(5) by (auto simp: mem2_def nth_blit)
  ultimately show ?thesis using w d by blast
qed

definition demo_buffer :: "usize \<Rightarrow> nat \<Rightarrow> FlushBuffer" where
  "demo_buffer w len =
     \<lparr>fb_state = w, fb_buf = \<lparr>buf_ptr = 4096, buf_mem = replicate len 0, buf_size = word_of_nat len\<rparr>,
      fb_pos = 0, fb_local_address = 0, fb_sqe = None, fb_addr = 64\<rparr>"

lemma demo_buffer_sel [simp]:
  "fb_state (demo_buffer w len) = w" "buf_mem (fb_buf (demo_buffer w len)) = replicate len 0"
  "buf_size (fb_buf (demo_buffer w len)) = word_of_nat len"
  "fb_local_address (demo_buffer w len) = 0" "fb_pos (demo_buffer w len) = 0"
  "demo_buffer w len\<lparr>fb_state := w'\<rparr> = demo_buffer w' len"
  by (simp_all add: demo_buffer_def)

lemma demo_buffer_wf: "0 < len \<Longrightarrow> len \<le> 2 ^ 63 - 4096 \<Longrightarrow> buffer_wf (fb_buf (demo_buffer w len))"
  by (simp add: demo_buffer_def buffer_wf_def unat_word_of_nat_usize)

theorem reserve_write_read_back_witness:
  "\<exists>fb2 ptr data. write_buffer 0 [1, 2] (demo_buffer 0x200000100 1048576) = Done fb2
    \<and> fb_buffer_data Debug fb2 = Done (ptr, data)
    \<and> take (unat (2 :: usize)) (drop (unat (0 :: usize)) data) = [1, 2]
    \<and> (\<forall>i < length data. i < unat (0 :: usize) \<or> unat (0 :: usize) + unat (2 :: usize) \<le> i
          \<longrightarrow> data ! i = buf_mem (fb_buf (demo_buffer 0 1048576)) ! i)"
proof (rule reserve_write_read_back)
  show "reserve_space Debug (\<lambda>b. b) 2 (demo_buffer 0 1048576)
      = Done (Inr 0, demo_buffer 0x200000100 1048576)"
    by (simp add: reserve_space_def reserve_check_eq cas_state_def layout_consts)
qed (simp_all add: demo_buffer_wf)

text \<open>
  C39: The reservation check compares with one megabyte, not with the buffer's own size. On
  a smaller buffer (the ring's options accept any size) a reservation that exceeds the
  allocation is granted, and the copy that follows writes outside it.
\<close>
theorem small_buffer_overrun:
  assumes "open_word (fb_state fb)" and "unat (state_offset (fb_state fb)) + unat n \<le> 1048576"
    and "length (buf_mem (fb_buf fb)) < unat (state_offset (fb_state fb)) + unat n"
    and "length payload = unat n"
  shows "\<exists>off fb'. reserve_space pf (\<lambda>b. b) n fb = Done (Inr off, fb')
    \<and> write_buffer off payload fb' = Undefined"
  using assms by (auto simp: reserve_space_Ok write_buffer_def copy_into_def)

theorem small_buffer_overrun_witness:
  "\<exists>fb off fb'. new_buffer (\<lambda>_. 4096) 64 0 4096 = Done fb
    \<and> reserve_space Debug (\<lambda>b. b) 8192 fb = Done (Inr off, fb')
    \<and> write_buffer off (replicate 8192 7) fb' = Undefined"
proof -
  have "new_buffer (\<lambda>_. 4096) 64 0 4096 = Done (demo_buffer 0 4096)"
    by (simp add: new_buffer_def new_aligned_Done demo_buffer_def)
  moreover have "\<exists>off fb'. reserve_space Debug (\<lambda>b. b) 8192 (demo_buffer 0 4096) = Done (Inr off, fb')
    \<and> write_buffer off (replicate 8192 7) fb' = Undefined"
    by (rule small_buffer_overrun) simp_all
  ultimately show ?thesis by blast
qed

text \<open>
  The slice handed to the kernel: its length is a multiple of the 4 KB block, covers
  every reserved byte and exceeds them by less than a block. It is inside the allocation
  whenever the buffer's size is a multiple of 4 KB not smaller than the write offset.
\<close>
lemma buffer_data_padded:
  assumes "buffer_wf (fb_buf fb)" and "unat (state_offset (fb_state fb)) \<le> unat (buf_size (fb_buf fb))"
    and "4096 dvd unat (buf_size (fb_buf fb))"
  shows "\<exists>data. fb_buffer_data pf fb = Done (buf_ptr (fb_buf fb), data)
    \<and> 4096 dvd length data
    \<and> unat (state_offset (fb_state fb)) \<le> length data
    \<and> length data < unat (state_offset (fb_state fb)) + 4096
    \<and> data = take (length data) (buf_mem (fb_buf fb))"
proof -
  let ?k = "round_up (unat (state_offset (fb_state fb))) 4096"
  have "?k \<le> length (buf_mem (fb_buf fb))"
    using assms by (auto simp: buffer_wf_def intro!: round_up_le_multiple)
  then show ?thesis
    using round_up_dvd [of 4096] round_up_less [of 4096] round_up_ge [of _ 4096]
    by (simp add: fb_buffer_data_eq Let_def min_def)
qed

theorem buffer_data_padded_witness:
  "\<exists>data. fb_buffer_data Debug (demo_buffer 0x6400000000 8192) = Done (4096, data) \<and> length data = 4096"
proof -
  have w: "unat (state_offset 0x6400000000) = 100" by (simp add: unat_state_offset)
  obtain data where d: "fb_buffer_data Debug (demo_buffer 0x6400000000 8192)
        = Done (buf_ptr (fb_buf (demo_buffer 0x6400000000 8192)), data)"
      "4096 dvd length data" "100 \<le> length data" "length data < 100 + 4096"
    using buffer_data_padded [of "demo_buffer 0x6400000000 8192" Debug] w
    by (auto simp: demo_buffer_wf)
  then have "length data = 4096" by (auto simp: dvd_def)
  then show ?thesis using d(1) by (simp add: demo_buffer_def)
qed


text \<open>
  \<open>is_sealed\<close> reports whether the buffer was sealed, and seals it: after asking an
  open buffer whether it is sealed, every reservation on it is refused and the next
  thread that finds it full is told that somebody else has already sealed it.
\<close>
lemma is_sealed_seals:
  "fst (is_sealed fb) = state_sealed (fb_state fb)
   \<and> state_sealed (fb_state (snd (is_sealed fb)))
   \<and> (\<forall>n. unat n \<le> 1048576 \<longrightarrow>
        reserve_space pf (\<lambda>b. b) n (snd (is_sealed fb)) = Done (Inl EncounteredSealedBuffer, snd (is_sealed fb)))
   \<and> fst (seal (snd (is_sealed fb))) = Inl EncounteredSealedBufferDuringCOMPEX"
  by (simp add: is_sealed_def seal_def reserve_space_def reserve_check_eq Let_def)

theorem is_sealed_seals_witness:
  "reserve_space Debug (\<lambda>b. b) 8 (snd (is_sealed (demo_buffer 0 4096)))
     = Done (Inl EncounteredSealedBuffer, snd (is_sealed (demo_buffer 0 4096)))
   \<and> fst (is_sealed (demo_buffer 0 4096)) = False"
  using is_sealed_seals [of "demo_buffer 0 4096" Debug] by simp


lemma unseal_word:
  "\<not> state_sealed w \<Longrightarrow> (w OR SEALED_BIT) AND NOT SEALED_BIT = w"
  by (subst fields_of_inject [symmetric]) (simp add: field_simps_word)

text \<open>
  Sealing and unsealing. A seal of an open buffer succeeds and a second one is
  refused; unsealing the idle sealed buffer restores exactly the word it had before, while
  it is refused as long as a writer is active or a flush is in progress. If another thread
  changes the word between the checks and the exchange, the unseal fails and has no effect.
\<close>
lemma seal_unseal:
  assumes "\<not> state_sealed (fb_state fb)"
  shows "fst (seal fb) = Inr ()
    \<and> fst (seal (snd (seal fb))) = Inl EncounteredSealedBufferDuringCOMPEX
    \<and> un_sealed others (snd (seal fb)) =
      (if state_writers (fb_state fb) \<noteq> 0 \<or> state_flush_in_progress (fb_state fb)
       then (Inl ActiveUsers, snd (seal fb))
       else if fb_state (others (snd (seal fb))) = fb_state (snd (seal fb))
       then (Inr (), (others (snd (seal fb)))\<lparr>fb_state := fb_state fb\<rparr>)
       else (Inl FailedUnsealed, others (snd (seal fb))))"
  using assms by (simp add: seal_def un_sealed_def cas_state_def unseal_word Let_def)

theorem seal_unseal_witness:
  "un_sealed (\<lambda>b. b) (snd (seal (demo_buffer 0x6400000000 4096)))
     = (Inr (), demo_buffer 0x6400000000 4096)"
  using seal_unseal [of "demo_buffer 0x6400000000 4096" "\<lambda>b. b"]
  by (simp add: seal_def state_writers_def state_sealed_def state_flush_in_progress_def layout_consts Let_def)

lemma reset_offset_round:
  "reset_offset env i fb =
    (if fb_state (env i fb) = fb_state fb
     then Some ((env i fb)\<lparr>fb_state := fb_state fb AND 0x00000000FFFFFFFF\<rparr>)
     else reset_offset env (Suc i) (env i fb))"
  by (subst reset_offset.simps) (simp add: cas_state_def Let_def)

text \<open>
  The compare-exchange loop of \<open>reset_offset\<close> returns as soon as one round sees no
  interference, and then the offset is zero while the writer count and both flags are those
  of the word that round loaded.
\<close>
lemma reset_offset_returns:
  assumes "\<And>b. fb_state (env k b) = fb_state b" and "i \<le> k"
  shows "\<exists>w fb'. reset_offset env i fb = Some fb' \<and> state_offset (fb_state fb') = 0
    \<and> state_writers (fb_state fb') = state_writers w
    \<and> state_sealed (fb_state fb') = state_sealed w
    \<and> state_flush_in_progress (fb_state fb') = state_flush_in_progress w
    \<and> (\<exists>j \<le> k. \<exists>b. fb_state b = w \<and> fb_state (env j b) = w)"
  using assms(2)
proof (induction "k - i" arbitrary: i fb)
  case 0
  then have "i = k" by simp
  then show ?case
    using assms(1)
    by (intro exI [of _ "fb_state fb"]) (auto simp: reset_offset_round)
next
  case (Suc d)
  show ?case
  proof (cases "fb_state (env i fb) = fb_state fb")
    case True
    then show ?thesis
      using Suc.prems by (intro exI [of _ "fb_state fb"]) (auto simp: reset_offset_round)
  next
    case False
    have "d = k - Suc i" "Suc i \<le> k" using Suc.hyps(2) by simp_all
    then have "\<exists>w fb'. reset_offset env (Suc i) (env i fb) = Some fb' \<and> state_offset (fb_state fb') = 0
      \<and> state_writers (fb_state fb') = state_writers w
      \<and> state_sealed (fb_state fb') = state_sealed w
      \<and> state_flush_in_progress (fb_state fb') = state_flush_in_progress w
      \<and> (\<exists>j \<le> k. \<exists>b. fb_state b = w \<and> fb_state (env j b) = w)" by (rule Suc.hyps(1))
    then show ?thesis using False by (simp only: reset_offset_round [of env i fb] if_False)
  qed
qed

theorem reset_offset_returns_witness:
  "\<exists>fb'. reset_offset (\<lambda>i b. if i = 0 then snd (seal b) else b) 0 (demo_buffer 0x6400000000 4096) = Some fb'
     \<and> state_offset (fb_state fb') = 0"
  using reset_offset_returns [of "\<lambda>i b. if i = 0 then snd (seal b) else b" 1 0 "demo_buffer 0x6400000000 4096"]
  by auto

text \<open>
  The flag operations do not disturb each other or the counters. Whatever the word,
  setting and clearing the flush bit and sealing change one flag each and nothing else of
  it, all of them return the word as it was before, and registering a writer changes the
  count alone as long as the count is below its maximum.
\<close>
lemma flag_updates_independent:
  "word_fields (snd (set_flush_in_progress fb)) = (word_fields fb)\<lparr>f_flushing := True\<rparr>
   \<and> word_fields (snd (clear_flush_in_progress fb)) = (word_fields fb)\<lparr>f_flushing := False\<rparr>
   \<and> word_fields (snd (seal fb)) = (word_fields fb)\<lparr>f_sealed := True\<rparr>
   \<and> fst (set_flush_in_progress fb) = fb_state fb \<and> fst (clear_flush_in_progress fb) = fb_state fb
   \<and> fst (increment_writers fb) = fb_state fb
   \<and> (unat (state_writers (fb_state fb)) < 2 ^ 24 - 1 \<longrightarrow>
        word_fields (snd (increment_writers fb))
          = (word_fields fb)\<lparr>f_writers := unat (state_writers (fb_state fb)) + 1\<rparr>)"
  by (simp add: set_flush_in_progress_def clear_flush_in_progress_def seal_def increment_writers_def
      field_simps_word Let_def)

theorem flag_updates_independent_witness:
  "word_fields (snd (increment_writers (demo_buffer 0 4096))) = (word_fields (demo_buffer 0 4096))\<lparr>f_writers := 1\<rparr>"
  using flag_updates_independent [of "demo_buffer 0 4096"] by simp

text \<open>
  The writer count is guarded by nothing. A \<open>decrement_writers\<close> on a buffer with no
  registered writer borrows from the write offset: the count becomes its maximum and the
  offset moves back one byte, or to its maximum on an empty buffer. With a registered
  writer it takes one off the count and leaves the rest of the word alone.
\<close>
lemma decrement_writers_spec:
  "fields_of (fb_state (snd (decrement_writers fb))) =
    (let v = fields_of (fb_state fb) in
     if 0 < unat (state_writers (fb_state fb))
     then v\<lparr>f_writers := unat (state_writers (fb_state fb)) - 1\<rparr>
     else v\<lparr>f_writers := 2 ^ 24 - 1,
            f_offset := (if 0 < unat (state_offset (fb_state fb))
                         then unat (state_offset (fb_state fb)) - 1 else 2 ^ 32 - 1)\<rparr>)"
  using fields_of_drop_writer_cases [of "fb_state fb"] by (simp add: decrement_writers_def Let_def)

text \<open>
  \<open>increment_offset\<close> with a payload near the top of the integer range, \<open>2 ^ 64 - k\<close>
  with \<open>k\<close> at most the current offset. Checked arithmetic panics; the wrapping arithmetic
  of a release build accepts the call, returns the old offset and moves the write offset
  back by \<open>k\<close>.
\<close>
lemma increment_offset_wraps:
  assumes "0 < k" and "k \<le> unat (state_offset (fb_state fb))"
    and "unat (state_offset (fb_state fb)) \<le> 1048576"
  shows "increment_offset Debug (- word_of_nat k) fb = Panic
    \<and> (\<exists>fb'. increment_offset Release (- word_of_nat k) fb = Done (Inr (state_offset (fb_state fb)), fb')
        \<and> fields_of (fb_state fb') = (fields_of (fb_state fb))
            \<lparr>f_offset := unat (state_offset (fb_state fb)) - k\<rparr>)"
proof -
  let ?w = "fb_state fb"
  let ?off = "state_offset ?w"
  have k: "unat (word_of_nat k :: usize) = k" using assms by (simp add: unat_word_of_nat_usize)
  have "(word_of_nat (2 ^ 64 - k) :: usize) = - word_of_nat k"
    using assms by (simp add: of_nat_diff)
  then have n: "unat (- word_of_nat k :: usize) = 2 ^ 64 - k"
    using unat_word_of_nat_usize [of "2 ^ 64 - k"] assms(1) by simp
  have sum: "?off + - word_of_nat k = word_of_nat (unat ?off - k)"
    using assms(2) by (simp add: of_nat_diff)
  have le: "\<not> ?off + - word_of_nat k > ONE_MEGABYTE_BLOCK"
    unfolding sum word_less_nat_alt megabyte using assms by (subst unat_word_of_nat_usize) simp_all
  have one: "unat OFFSET_ONE = 2 ^ 32" by (simp add: layout_consts)
  have "\<not> unat ?off + unat (- word_of_nat k :: usize) < 2 ^ 64"
    "\<not> unat (- word_of_nat k :: usize) * unat OFFSET_ONE < 2 ^ 64"
    using assms n one by simp_all
  then have "add_usize pf ?off (- word_of_nat k) = (case pf of Debug \<Rightarrow> Panic | Release \<Rightarrow> Done (?off + - word_of_nat k))"
    "mul_usize pf (- word_of_nat k) OFFSET_ONE = (case pf of Debug \<Rightarrow> Panic | Release \<Rightarrow> Done (- word_of_nat k * OFFSET_ONE))"
    for pf by (simp_all only: add_usize_def mul_usize_def if_False)
  then show ?thesis
    using le fields_of_sub_offset [OF assms(2)]
    by (simp add: increment_offset_def Let_def)
qed

theorem increment_offset_wraps_witness:
  "increment_offset Debug (- 4) (demo_buffer 0x6400000000 4096) = Panic
   \<and> (\<exists>fb'. increment_offset Release (- 4) (demo_buffer 0x6400000000 4096) = Done (Inr 100, fb')
        \<and> f_offset (fields_of (fb_state fb')) = 96)"
proof -
  have off: "unat (state_offset 0x6400000000) = 100" "state_offset 0x6400000000 = 100"
    by (simp_all add: unat_state_offset state_offset_def OFFSET_SHIFT_def)
  then show ?thesis
    using increment_offset_wraps [of 4 "demo_buffer 0x6400000000 4096"]
    by (auto simp del: fields_sel)
qed

section \<open>A buffer as a dispenser of byte ranges\<close>

text \<open>
  \<open>reserve_space\<close> on a buffer whose writer count is not saturated, as the dispenser of the
  buffer's bytes. Between two requests anything may happen that keeps the write offset, in
  particular writers copying and leaving.
\<close>

definition reserve_bytes :: "profile \<Rightarrow> nat \<Rightarrow> FlushBuffer \<Rightarrow> (nat \<times> FlushBuffer) option" where
  "reserve_bytes pf n fb =
     (if 2 ^ 64 \<le> n \<or> unat (state_writers (fb_state fb)) = 2 ^ 24 - 1 then None
      else case reserve_space pf (\<lambda>b. b) (word_of_nat n) fb of
        Done (Inr off, fb') \<Rightarrow> Some (unat off, fb')
      | _ \<Rightarrow> None)"

definition bytes_used :: "FlushBuffer \<Rightarrow> nat" where
  "bytes_used fb = unat (state_offset (fb_state fb))"

definition keeps_offset :: "(FlushBuffer \<Rightarrow> FlushBuffer) \<Rightarrow> bool" where
  "keeps_offset f \<longleftrightarrow> (\<forall>fb. state_offset (fb_state (f fb)) = state_offset (fb_state fb))"

lemma reserve_bytes_Some:
  assumes "reserve_bytes pf n fb = Some (start, fb')"
  shows "start = bytes_used fb" and "bytes_used fb' = start + n" and "start + n \<le> 1048576"
proof -
  have n: "unat (word_of_nat n :: usize) = n" and w: "unat (state_writers (fb_state fb)) < 2 ^ 24 - 1"
    using assms writers_bound [of "fb_state fb"]
    by (auto simp: reserve_bytes_def unat_word_of_nat_usize split: if_splits)
  obtain off where "reserve_space pf (\<lambda>b. b) (word_of_nat n) fb = Done (Inr off, fb')" and start: "start = unat off"
    using assms by (auto simp: reserve_bytes_def split: if_splits outcome.splits sum.splits)
  then have "unat (state_offset (fb_state fb)) + unat (word_of_nat n :: usize) \<le> 1048576"
    "off = state_offset (fb_state fb)"
    "fb' = fb\<lparr>fb_state := fb_state fb + word_of_nat n * OFFSET_ONE + WRITER_ONE\<rparr>"
    by (simp_all add: reserve_space_Ok)
  then show "start = bytes_used fb" "bytes_used fb' = start + n" "start + n \<le> 1048576"
    using reserve_sel(3) [of "fb_state fb" "word_of_nat n"] n w start by (simp_all add: bytes_used_def)
qed

interpretation fbytes: bounded_dispenser "reserve_bytes pf" bytes_used keeps_offset 1048576 for pf
  by unfold_locales (auto simp: reserve_bytes_Some keeps_offset_def bytes_used_def dest: reserve_bytes_Some)

text \<open>
  The byte ranges one buffer grants between two resets. However many reservations of
  whatever sizes are requested, with writers coming and going in between, the ranges
  granted are in order, pairwise disjoint and inside the first megabyte, and the write
  offset grows by exactly their total size.
\<close>
lemma granted_ranges_disjoint:
  assumes "\<And>i. keeps_offset (between i)" and "bytes_used fb \<le> 1048576"
    and "serve (reserve_bytes pf) between ns fb = (rs, fb')"
  shows "(\<forall>i j. i < j \<longrightarrow> j < length rs \<longrightarrow> fst (rs ! i) + snd (rs ! i) \<le> fst (rs ! j))
    \<and> (\<forall>(start, n) \<in> set rs. start + n \<le> 1048576)
    \<and> bytes_used fb' = bytes_used fb + sum_list (map snd rs) \<and> bytes_used fb' \<le> 1048576"
  using fbytes.serve_disjoint [OF assms(1,3)] fbytes.serve_within [OF assms(3)]
    fbytes.serve_ranges [OF assms(1,3)] fbytes.serve_total [OF assms(1,3,2)]
  by blast

theorem granted_ranges_disjoint_witness:
  "\<exists>fb'. serve (reserve_bytes Debug) (\<lambda>_ b. b) [2, 1048576, 3] (demo_buffer 0 4096) = ([(0, 2), (2, 3)], fb')
    \<and> bytes_used fb' = 5"
proof -
  have k: "keeps_offset (\<lambda>b. b)" by (simp add: keeps_offset_def)
  have z: "bytes_used (demo_buffer 0 4096) \<le> 1048576" by (simp add: bytes_used_def)
  have e: "serve (reserve_bytes Debug) (\<lambda>_ b. b) [2, 1048576, 3] (demo_buffer 0 4096)
      = ([(0, 2), (2, 3)], demo_buffer 0x500000200 4096)"
    by (simp add: reserve_bytes_def reserve_space_def reserve_check_eq cas_state_def layout_consts
        state_offset_def state_writers_def state_sealed_def state_flush_in_progress_def)
  show ?thesis using granted_ranges_disjoint [OF k z e] e by (simp add: bytes_used_def)
qed

end
