(* ===== verification/Disk.thy ===== *)
theory Disk
  imports Aligned_Buffer "HOL-Library.Multiset"
begin

text \<open>
  Files as the kernel keeps them, documented behaviour of \<open>pwrite\<close> and \<open>pread\<close>: a file is
  the list of its bytes; a write past the end extends the file, filling a gap with zeros; a
  read returns a window. The lemmas show that writes to disjoint ranges can be performed in
  any order.
\<close>

definition file_write :: "nat \<Rightarrow> u8 list \<Rightarrow> u8 list \<Rightarrow> u8 list" where
  "file_write off bytes disk =
     blit off bytes (disk @ replicate (off + length bytes - length disk) 0)"

definition file_window :: "u8 list \<Rightarrow> nat \<Rightarrow> nat \<Rightarrow> u8 list" where
  "file_window disk off n = map (\<lambda>i. if i < length disk then disk ! i else 0) [off..<off + n]"

text \<open>A list of writes, each with its offset, performed one after the other.\<close>

fun perform :: "(nat \<times> u8 list) list \<Rightarrow> u8 list \<Rightarrow> u8 list" where
  "perform [] disk = disk"
| "perform ((off, bytes) # ws) disk = perform ws (file_write off bytes disk)"

text \<open>Two writes that touch no common byte.\<close>

definition apart :: "nat \<times> u8 list \<Rightarrow> nat \<times> u8 list \<Rightarrow> bool" where
  "apart a b \<longleftrightarrow> fst a + length (snd a) \<le> fst b \<or> fst b + length (snd b) \<le> fst a"

text \<open>The writes follow each other without a gap from \<open>start\<close> to \<open>stop\<close>.\<close>

fun contiguous :: "nat \<Rightarrow> (nat \<times> u8 list) list \<Rightarrow> nat \<Rightarrow> bool" where
  "contiguous start [] stop \<longleftrightarrow> start = stop"
| "contiguous start (w # ws) stop \<longleftrightarrow> fst w = start \<and> contiguous (start + length (snd w)) ws stop"

section \<open>Windows and single writes\<close>

lemma length_file_window [simp]: "length (file_window disk off n) = n"
  by (simp add: file_window_def)

lemma take_drop_file_window:
  "d + k \<le> n \<Longrightarrow> take k (drop d (file_window disk off n)) = file_window disk (off + d) k"
  by (intro nth_equalityI) (auto simp: file_window_def add.assoc)

lemma file_window_prefix:
  assumes "take (length xs) (drop off disk) = xs" and "n \<le> length xs"
  shows "file_window disk off n = take n xs"
proof (rule nth_equalityI)
  fix i
  assume i: "i < length (file_window disk off n)"
  then have "i < length xs" using assms(2) by simp
  moreover have "length xs \<le> length disk - off" using arg_cong [OF assms(1), of length] by simp
  moreover have "xs ! i = take (length xs) (drop off disk) ! i" by (simp only: assms(1))
  ultimately have "off + i < length disk" and "xs ! i = disk ! (off + i)" by simp_all
  then show "file_window disk off n ! i = take n xs ! i" using i by (simp add: file_window_def)
qed (use assms in simp)

lemma length_file_write [simp]:
  "length (file_write off bytes disk) = max (length disk) (off + length bytes)"
  by (simp add: file_write_def)

lemma file_write_reads_back:
  "take (length bytes) (drop off (file_write off bytes disk)) = bytes"
  by (simp add: file_write_def take_drop_blit)

lemma file_write_apart:
  assumes "apart (o', xs) (off, bytes)" and "o' + length xs \<le> length disk"
    and "take (length xs) (drop o' disk) = xs"
  shows "take (length xs) (drop o' (file_write off bytes disk)) = xs"
proof -
  have "take (length xs) (drop o' (file_write off bytes disk))
      = take (length xs) (drop o' (disk @ replicate (off + length bytes - length disk) 0))"
    unfolding file_write_def by (rule take_drop_blit_disjoint) (use assms(1,2) in \<open>auto simp: apart_def\<close>)
  then show ?thesis using assms(2,3) by simp
qed

section \<open>Writes in any order\<close>

lemma apart_sym: "apart a b \<longleftrightarrow> apart b a"
  by (auto simp: apart_def)

lemma perform_keeps:
  assumes "\<forall>w \<in> set ws. apart (off, xs) w" and "off + length xs \<le> length disk"
    and "take (length xs) (drop off disk) = xs"
  shows "take (length xs) (drop off (perform ws disk)) = xs
    \<and> off + length xs \<le> length (perform ws disk)"
  using assms
proof (induction ws arbitrary: disk)
  case (Cons w ws)
  obtain o' bytes where w: "w = (o', bytes)" by fastforce
  have "take (length xs) (drop off (file_write o' bytes disk)) = xs"
    by (rule file_write_apart) (use Cons.prems w in auto)
  then show ?case using Cons.IH [of "file_write o' bytes disk"] Cons.prems w by simp
qed simp

lemma perform_reads_back:
  assumes "sorted_wrt apart ws" and "(off, xs) \<in> set ws"
  shows "take (length xs) (drop off (perform ws disk)) = xs
    \<and> off + length xs \<le> length (perform ws disk)"
  using assms
proof (induction ws arbitrary: disk)
  case (Cons w ws)
  show ?case
  proof (cases "w = (off, xs)")
    case True
    have "take (length xs) (drop off (perform ws (file_write off xs disk))) = xs
        \<and> off + length xs \<le> length (perform ws (file_write off xs disk))"
      by (rule perform_keeps) (use Cons.prems True in \<open>auto simp: file_write_reads_back\<close>)
    then show ?thesis using True by simp
  next
    case False
    then show ?thesis using Cons by (cases w) auto
  qed
qed simp

text \<open>Being pairwise apart does not depend on the order.\<close>

lemma sorted_wrt_apart_mset:
  assumes "mset ws = mset vs" and "sorted_wrt apart vs"
  shows "sorted_wrt apart ws"
  using assms
proof (induction ws arbitrary: vs)
  case (Cons w ws)
  obtain us us' where vs: "vs = us @ w # us'"
    using Cons.prems(1) by (metis in_set_conv_decomp list.set_intros(1) mset_eq_setD)
  then have m: "mset ws = mset (us @ us')" using Cons.prems(1) by simp
  have "sorted_wrt apart ws"
    by (rule Cons.IH [OF m]) (use Cons.prems(2) vs in \<open>auto simp: sorted_wrt_append\<close>)
  moreover have "\<forall>v \<in> set ws. apart w v"
    using mset_eq_setD [OF m] Cons.prems(2) vs by (auto simp: sorted_wrt_append apart_sym)
  ultimately show ?case by simp
qed simp

section \<open>Contiguous writes\<close>

lemma contiguous_append:
  "contiguous start (ws @ vs) stop \<longleftrightarrow> (\<exists>mid. contiguous start ws mid \<and> contiguous mid vs stop)"
  by (induction ws arbitrary: start) auto

lemma contiguous_bounds:
  "contiguous start ws stop \<Longrightarrow>
     start \<le> stop \<and> (\<forall>(off, bytes) \<in> set ws. start \<le> off \<and> off + length bytes \<le> stop)
     \<and> stop = start + length (concat (map snd ws))"
proof (induction ws arbitrary: start)
  case (Cons w ws)
  then show ?case using Cons.IH [of "start + length (snd w)"] by (cases w) fastforce
qed simp

lemma contiguous_apart: "contiguous start ws stop \<Longrightarrow> sorted_wrt apart ws"
proof (induction ws arbitrary: start)
  case (Cons w ws)
  have rest: "contiguous (start + length (snd w)) ws stop" using Cons.prems by simp
  have "\<forall>v \<in> set ws. apart w v"
    using contiguous_bounds [OF rest] Cons.prems by (auto simp: apart_def)
  then show ?case using Cons.IH [OF rest] by simp
qed simp

lemma contiguous_sorted: "contiguous start ws stop \<Longrightarrow> sorted (map fst ws)"
proof (induction ws arbitrary: start)
  case (Cons w ws)
  have rest: "contiguous (start + length (snd w)) ws stop" using Cons.prems by simp
  have "\<forall>v \<in> set ws. fst w \<le> fst v"
    using contiguous_bounds [OF rest] Cons.prems by auto
  then show ?case using Cons.IH [OF rest] by simp
qed simp

lemma contiguous_window:
  assumes "contiguous start ws stop"
    and "\<forall>(off, bytes) \<in> set ws. take (length bytes) (drop off disk) = bytes"
  shows "take (stop - start) (drop start disk) = concat (map snd ws)"
  using assms
proof (induction ws arbitrary: start)
  case (Cons w ws)
  obtain bytes where w: "w = (start, bytes)" using Cons.prems by (cases w) auto
  have rest: "contiguous (start + length bytes) ws stop" using Cons.prems w by simp
  have "stop - start = length bytes + (stop - (start + length bytes))"
    using contiguous_bounds [OF rest] by simp
  then have "take (stop - start) (drop start disk)
      = take (length bytes) (drop start disk)
        @ take (stop - (start + length bytes)) (drop (start + length bytes) disk)"
    by (simp only: take_add drop_drop add.commute)
  then show ?case using Cons.IH [OF rest] Cons.prems w by simp
qed simp

text \<open>
  The main fact: contiguous writes to a file, performed in any order, leave exactly their
  concatenation behind the start.
\<close>

lemma perform_contiguous:
  assumes "contiguous 0 vs stop" and "mset ws = mset vs"
  shows "perform ws [] = concat (map snd vs)"
proof -
  have sw: "sorted_wrt apart ws"
    using sorted_wrt_apart_mset [OF assms(2) contiguous_apart [OF assms(1)]] .
  have set: "set ws = set vs" using assms(2) by (metis set_mset_mset)
  have win: "take (stop - 0) (drop 0 (perform ws [])) = concat (map snd vs)"
    by (rule contiguous_window [OF assms(1)]) (use perform_reads_back [OF sw] set in auto)
  have "length (perform ws disk) \<le> stop" if "length disk \<le> stop" "set ws \<subseteq> set vs" for ws disk
    using that
  proof (induction ws arbitrary: disk)
    case (Cons w ws)
    then have "fst w + length (snd w) \<le> stop" using contiguous_bounds [OF assms(1)] by fastforce
    then show ?case using Cons by (cases w) simp
  qed simp
  from this [of "[]" ws] set win show ?thesis by simp
qed

end
