(* ===== verification/Uring_Sim.thy ===== *)
theory Uring_Sim
  imports Uring Disk
begin

text \<open>
  A small executable \<open>io_uring\<close> instance. It plays the part of the crate and the kernel in
  the witnesses, where a theorem about an arbitrary \<open>uring_api\<close> is applied to a concrete
  one; no definition of the model and no property depends on it. Entries move from the
  submission queue to the entries in flight when they are submitted, and complete, in
  order, when somebody waits.
\<close>

record sim =
  sim_cap :: nat
  sim_sq :: "sqe list"
  sim_flight :: "sqe list"
  sim_cq :: "cqe list"
  sim_file :: "u8 list"
  sim_mem :: "u64 \<Rightarrow> u8 list"

definition sim_init :: "nat \<Rightarrow> u8 list \<Rightarrow> sim" where
  "sim_init cap file =
     \<lparr>sim_cap = cap, sim_sq = [], sim_flight = [], sim_cq = [], sim_file = file, sim_mem = (\<lambda>_. [])\<rparr>"

definition sim_exec :: "sqe \<Rightarrow> sim \<Rightarrow> sim" where
  "sim_exec e s =
     (case sqe_opcode e of
        WriteOp p n \<Rightarrow> s\<lparr>sim_file := file_write (unat (sqe_offset e)) (sqe_bytes e) (sim_file s),
            sim_cq := sim_cq s @ [\<lparr>cqe_user_data = sqe_user_data e, cqe_result = int (unat n)\<rparr>]\<rparr>
      | ReadOp p n \<Rightarrow> s\<lparr>sim_mem := (sim_mem s)(p := file_window (sim_file s) (unat (sqe_offset e)) (unat n)),
            sim_cq := sim_cq s @ [\<lparr>cqe_user_data = sqe_user_data e, cqe_result = int (unat n)\<rparr>]\<rparr>
      | FsyncOp \<Rightarrow> s\<lparr>sim_cq := sim_cq s @ [\<lparr>cqe_user_data = sqe_user_data e, cqe_result = 0\<rparr>]\<rparr>)"

definition sim_submit :: "sim \<Rightarrow> (io_error + nat) \<times> sim" where
  "sim_submit s = (Inr (length (sim_sq s)), s\<lparr>sim_flight := sim_flight s @ sim_sq s, sim_sq := []\<rparr>)"

definition sim_complete :: "sim \<Rightarrow> sim" where
  "sim_complete s = (fold sim_exec (sim_flight s) s)\<lparr>sim_flight := []\<rparr>"

definition sim_api :: "sim uring_api" where
  "sim_api =
     \<lparr>sq_push = (\<lambda>e s. if length (sim_sq s) < sim_cap s then Some (s\<lparr>sim_sq := sim_sq s @ [e]\<rparr>) else None),
      ring_submit = sim_submit,
      ring_submit_and_wait = (\<lambda>n s. apsnd sim_complete (sim_submit s)),
      cq_sync = (\<lambda>s. s),
      cq_next = (\<lambda>s. case sim_cq s of [] \<Rightarrow> (None, s) | c # cs \<Rightarrow> (Some c, s\<lparr>sim_cq := cs\<rparr>)),
      sq_len = (\<lambda>s. length (sim_sq s)),
      cq_len = (\<lambda>s. length (sim_cq s)),
      mem_at = (\<lambda>p n s. sim_mem s p)\<rparr>"

definition demo_entry :: sqe where
  "demo_entry = \<lparr>sqe_opcode = WriteOp 4096 4096, sqe_fd = 3, sqe_offset = 0, sqe_io_link = True,
     sqe_io_drain = False, sqe_user_data = 64, sqe_bytes = replicate 4096 7\<rparr>"

end
