(* ===== verification/Quik_IO.thy ===== *)
theory Quik_IO
  imports Flush_Buffer Uring_Sim
begin

text \<open>
  The write dispatcher of \<^verbatim>\<open>src/src/quik_io.rs\<close>: \<open>BackingStore\<close>, \<open>QuikIO\<close> and the
  \<open>FlushableBuffer\<close> trait through which a buffer is submitted. The mutex around the
  \<open>IoUring\<close> instance makes every lock-protected section one atomic step on its state
  \<open>'u\<close>; the operations of the instance are the parameter \<open>U\<close> (theory \<open>Uring\<close>).
\<close>

definition FOUR_KB_PAGE :: usize where
  "FOUR_KB_PAGE = 4096"

datatype WriteMode = TailLocalizedWrites | SerializedWrites

record 'u BackingStore =
  bs_store :: int
  bs_flusher :: 'u
  bs_mode :: WriteMode

datatype 'u QuikIO =
    Searalized "'u BackingStore"
  | TailLocalized "'u BackingStore"

text \<open>The trait, as a record of its methods; \<open>submit_entry\<close> gives access to a cell.\<close>

record 'b FlushableBuffer =
  fl_buffer_data :: "'b \<Rightarrow> (u64 \<times> u8 list) outcome"
  fl_offset :: "'b \<Rightarrow> u64"
  fl_user_data :: "'b \<Rightarrow> u64"
  fl_submit_entry :: "sqe \<Rightarrow> 'b \<Rightarrow> 'b"

definition flush_buffer_methods :: "profile \<Rightarrow> FlushBuffer FlushableBuffer" where
  "flush_buffer_methods pf =
     \<lparr>fl_buffer_data = fb_buffer_data pf, fl_offset = fb_offset,
      fl_user_data = fb_user_data, fl_submit_entry = fb_submit_entry\<rparr>"

lemma flush_buffer_methods_sel [simp]:
  "fl_buffer_data (flush_buffer_methods pf) = fb_buffer_data pf"
  "fl_offset (flush_buffer_methods pf) fb = fb_local_address fb"
  "fl_user_data (flush_buffer_methods pf) fb = fb_addr fb"
  "fl_submit_entry (flush_buffer_methods pf) e fb = fb\<lparr>fb_sqe := Some e\<rparr>"
  by (simp_all add: flush_buffer_methods_def fb_offset_def fb_user_data_def fb_submit_entry_def)

section \<open>Operations\<close>

definition BackingStore_new :: "'u \<Rightarrow> int \<Rightarrow> WriteMode \<Rightarrow> 'u BackingStore" where
  "BackingStore_new io_uring file_handle mode =
     \<lparr>bs_store = file_handle, bs_flusher = io_uring, bs_mode = mode\<rparr>"

text \<open>
  \<open>submit\<close> returns its result, the store after it, and the entry it wrote into the
  buffer's \<open>submit_entry\<close> cell, if it wrote one.
\<close>

definition submit ::
  "'u uring_api \<Rightarrow> u64 \<times> u8 list \<Rightarrow> u64 \<Rightarrow> u64 \<Rightarrow> 'u BackingStore
     \<Rightarrow> (io_error + unit) \<times> 'u BackingStore \<times> sqe option" where
  "submit U buffer_data at buffer_ptr bs =
     (let link = (case bs_mode bs of TailLocalizedWrites \<Rightarrow> False | SerializedWrites \<Rightarrow> True);
          len = (word_of_nat (length (snd buffer_data)) :: u32);
          sqe = \<lparr>sqe_opcode = WriteOp (fst buffer_data) len, sqe_fd = bs_store bs,
                 sqe_offset = at, sqe_io_link = link, sqe_io_drain = False,
                 sqe_user_data = buffer_ptr, sqe_bytes = take (unat len) (snd buffer_data)\<rparr>
      in case sq_push U sqe (bs_flusher bs) of
           None \<Rightarrow> (Inl (Other ''SQ full''), bs, None)
         | Some u \<Rightarrow>
             (case ring_submit U u of
                (Inl e, u') \<Rightarrow> (Inl e, bs\<lparr>bs_flusher := u'\<rparr>, Some sqe)
              | (Inr _, u') \<Rightarrow> (Inr (), bs\<lparr>bs_flusher := u'\<rparr>, Some sqe)))"

primrec get_backing_store :: "'u QuikIO \<Rightarrow> 'u BackingStore" where
  "get_backing_store (Searalized bs) = bs"
| "get_backing_store (TailLocalized bs) = bs"

text \<open>The same dispatcher with its store replaced, the effect of a mutation through it.\<close>

primrec put_backing_store :: "'u BackingStore \<Rightarrow> 'u QuikIO \<Rightarrow> 'u QuikIO" where
  "put_backing_store bs (Searalized _) = Searalized bs"
| "put_backing_store bs (TailLocalized _) = TailLocalized bs"

text \<open>\<open>ring()\<close>: the locked \<open>IoUring\<close> instance.\<close>

definition quik_ring :: "'u QuikIO \<Rightarrow> 'u" where
  "quik_ring q = bs_flusher (get_backing_store q)"

definition set_ring :: "'u \<Rightarrow> 'u QuikIO \<Rightarrow> 'u QuikIO" where
  "set_ring u q = put_backing_store ((get_backing_store q)\<lparr>bs_flusher := u\<rparr>) q"

text \<open>
  The constructors; \<open>new_uring n\<close> is \<open>IoUring::new(n)\<close>, whose error \<open>unwrap\<close> turns into a
  panic.
\<close>

definition QuikIO_link :: "(nat \<Rightarrow> io_error + 'u) \<Rightarrow> int \<Rightarrow> 'u QuikIO outcome" where
  "QuikIO_link new_uring file =
     (case new_uring 8 of
        Inl _ \<Rightarrow> Panic
      | Inr u \<Rightarrow> Done (Searalized (BackingStore_new u file SerializedWrites)))"

definition QuikIO_new :: "(nat \<Rightarrow> io_error + 'u) \<Rightarrow> int \<Rightarrow> 'u QuikIO outcome" where
  "QuikIO_new new_uring file =
     (case new_uring 8 of
        Inl _ \<Rightarrow> Panic
      | Inr u \<Rightarrow> Done (TailLocalized (BackingStore_new u file TailLocalizedWrites)))"

text \<open>The result of \<open>submit\<close> is dropped.\<close>

definition submit_buffer_raw ::
  "'u uring_api \<Rightarrow> u64 \<times> u8 list \<Rightarrow> u64 \<Rightarrow> u64 \<Rightarrow> 'u QuikIO \<Rightarrow> 'u QuikIO \<times> sqe option" where
  "submit_buffer_raw U buffer_data at user_data q =
     (case submit U buffer_data at user_data (get_backing_store q) of
        (_, bs, entry) \<Rightarrow> (put_backing_store bs q, entry))"

definition submit_buffer ::
  "'u uring_api \<Rightarrow> 'b FlushableBuffer \<Rightarrow> 'b \<Rightarrow> 'u QuikIO \<Rightarrow> ('u QuikIO \<times> 'b) outcome" where
  "submit_buffer U F buffer q =
     bind_outcome (fl_buffer_data F buffer) (\<lambda>data.
       let at = fl_offset F buffer; user_data = fl_user_data F buffer in
       case submit_buffer_raw U data at user_data q of
         (q', None) \<Rightarrow> Done (q', buffer)
       | (q', Some e) \<Rightarrow> Done (q', fl_submit_entry F e buffer))"

definition sync_data :: "'u uring_api \<Rightarrow> 'u QuikIO \<Rightarrow> (io_error + unit) \<times> 'u QuikIO" where
  "sync_data U q =
     (let bs = get_backing_store q;
          sqe = \<lparr>sqe_opcode = FsyncOp, sqe_fd = bs_store bs, sqe_offset = 0, sqe_io_link = False,
                 sqe_io_drain = True, sqe_user_data = 0, sqe_bytes = []\<rparr>
      in case sq_push U sqe (bs_flusher bs) of
           None \<Rightarrow> (Inl (Other ''SQ full''), q)
         | Some u \<Rightarrow>
             (case ring_submit_and_wait U 1 u of
                (Inl e, u') \<Rightarrow> (Inl e, set_ring u' q)
              | (Inr _, u') \<Rightarrow> (Inr (), set_ring u' q)))"

text \<open>The \<open>while let Some(cqe) = cq.next()\<close> loop of \<open>cqe\<close>; \<open>None\<close> is not returning.\<close>

partial_function (option) drain_cq ::
  "'u uring_api \<Rightarrow> cqe list \<Rightarrow> 'u \<Rightarrow> (cqe list \<times> 'u) option" where
  "drain_cq U entries u =
     (case cq_next U u of
        (None, u') \<Rightarrow> Some (entries, u')
      | (Some c, u') \<Rightarrow> drain_cq U (entries @ [c]) u')"

text \<open>Acquiring \<open>completion()\<close> synchronises with the kernel, and so does \<open>sync()\<close>.\<close>

definition quik_cqe :: "'u uring_api \<Rightarrow> 'u QuikIO \<Rightarrow> (cqe list \<times> 'u QuikIO) option" where
  "quik_cqe U q =
     (let cq = cq_sync U (quik_ring q); cq = cq_sync U cq
      in map_option (\<lambda>(entries, u). (entries, set_ring u q)) (drain_cq U [] cq))"

partial_function (option) wait_for_all ::
  "'u uring_api \<Rightarrow> 'u QuikIO \<Rightarrow> ((io_error + unit) \<times> 'u QuikIO) option" where
  "wait_for_all U q =
     Option.bind (quik_cqe U q) (\<lambda>(cqes, q1).
       case find (\<lambda>c. cqe_result c < 0) cqes of
         Some c \<Rightarrow> Some (Inl (RawOs (- cqe_result c)), q1)
       | None \<Rightarrow>
           if sq_len U (quik_ring q1) = 0 \<and> cq_len U (cq_sync U (quik_ring q1)) = 0
           then Some (Inr (), set_ring (cq_sync U (quik_ring q1)) q1)
           else wait_for_all U (set_ring (cq_sync U (quik_ring q1)) q1))"

definition retry_sqe :: "'u uring_api \<Rightarrow> sqe \<Rightarrow> 'u QuikIO \<Rightarrow> (io_error + unit) \<times> 'u QuikIO" where
  "retry_sqe U sqe q =
     (case sq_push U sqe (quik_ring q) of
        None \<Rightarrow> (Inl (Other ''SQ full''), q)
      | Some u \<Rightarrow>
          (case ring_submit U u of
             (Inl e, u') \<Rightarrow> (Inl e, set_ring u' q)
           | (Inr _, u') \<Rightarrow> (Inr (), set_ring u' q)))"

text \<open>
  \<open>read\<close>: the bytes copied to the caller's pointer are the result. \<open>alloc\<close> is the
  allocator, as for buffers.
\<close>

definition quik_read ::
  "profile \<Rightarrow> 'u uring_api \<Rightarrow> (layout \<Rightarrow> u64) \<Rightarrow> usize \<Rightarrow> u64 \<Rightarrow> 'u QuikIO
     \<Rightarrow> ((io_error + u8 list) \<times> 'u QuikIO) outcome" where
  "quik_read pf U alloc len offset q =
     (let aligned_offset = offset AND NOT (FOUR_KB_PAGE - 1); delta = offset - aligned_offset in
      bind_outcome (add_usize pf len delta) (\<lambda>sum.
      bind_outcome (next_multiple_of pf sum FOUR_KB_PAGE) (\<lambda>aligned_len.
      case layout_from_size_align aligned_len FOUR_KB_PAGE of
        None \<Rightarrow> Panic
      | Some layout \<Rightarrow>
        if fst layout = 0 then Undefined
        else let aligned_ptr = alloc layout in
        if aligned_ptr = 0 then Panic
        else let bs = get_backing_store q;
            sqe = \<lparr>sqe_opcode = ReadOp aligned_ptr (ucast aligned_len), sqe_fd = bs_store bs,
                   sqe_offset = aligned_offset, sqe_io_link = False, sqe_io_drain = False,
                   sqe_user_data = 0, sqe_bytes = []\<rparr>
          in case sq_push U sqe (quik_ring q) of
            None \<Rightarrow> Done (Inl (Other ''submission queue full''), q)
          | Some u \<Rightarrow>
            (case ring_submit_and_wait U 1 u of
               (Inl e, u1) \<Rightarrow> Done (Inl e, set_ring u1 q)
             | (Inr _, u1) \<Rightarrow>
               (case cq_next U (cq_sync U u1) of
                  (None, u2) \<Rightarrow> Done (Inl (Other ''no completion''), set_ring u2 q)
                | (Some cqe, u2) \<Rightarrow>
                  if cqe_result cqe < 0
                  then Done (Inl (RawOs (- cqe_result cqe)), set_ring u2 q)
                  else Done (Inr (take (unat len) (drop (unat delta)
                         (mem_at U aligned_ptr (unat aligned_len) u2))), set_ring u2 q))))))"

section \<open>Submission\<close>

lemma quik_ring_set [simp]: "quik_ring (set_ring u q) = u"
  by (cases q) (simp_all add: quik_ring_def set_ring_def)

lemma get_put_backing_store [simp]: "get_backing_store (put_backing_store bs q) = bs"
  by (cases q) simp_all

text \<open>The entry \<open>submit\<close> builds for a slice.\<close>

definition write_entry :: "u64 \<times> u8 list \<Rightarrow> u64 \<Rightarrow> u64 \<Rightarrow> 'u BackingStore \<Rightarrow> sqe" where
  "write_entry data at user_data bs =
     \<lparr>sqe_opcode = WriteOp (fst data) (word_of_nat (length (snd data))), sqe_fd = bs_store bs,
      sqe_offset = at, sqe_io_link = (bs_mode bs = SerializedWrites), sqe_io_drain = False,
      sqe_user_data = user_data,
      sqe_bytes = take (unat (word_of_nat (length (snd data)) :: u32)) (snd data)\<rparr>"

lemma submit_eq:
  "submit U data at user_data bs =
    (case sq_push U (write_entry data at user_data bs) (bs_flusher bs) of
       None \<Rightarrow> (Inl (Other ''SQ full''), bs, None)
     | Some u \<Rightarrow> (map_sum id (\<lambda>_. ()) (fst (ring_submit U u)),
                bs\<lparr>bs_flusher := snd (ring_submit U u)\<rparr>, Some (write_entry data at user_data bs)))"
  by (cases "bs_mode bs")
    (auto simp: submit_def write_entry_def Let_def split: option.splits prod.splits sum.splits)

lemma submit_buffer_raw_eq:
  "submit_buffer_raw U data at user_data q =
    (case sq_push U (write_entry data at user_data (get_backing_store q)) (quik_ring q) of
       None \<Rightarrow> (q, None)
     | Some u \<Rightarrow> (set_ring (snd (ring_submit U u)) q, Some (write_entry data at user_data (get_backing_store q))))"
  by (cases q) (simp_all add: submit_buffer_raw_def submit_eq quik_ring_def set_ring_def split: option.splits)

text \<open>
  What a flushable buffer owes its dispatcher: on a valid buffer the data is a readable
  slice whose length is a multiple of the page and fits the 32-bit length of an entry, and
  recording the entry changes none of what the methods return.
\<close>

locale flushable =
  fixes F :: "'b FlushableBuffer" and valid :: "'b \<Rightarrow> bool"
  assumes data_ok: "valid b \<Longrightarrow> \<exists>ptr data. fl_buffer_data F b = Done (ptr, data)
      \<and> 4096 dvd length data \<and> length data < 2 ^ 32"
    and entry_data: "fl_buffer_data F (fl_submit_entry F e b) = fl_buffer_data F b"
    and entry_offset: "fl_offset F (fl_submit_entry F e b) = fl_offset F b"
    and entry_user_data: "fl_user_data F (fl_submit_entry F e b) = fl_user_data F b"
    and entry_valid: "valid b \<Longrightarrow> valid (fl_submit_entry F e b)"
begin

lemma entry_exact:
  assumes "valid b"
  obtains ptr data where "fl_buffer_data F b = Done (ptr, data)" and "4096 dvd length data"
    and "length data < 2 ^ 32"
    and "sqe_opcode (write_entry (ptr, data) at ud bs) = WriteOp ptr (word_of_nat (length data))"
    and "unat (word_of_nat (length data) :: u32) = length data"
    and "sqe_bytes (write_entry (ptr, data) at ud bs) = data"
proof -
  obtain ptr data where d: "fl_buffer_data F b = Done (ptr, data)" "4096 dvd length data"
      "length data < 2 ^ 32"
    using data_ok [OF assms] by blast
  have len: "unat (word_of_nat (length data) :: u32) = length data"
    using d(3) by (simp add: unsigned_of_nat take_bit_nat_eq_self)
  have bytes: "sqe_bytes (write_entry (ptr, data) at ud bs) = data"
    by (simp add: write_entry_def len)
  show ?thesis by (rule that [OF d _ len bytes]) (simp add: write_entry_def)
qed

text \<open>Submitting never fails, and does nothing but record the entry it pushed.\<close>

lemma submit_total:
  assumes "valid b"
  shows "\<exists>ptr data. fl_buffer_data F b = Done (ptr, data) \<and>
    submit_buffer U F b q =
      (let e = write_entry (ptr, data) (fl_offset F b) (fl_user_data F b) (get_backing_store q) in
       case sq_push U e (quik_ring q) of
         None \<Rightarrow> Done (q, b)
       | Some u \<Rightarrow> Done (set_ring (snd (ring_submit U u)) q, fl_submit_entry F e b))"
proof -
  obtain ptr data where "fl_buffer_data F b = Done (ptr, data)"
    using data_ok [OF assms] by blast
  then show ?thesis
    by (simp add: submit_buffer_def submit_buffer_raw_eq Let_def split: option.splits)
qed

lemma submit_keeps_valid:
  "valid b \<Longrightarrow> submit_buffer U F b q = Done (q', b') \<Longrightarrow> valid b'"
  using submit_total [of b U q]
  by (auto simp: Let_def entry_valid split: option.splits)

text \<open>A second submission of the buffer builds the same entry again.\<close>

lemma resubmit_same_entry:
  assumes "valid b" and "submit_buffer U F b q = Done (q', b')"
  shows "fl_buffer_data F b' = fl_buffer_data F b \<and> fl_offset F b' = fl_offset F b
    \<and> fl_user_data F b' = fl_user_data F b"
  using submit_total [of b U q] assms
  by (auto simp: Let_def entry_data entry_offset entry_user_data split: option.splits)

end

definition submittable :: "FlushBuffer \<Rightarrow> bool" where
  "submittable fb \<longleftrightarrow> buffer_wf (fb_buf fb) \<and> 4096 dvd unat (buf_size (fb_buf fb))
     \<and> unat (buf_size (fb_buf fb)) < 2 ^ 32
     \<and> unat (state_offset (fb_state fb)) \<le> unat (buf_size (fb_buf fb))"

interpretation fbuf: flushable "flush_buffer_methods pf" submittable for pf
proof
  fix b :: FlushBuffer
  assume b: "submittable b"
  let ?k = "round_up (unat (state_offset (fb_state b))) 4096"
  have "?k \<le> length (buf_mem (fb_buf b))" "length (buf_mem (fb_buf b)) < 2 ^ 32"
    using b by (auto simp: submittable_def buffer_wf_def intro!: round_up_le_multiple)
  then show "\<exists>ptr data. fl_buffer_data (flush_buffer_methods pf) b = Done (ptr, data)
      \<and> 4096 dvd length data \<and> length data < 2 ^ 32"
    by (simp add: fb_buffer_data_eq round_up_dvd Let_def min_def)
qed (simp_all add: fb_buffer_data_eq Let_def submittable_def)

text \<open>
  Submitting a flush buffer whose offset lies inside a page-multiple allocation pushes
  exactly one write entry: it covers the padded data from the start of the allocation,
  carries their exact length (the 32-bit cast loses nothing), goes to the buffer's address
  slot, names the buffer as its user data and is linked exactly in serialized mode. The
  entry is kept in the buffer. When the queue is full nothing happens at all, and the
  caller gets no error: \<open>submit_buffer\<close> returns as usual.
\<close>
lemma submit_flush_buffer:
  assumes "submittable fb"
  shows "\<exists>data len e. fb_buffer_data pf fb = Done (buf_ptr (fb_buf fb), data)
    \<and> unat (len :: u32) = length data
    \<and> e = \<lparr>sqe_opcode = WriteOp (buf_ptr (fb_buf fb)) len, sqe_fd = bs_store (get_backing_store q),
           sqe_offset = fb_local_address fb,
           sqe_io_link = (bs_mode (get_backing_store q) = SerializedWrites), sqe_io_drain = False,
           sqe_user_data = fb_addr fb, sqe_bytes = data\<rparr>
    \<and> submit_buffer U (flush_buffer_methods pf) fb q =
        (case sq_push U e (quik_ring q) of
           None \<Rightarrow> Done (q, fb)
         | Some u \<Rightarrow> Done (set_ring (snd (ring_submit U u)) q, fb\<lparr>fb_sqe := Some e\<rparr>))"
proof -
  let ?bs = "get_backing_store q"
  obtain ptr data where d: "fl_buffer_data (flush_buffer_methods pf) fb = Done (ptr, data)"
      and len: "unat (word_of_nat (length data) :: u32) = length data"
      and bytes: "sqe_bytes (write_entry (ptr, data) (fb_local_address fb) (fb_addr fb) ?bs) = data"
    using fbuf.entry_exact [OF assms] by metis
  then have fd: "fb_buffer_data pf fb = Done (ptr, data)" by simp
  then have ptr: "ptr = buf_ptr (fb_buf fb)"
    by (auto simp: fb_buffer_data_eq Let_def split: if_splits)
  have "submit_buffer U (flush_buffer_methods pf) fb q =
      (let e = write_entry (ptr, data) (fb_local_address fb) (fb_addr fb) ?bs in
       case sq_push U e (quik_ring q) of
         None \<Rightarrow> Done (q, fb)
       | Some u \<Rightarrow> Done (set_ring (snd (ring_submit U u)) q, fb\<lparr>fb_sqe := Some e\<rparr>))"
    using fbuf.submit_total [OF assms, of pf U q] fd
    by (simp add: Let_def cong: option.case_cong)
  then show ?thesis
    using fd len bytes
    by (intro exI [of _ data] exI [of _ "word_of_nat (length data) :: u32"]
        exI [of _ "write_entry (ptr, data) (fb_local_address fb) (fb_addr fb) ?bs"])
      (simp add: ptr write_entry_def Let_def cong: option.case_cong)
qed

lemma demo_submittable:
  "unat (state_offset w) \<le> 4096 \<Longrightarrow> submittable (demo_buffer w 4096)"
  by (simp add: submittable_def demo_buffer_wf)

theorem submit_flush_buffer_witness:
  "\<exists>data e. fb_buffer_data Debug (demo_buffer 0x6400000000 4096) = Done (4096, data)
    \<and> submit_buffer sim_api (flush_buffer_methods Debug) (demo_buffer 0x6400000000 4096)
        (Searalized \<lparr>bs_store = 3, bs_flusher = sim_init 8 [], bs_mode = SerializedWrites\<rparr>)
      = Done (Searalized \<lparr>bs_store = 3, bs_flusher = (sim_init 8 [])\<lparr>sim_flight := [e]\<rparr>,
                 bs_mode = SerializedWrites\<rparr>, (demo_buffer 0x6400000000 4096)\<lparr>fb_sqe := Some e\<rparr>)
    \<and> sqe_io_link e \<and> sqe_bytes e = data"
proof -
  have "submittable (demo_buffer 0x6400000000 4096)"
    by (rule demo_submittable) (simp add: unat_state_offset)
  from submit_flush_buffer [OF this, of Debug
      "Searalized \<lparr>bs_store = 3, bs_flusher = sim_init 8 [], bs_mode = SerializedWrites\<rparr>" sim_api]
  show ?thesis
    by (auto simp: demo_buffer_def sim_api_def sim_init_def sim_submit_def quik_ring_def set_ring_def)
qed

section \<open>Reading\<close>

lemma and_not_page:
  "unat (x AND NOT (FOUR_KB_PAGE - 1)) = unat x - unat x mod 4096"
  "unat (x - (x AND NOT (FOUR_KB_PAGE - 1))) = unat x mod 4096"
proof -
  let ?m = "FOUR_KB_PAGE - 1"
  have m: "x AND ?m = take_bit 12 x"
    by (simp add: FOUR_KB_PAGE_def take_bit_eq_mask mask_eq_exp_minus_1)
  have "(x AND ?m) AND (x AND NOT ?m) = 0"
    by (simp add: bit_eq_iff bit_simps)
  then have "(x AND ?m) + (x AND NOT ?m) = (x AND ?m) OR (x AND NOT ?m)"
    by (rule disjunctive_add_eq_or)
  also have "\<dots> = x" by (simp add: bit_eq_iff bit_simps) auto
  finally have sum: "x AND NOT ?m = x - take_bit 12 x" by (simp add: m algebra_simps)
  have low: "unat (take_bit 12 x) = unat x mod 4096"
    by (simp add: take_bit_eq_mod unat_mod)
  then have "take_bit 12 x \<le> x" by (simp add: word_le_nat_alt)
  then show "unat (x AND NOT ?m) = unat x - unat x mod 4096" by (simp add: sum unat_sub low)
  show "unat (x - (x AND NOT ?m)) = unat x mod 4096" by (simp add: sum low)
qed


text \<open>
  What the documentation of the read opcode and of the queues promises for one entry: it is
  accepted, waiting for one completion succeeds, the next completion is not an error, and
  then the memory at the entry's pointer holds the file's bytes (zero past its end).
\<close>

definition serves_read :: "'u uring_api \<Rightarrow> u8 list \<Rightarrow> sqe \<Rightarrow> 'u \<Rightarrow> 'u \<Rightarrow> bool" where
  "serves_read U file e u u' \<longleftrightarrow>
     (case sqe_opcode e of
        ReadOp p n \<Rightarrow>
          (case sq_push U e u of
             None \<Rightarrow> False
           | Some u1 \<Rightarrow>
               (case ring_submit_and_wait U 1 u1 of
                  (Inl _, _) \<Rightarrow> False
                | (Inr _, u2) \<Rightarrow>
                    (case cq_next U (cq_sync U u2) of
                       (None, _) \<Rightarrow> False
                     | (Some c, u3) \<Rightarrow> u3 = u' \<and> 0 \<le> cqe_result c
                         \<and> mem_at U p (unat n) u' = file_window file (unat (sqe_offset e)) (unat n))))
      | _ \<Rightarrow> False)"

lemma set_ring_set [simp]: "set_ring u (set_ring v q) = set_ring u q"
  by (cases q) (simp_all add: set_ring_def)

text \<open>The page-aligned window of a read: its start, its length, and its entry.\<close>

definition window_start :: "u64 \<Rightarrow> nat" where
  "window_start offset = unat offset - unat offset mod 4096"

definition window_len :: "usize \<Rightarrow> u64 \<Rightarrow> nat" where
  "window_len len offset = round_up (unat len + unat offset mod 4096) 4096"

definition read_entry :: "u64 \<Rightarrow> usize \<Rightarrow> u64 \<Rightarrow> 'u QuikIO \<Rightarrow> sqe" where
  "read_entry ptr len offset q =
     \<lparr>sqe_opcode = ReadOp ptr (word_of_nat (window_len len offset)),
      sqe_fd = bs_store (get_backing_store q), sqe_offset = word_of_nat (window_start offset),
      sqe_io_link = False, sqe_io_drain = False, sqe_user_data = 0, sqe_bytes = []\<rparr>"

lemma window_covers:
  assumes "0 < unat len" and "unat len < 2 ^ 32 - 8192"
  shows "4096 dvd window_start offset" "4096 dvd window_len len offset"
    "window_start offset + unat offset mod 4096 = unat offset"
    "unat len + unat offset mod 4096 \<le> window_len len offset"
    "0 < window_len len offset" "window_len len offset < 2 ^ 32"
  using assms round_up_less [of 4096 "unat len + unat offset mod 4096"]
    round_up_ge [of "unat len + unat offset mod 4096" 4096] round_up_dvd [of 4096]
    mod_less_divisor [of 4096 "unat offset"]
  by (auto simp: window_start_def window_len_def)

text \<open>The arithmetic of \<open>read\<close> for a non-empty request below 4 GB, with its queue traffic.\<close>

lemma quik_read_eq:
  assumes "0 < unat len" and "unat len < 2 ^ 32 - 8192"
    and "alloc (word_of_nat (window_len len offset), FOUR_KB_BLOCK) = ptr" and "ptr \<noteq> 0"
  shows "quik_read pf U alloc len offset q =
    (case sq_push U (read_entry ptr len offset q) (quik_ring q) of
       None \<Rightarrow> Done (Inl (Other ''submission queue full''), q)
     | Some u \<Rightarrow>
       (case ring_submit_and_wait U 1 u of
          (Inl e, u1) \<Rightarrow> Done (Inl e, set_ring u1 q)
        | (Inr _, u1) \<Rightarrow>
          (case cq_next U (cq_sync U u1) of
             (None, u2) \<Rightarrow> Done (Inl (Other ''no completion''), set_ring u2 q)
           | (Some c, u2) \<Rightarrow>
             if cqe_result c < 0 then Done (Inl (RawOs (- cqe_result c)), set_ring u2 q)
             else Done (Inr (take (unat len) (drop (unat offset mod 4096)
                    (mem_at U ptr (window_len len offset) u2))), set_ring u2 q))))"
proof -
  let ?n = "window_len len offset" and ?a = "offset AND NOT (FOUR_KB_PAGE - 1)"
  note cover = window_covers [OF assms(1,2), of offset]
  have "?a = word_of_nat (unat ?a)" by simp
  then have a: "?a = word_of_nat (window_start offset)"
    by (simp only: and_not_page(1) window_start_def)
  have d: "unat (offset - ?a) = unat offset mod 4096" by (rule and_not_page(2))
  have sum: "add_usize pf len (offset - ?a) = Done (len + (offset - ?a))"
    using assms(2) d by (intro add_usize_no_overflow) simp
  have usum: "unat (len + (offset - ?a)) = unat len + unat offset mod 4096"
    using assms(2) d by (subst unat_add_no_overflow) simp_all
  have round: "next_multiple_of pf (len + (offset - ?a)) FOUR_KB_PAGE = Done (word_of_nat ?n)"
    using assms(2) usum
    by (subst next_multiple_of_no_overflow) (simp_all add: FOUR_KB_PAGE_def window_len_def)
  have un: "unat (word_of_nat ?n :: usize) = ?n"
    using cover by (intro unat_word_of_nat_usize) simp
  have "FOUR_KB_PAGE = FOUR_KB_BLOCK" by (simp add: FOUR_KB_PAGE_def FOUR_KB_BLOCK_def)
  then have lay: "layout_from_size_align (word_of_nat ?n) FOUR_KB_PAGE = Some (word_of_nat ?n, FOUR_KB_BLOCK)"
    using cover un by (simp only: layout_4k) simp
  have nz: "(word_of_nat ?n :: usize) \<noteq> 0" using un cover(5) by auto
  have cast: "ucast (word_of_nat ?n :: usize) = (word_of_nat ?n :: u32)"
    by (metis un of_nat_unat)
  show ?thesis
    unfolding quik_read_def Let_def sum bind_outcome.simps round lay option.simps fst_conv assms(3) d un cast
    using assms(4) nz by (simp add: read_entry_def a cong: option.case_cong)
qed

lemma quik_read_serves:
  assumes "0 < unat len" and "unat len < 2 ^ 32 - 8192"
    and "alloc (word_of_nat (window_len len offset), FOUR_KB_BLOCK) = ptr" and "ptr \<noteq> 0"
    and "serves_read U contents (read_entry ptr len offset q) (quik_ring q) u'"
  shows "quik_read pf U alloc len offset q
      = Done (Inr (file_window contents (unat offset) (unat len)), set_ring u' q)"
proof -
  let ?n = "window_len len offset" and ?lo = "window_start offset"
  note cover = window_covers [OF assms(1,2), of offset]
  have un: "unat (word_of_nat ?n :: u32) = ?n"
    using cover by (simp add: unsigned_of_nat take_bit_nat_eq_self)
  have ulo: "unat (word_of_nat ?lo :: u64) = ?lo"
    using unsigned_less [of offset, where ?'a = nat]
    by (intro unat_word_of_nat_usize) (simp add: window_start_def less_imp_diff_less)
  have window: "take (unat len) (drop (unat offset mod 4096) (file_window contents ?lo ?n))
      = file_window contents (unat offset) (unat len)"
    using take_drop_file_window [of "unat offset mod 4096" "unat len" ?n contents ?lo] cover(3,4)
    by (simp add: add.commute)
  show ?thesis
    unfolding quik_read_eq [where alloc = alloc and offset = offset, OF assms(1-4)]
    using assms(5) window
    by (auto simp: serves_read_def read_entry_def un ulo split: option.splits prod.splits sum.splits)
qed

text \<open>
  \<open>read\<close> takes the next completion, whoever it belongs to. When the completion queue
  already holds the completion of an earlier write, the read consumes that one: it reports
  success or failure according to the write's result, returns memory the kernel need not
  have filled yet, and the write's completion is gone for the completion handler.
\<close>
lemma quik_read_takes_first_completion:
  assumes "0 < unat len" and "unat len < 2 ^ 32 - 8192"
    and "alloc (word_of_nat (window_len len offset), FOUR_KB_BLOCK) = ptr" and "ptr \<noteq> 0"
    and "sq_push U (read_entry ptr len offset q) (quik_ring q) = Some u1"
    and "ring_submit_and_wait U 1 u1 = (Inr k, u2)"
    and "cq_next U (cq_sync U u2) = (Some c, u3)"
  shows "quik_read pf U alloc len offset q =
     Done (if cqe_result c < 0 then Inl (RawOs (- cqe_result c))
           else Inr (take (unat len) (drop (unat offset mod 4096)
                  (mem_at U ptr (window_len len offset) u3))), set_ring u3 q)"
  unfolding quik_read_eq [where alloc = alloc and offset = offset, OF assms(1-4)] using assms(5-7) by simp

theorem quik_read_takes_first_completion_witness:
  "\<exists>bytes q. quik_read Debug sim_api (\<lambda>_. 8192) 5 7
      (TailLocalized \<lparr>bs_store = 3,
         bs_flusher = (sim_init 8 [])\<lparr>sim_cq := [\<lparr>cqe_user_data = 64, cqe_result = 4096\<rparr>]\<rparr>,
         bs_mode = TailLocalizedWrites\<rparr>)
    = Done (Inr bytes, q)
    \<and> map cqe_user_data (sim_cq (quik_ring q)) = [0]"
proof -
  let ?c = "\<lparr>cqe_user_data = 64, cqe_result = 4096\<rparr>"
  let ?s = "(sim_init 8 [])\<lparr>sim_cq := [?c]\<rparr>"
  let ?q = "TailLocalized \<lparr>bs_store = 3, bs_flusher = ?s, bs_mode = TailLocalizedWrites\<rparr>"
  let ?e = "read_entry 8192 5 7 ?q"
  let ?u2 = "sim_complete (snd (sim_submit (?s\<lparr>sim_sq := [?e]\<rparr>)))"
  have 1: "sq_push sim_api ?e (quik_ring ?q) = Some (?s\<lparr>sim_sq := [?e]\<rparr>)"
    by (simp add: sim_api_def sim_init_def quik_ring_def)
  have 2: "ring_submit_and_wait sim_api 1 (?s\<lparr>sim_sq := [?e]\<rparr>) = (Inr 1, ?u2)"
    by (simp add: sim_api_def sim_submit_def)
  have cq: "map cqe_user_data (sim_cq ?u2) = [64, 0] \<and> hd (sim_cq ?u2) = ?c"
    by (simp add: sim_complete_def sim_submit_def sim_init_def sim_exec_def read_entry_def)
  then obtain c' where c': "sim_cq ?u2 = [?c, c']" "cqe_user_data c' = 0"
    by (cases "sim_cq ?u2") auto
  have 3: "cq_next sim_api (cq_sync sim_api ?u2) = (Some ?c, ?u2\<lparr>sim_cq := [c']\<rparr>)"
    using c'(1) by (simp add: sim_api_def)
  show ?thesis
    using quik_read_takes_first_completion [OF _ _ _ _ 1 2 3, of "\<lambda>_. 8192" Debug] c'(2)
    by simp
qed

text \<open>
  A kernel that serves every read of the file \<open>contents\<close> from an idle instance, and leaves it
  idle.
\<close>

definition serves_reads :: "'u uring_api \<Rightarrow> u8 list \<Rightarrow> ('u \<Rightarrow> bool) \<Rightarrow> bool" where
  "serves_reads U contents idle \<longleftrightarrow>
     (\<forall>u e p n. idle u \<and> sqe_opcode e = ReadOp p n \<longrightarrow> (\<exists>u'. serves_read U contents e u u' \<and> idle u'))"

definition range_ok :: "u64 \<times> usize \<Rightarrow> bool" where
  "range_ok r \<longleftrightarrow> 0 < unat (snd r) \<and> unat (snd r) < 2 ^ 32 - 8192"

lemma idle_read:
  assumes "serves_reads U contents idle" and "idle (quik_ring q)" and "range_ok (off, n)"
    and "\<And>l. alloc l \<noteq> 0"
  obtains u' where "quik_read pf U alloc n off q
      = Done (Inr (file_window contents (unat off) (unat n)), set_ring u' q)" and "idle u'"
proof -
  let ?p = "alloc (word_of_nat (window_len n off), FOUR_KB_BLOCK)"
  have "sqe_opcode (read_entry ?p n off q) = ReadOp ?p (word_of_nat (window_len n off))" by (simp add: read_entry_def)
  then obtain u' where u': "serves_read U contents (read_entry ?p n off q) (quik_ring q) u'" "idle u'"
    using assms(1,2) unfolding serves_reads_def by blast
  show ?thesis
    using that quik_read_serves [OF _ _ _ _ u'(1), where alloc = alloc] u'(2) assms(3,4)
    by (simp add: range_ok_def)
qed

text \<open>An instance that completes its entries when they are submitted.\<close>

abbreviation eager_api :: "sim uring_api" where
  "eager_api \<equiv> sim_api\<lparr>ring_submit := \<lambda>s. apsnd sim_complete (sim_submit s)\<rparr>"

abbreviation sim_idle :: "u8 list \<Rightarrow> sim \<Rightarrow> bool" where
  "sim_idle contents \<equiv>
     \<lambda>s. sim_sq s = [] \<and> sim_cq s = [] \<and> sim_flight s = [] \<and> 0 < sim_cap s \<and> sim_file s = contents"

lemma eager_serves_reads: "serves_reads eager_api contents (sim_idle contents)"
  by (auto simp: serves_reads_def serves_read_def sim_api_def sim_submit_def sim_complete_def sim_exec_def)

section \<open>A page written by hand\<close>

text \<open>A buffer of one megabyte that is filled with one page from its start and submitted.\<close>

lemma page_by_hand:
  fixes q :: "'u QuikIO"
  assumes "fb_state b = 0" and "length data = 4096" and "length (buf_mem (fb_buf b)) = 1048576"
    and "b' = b\<lparr>fb_state := 4096 * OFFSET_ONE, fb_buf := (fb_buf b)\<lparr>buf_mem := blit 0 data (buf_mem (fb_buf b))\<rparr>\<rparr>"
    and "e = write_entry (buf_ptr (fb_buf b), data) (fb_local_address b) (fb_addr b) (get_backing_store q)"
  shows "increment_offset pf (word_of_nat (length data)) b = Done (Inr 0, b\<lparr>fb_state := 4096 * OFFSET_ONE\<rparr>)"
    and "write_buffer 0 data (b\<lparr>fb_state := 4096 * OFFSET_ONE\<rparr>) = Done b'"
    and "submit_buffer U (flush_buffer_methods pf) b' q = Done (case sq_push U e (quik_ring q) of
        None \<Rightarrow> (q, b') | Some u \<Rightarrow> (set_ring (snd (ring_submit U u)) q, b'\<lparr>fb_sqe := Some e\<rparr>))"
proof -
  show "increment_offset pf (word_of_nat (length data)) b = Done (Inr 0, b\<lparr>fb_state := 4096 * OFFSET_ONE\<rparr>)"
    by (simp add: assms(1,2) increment_offset_def Let_def add_usize_def mul_usize_def ONE_MEGABYTE_BLOCK_def
        OFFSET_ONE_def OFFSET_SHIFT_def state_offset_def)
  show "write_buffer 0 data (b\<lparr>fb_state := 4096 * OFFSET_ONE\<rparr>) = Done b'"
    by (simp add: assms write_buffer_def copy_into_def)
  have off: "unat (state_offset (4096 * OFFSET_ONE)) = 4096"
    by (simp add: unat_state_offset OFFSET_ONE_def OFFSET_SHIFT_def)
  have "fb_buffer_data pf b' = Done (buf_ptr (fb_buf b), data)"
    by (simp add: assms fb_buffer_data_eq Let_def off round_up_def blit_def)
  then show "submit_buffer U (flush_buffer_methods pf) b' q = Done (case sq_push U e (quik_ring q) of
      None \<Rightarrow> (q, b') | Some u \<Rightarrow> (set_ring (snd (ring_submit U u)) q, b'\<lparr>fb_sqe := Some e\<rparr>))"
    by (simp add: submit_buffer_def submit_buffer_raw_eq Let_def assms(4,5) split: option.split)
qed

section \<open>Draining the completion queue\<close>

text \<open>The completions a queue state delivers, in order, until it is empty.\<close>

inductive delivers :: "'u uring_api \<Rightarrow> 'u \<Rightarrow> cqe list \<Rightarrow> 'u \<Rightarrow> bool" for U where
  delivers_none: "cq_next U u = (None, u') \<Longrightarrow> delivers U u [] u'"
| delivers_some: "cq_next U u = (Some c, u') \<Longrightarrow> delivers U u' cs u'' \<Longrightarrow> delivers U u (c # cs) u''"

lemma drain_cq_delivers:
  "delivers U u cs u' \<Longrightarrow> drain_cq U acc u = Some (acc @ cs, u')"
proof (induction arbitrary: acc rule: delivers.induct)
  case (delivers_none u u')
  then show ?case by (subst drain_cq.simps) simp
next
  case (delivers_some u c u' cs u'')
  then show ?case by (subst drain_cq.simps) simp
qed

lemma quik_cqe_delivers:
  "delivers U (cq_sync U (cq_sync U (quik_ring q))) cs u' \<Longrightarrow> quik_cqe U q = Some (cs, set_ring u' q)"
  by (simp add: quik_cqe_def drain_cq_delivers)

text \<open>
  \<open>wait_for_all\<close> looks at the two queues only. It drains the visible completions and
  drops them, with the buffers they name; the first negative result becomes the error it
  returns; otherwise, as soon as both queues are empty it reports that everything
  completed, whatever writes the kernel still has in flight, and else it goes round again.
\<close>
lemma wait_for_all_round:
  assumes "delivers U (cq_sync U (cq_sync U (quik_ring q))) cs u'"
  shows "wait_for_all U q =
    (case find (\<lambda>c. cqe_result c < 0) cs of
       Some c \<Rightarrow> Some (Inl (RawOs (- cqe_result c)), set_ring u' q)
     | None \<Rightarrow> if sq_len U u' = 0 \<and> cq_len U (cq_sync U u') = 0
              then Some (Inr (), set_ring (cq_sync U u') q)
              else wait_for_all U (set_ring (cq_sync U u') q))"
  by (subst wait_for_all.simps) (simp add: quik_cqe_delivers [OF assms] cong: option.case_cong)

text \<open>The witness has a write in flight, which \<open>wait_for_all\<close> leaves in flight.\<close>

theorem wait_for_all_round_witness:
  "\<exists>q'. wait_for_all sim_api (TailLocalized \<lparr>bs_store = 3,
       bs_flusher = (sim_init 8 [])\<lparr>sim_flight := [demo_entry], sim_cq := [\<lparr>cqe_user_data = 64, cqe_result = 4096\<rparr>]\<rparr>,
       bs_mode = TailLocalizedWrites\<rparr>) = Some (Inr (), q')
     \<and> sim_flight (quik_ring q') = [demo_entry] \<and> sim_cq (quik_ring q') = []"
proof -
  let ?c = "\<lparr>cqe_user_data = 64, cqe_result = 4096\<rparr>"
  let ?s = "(sim_init 8 [])\<lparr>sim_flight := [demo_entry], sim_cq := [?c]\<rparr>"
  let ?q = "TailLocalized \<lparr>bs_store = 3, bs_flusher = ?s, bs_mode = TailLocalizedWrites\<rparr>"
  have "delivers sim_api (cq_sync sim_api (cq_sync sim_api (quik_ring ?q))) [?c] (?s\<lparr>sim_cq := []\<rparr>)"
    by (rule delivers_some [where u' = "?s\<lparr>sim_cq := []\<rparr>", OF _ delivers_none])
      (simp_all add: sim_api_def quik_ring_def)
  from wait_for_all_round [OF this] show ?thesis
    by (simp add: sim_api_def sim_init_def)
qed

end
