(* ===== verification/Buffer_Ring.thy ===== *)
theory Buffer_Ring
  imports Quik_IO
begin

text \<open>
  The ring of flush buffers of \<^verbatim>\<open>src/src/ring.rs\<close>: \<open>BufferRingOptions\<close>, \<open>BufferRing\<close>
  and every method of them. A method is a function on the \<open>BufferRing\<close> record; the
  buffers are the list \<open>br_ring\<close>, and a \<open>&FlushBuffer\<close> into the ring is an index of that
  list. The functions here run each method without interference from other threads; the
  interleavings of the methods' atomic accesses are the subject of theory
  \<open>Buffer_Protocol\<close>.
\<close>

section \<open>Options\<close>

text \<open>
  The completion channel is the list of the messages sent through it; \<open>None\<close> when no
  receiver was attached.
\<close>

record 'u BufferRingOptions =
  opt_capacity :: usize
  opt_buffer_size :: usize
  opt_io_instance :: "'u QuikIO option"
  opt_auto_flush :: bool
  opt_auto_rotate :: bool
  opt_cq_tx :: "(u64 \<times> usize) list option"

definition options_new :: "'u BufferRingOptions" where
  "options_new =
     \<lparr>opt_capacity = 0, opt_buffer_size = 0, opt_io_instance = None,
      opt_auto_flush = True, opt_auto_rotate = True, opt_cq_tx = None\<rparr>"

definition set_capacity :: "usize \<Rightarrow> 'u BufferRingOptions \<Rightarrow> 'u BufferRingOptions" where
  "set_capacity cap opts = opts\<lparr>opt_capacity := cap\<rparr>"

definition set_buffer_size ::
  "profile \<Rightarrow> usize \<Rightarrow> 'u BufferRingOptions \<Rightarrow> 'u BufferRingOptions outcome" where
  "set_buffer_size pf buffer_size opts =
     bind_outcome (next_multiple_of pf buffer_size buffer_size) (\<lambda>sz.
       Done (opts\<lparr>opt_buffer_size := sz\<rparr>))"

definition set_io_instance :: "'u QuikIO \<Rightarrow> 'u BufferRingOptions \<Rightarrow> 'u BufferRingOptions" where
  "set_io_instance io opts = opts\<lparr>opt_io_instance := Some io\<rparr>"

definition set_auto_flush :: "bool \<Rightarrow> 'u BufferRingOptions \<Rightarrow> 'u BufferRingOptions" where
  "set_auto_flush enabled opts = opts\<lparr>opt_auto_flush := enabled\<rparr>"

definition set_auto_rotate :: "bool \<Rightarrow> 'u BufferRingOptions \<Rightarrow> 'u BufferRingOptions" where
  "set_auto_rotate enabled opts = opts\<lparr>opt_auto_rotate := enabled\<rparr>"

definition completion_receiver :: "'u BufferRingOptions \<Rightarrow> 'u BufferRingOptions" where
  "completion_receiver opts = opts\<lparr>opt_cq_tx := Some []\<rparr>"

section \<open>The ring\<close>

text \<open>
  \<open>br_current\<close> is the \<open>current_buffer\<close> pointer, \<open>None\<close> being null and \<open>Some i\<close> a
  pointer to buffer \<open>i\<close>.
\<close>

record 'u BufferRing =
  br_current :: "nat option"
  br_ring :: "FlushBuffer list"
  br_next_index :: usize
  br_next_address_range :: usize
  br_store :: "'u QuikIO option"
  br_auto_flush :: bool
  br_auto_rotate :: bool
  br_size :: usize
  br_cq_tx :: "(u64 \<times> usize) list option"

text \<open>
  Buffer \<open>i\<close> is allocated by the \<open>i\<close>-th call of the allocator, \<open>alloc i\<close>, and pinned at
  \<open>place i\<close>.
\<close>

fun new_buffers ::
  "(nat \<Rightarrow> layout \<Rightarrow> u64) \<Rightarrow> (nat \<Rightarrow> u64) \<Rightarrow> usize \<Rightarrow> nat \<Rightarrow> nat \<Rightarrow> FlushBuffer list outcome" where
  "new_buffers alloc place sz i 0 = Done []"
| "new_buffers alloc place sz i (Suc n) =
     bind_outcome (new_buffer (alloc i) (place i) (word_of_nat i) sz) (\<lambda>b.
     bind_outcome (new_buffers alloc place sz (Suc i) n) (\<lambda>bs. Done (b # bs)))"

text \<open>\<open>with_options\<close> takes the dispatcher and the channel out of the options.\<close>

definition with_options ::
  "(nat \<Rightarrow> layout \<Rightarrow> u64) \<Rightarrow> (nat \<Rightarrow> u64) \<Rightarrow> 'u BufferRingOptions
     \<Rightarrow> ('u BufferRing \<times> 'u BufferRingOptions) outcome" where
  "with_options alloc place opts =
     bind_outcome (new_buffers alloc place (opt_buffer_size opts) 0 (unat (opt_capacity opts))) (\<lambda>buffers.
       if buffers = [] then Panic
       else Done
         (\<lparr>br_current = Some 0, br_ring = buffers, br_next_index = 1,
           br_next_address_range = 0, br_store = opt_io_instance opts,
           br_auto_flush = opt_auto_flush opts, br_auto_rotate = opt_auto_rotate opts,
           br_size = opt_capacity opts, br_cq_tx = opt_cq_tx opts\<rparr>,
          opts\<lparr>opt_io_instance := None, opt_cq_tx := None\<rparr>))"

text \<open>An update of buffer \<open>i\<close> in place.\<close>

definition on_buffer :: "nat \<Rightarrow> (FlushBuffer \<Rightarrow> FlushBuffer) \<Rightarrow> 'u BufferRing \<Rightarrow> 'u BufferRing" where
  "on_buffer i f r = r\<lparr>br_ring := (br_ring r)[i := f (br_ring r ! i)]\<rparr>"

definition next_address :: "'u BufferRing \<Rightarrow> usize" where
  "next_address r = br_next_address_range r"

definition incrment_address :: "usize \<Rightarrow> 'u BufferRing \<Rightarrow> usize \<times> 'u BufferRing" where
  "incrment_address val r =
     (br_next_address_range r, r\<lparr>br_next_address_range := br_next_address_range r + val\<rparr>)"

definition reserve_buf_addr :: "nat \<Rightarrow> usize \<Rightarrow> 'u BufferRing \<Rightarrow> 'u BufferRing" where
  "reserve_buf_addr i sz r =
     (case incrment_address sz r of (slot, r1) \<Rightarrow>
        if fb_local_address (br_ring r1 ! i) = 0
        then on_buffer i (\<lambda>b. b\<lparr>fb_local_address := slot\<rparr>) r1 else r1)"

definition current_buffer :: "'u BufferRing \<Rightarrow> nat outcome" where
  "current_buffer r = (case br_current r of None \<Rightarrow> Panic | Some i \<Rightarrow> Done i)"

definition ring_size :: "'u BufferRing \<Rightarrow> usize" where
  "ring_size r = br_size r"

definition reset_buffer :: "nat \<Rightarrow> 'u BufferRing \<Rightarrow> 'u BufferRing" where
  "reset_buffer i r =
     on_buffer i (\<lambda>b. b\<lparr>fb_local_address := 0\<rparr>) (on_buffer i (\<lambda>b. b\<lparr>fb_state := 0\<rparr>) r)"

subsection \<open>Rotation\<close>

text \<open>
  The scan of \<open>rotate_after_seal\<close>: at most \<open>n\<close> more candidates, taken from \<open>next_index\<close>.
  \<open>current\<close> is the pointer loaded at the start, so the exchange succeeds exactly when
  nobody has moved it.
\<close>

fun rotate_scan :: "nat \<Rightarrow> nat \<Rightarrow> usize \<Rightarrow> 'u BufferRing \<Rightarrow> (BufferError + unit) \<times> 'u BufferRing" where
  "rotate_scan 0 current current_size r = (Inl RingExhausted, r)"
| "rotate_scan (Suc n) current current_size r =
     (let raw = br_next_index r;
          r1 = r\<lparr>br_next_index := raw + 1\<rparr>;
          next_index = unat (raw mod word_of_nat (length (br_ring r)))
      in if is_available (br_ring r1 ! next_index)
         then let r2 = (if br_current r1 = Some current then r1\<lparr>br_current := Some next_index\<rparr> else r1)
              in (Inr (), reserve_buf_addr next_index current_size r2)
         else rotate_scan n current current_size r1)"

definition rotate_after_seal :: "usize \<Rightarrow> 'u BufferRing \<Rightarrow> (BufferError + unit) \<times> 'u BufferRing" where
  "rotate_after_seal sealed_pos r =
     (case br_current r of
        None \<Rightarrow> (Inl InvalidState, r)
      | Some current \<Rightarrow>
          let current_ref = br_ring r ! current; current_size = buffer_len current_ref in
          if fb_pos current_ref \<noteq> sealed_pos then (Inr (), r)
          else rotate_scan (length (br_ring r)) current current_size r)"

subsection \<open>Flushing\<close>

definition flush ::
  "profile \<Rightarrow> 'u uring_api \<Rightarrow> nat \<Rightarrow> 'u BufferRing \<Rightarrow> 'u BufferRing outcome" where
  "flush pf U i r =
     (let r1 = on_buffer i (\<lambda>b. snd (set_flush_in_progress b)) r in
      case br_store r1 of
        Some store \<Rightarrow>
          bind_outcome (submit_buffer U (flush_buffer_methods pf) (br_ring r1 ! i) store) (\<lambda>(store', b).
            Done ((on_buffer i (\<lambda>_. b) r1)\<lparr>br_store := Some store'\<rparr>))
      | None \<Rightarrow> Done (reset_buffer i r1))"

text \<open>
  \<open>f_sync\<close> can fail to return (\<open>None\<close>), because \<open>wait_for_all\<close> loops until the queues are
  empty; the \<open>expect\<close> on \<open>sync_data\<close> panics.
\<close>

definition f_sync ::
  "profile \<Rightarrow> 'u uring_api \<Rightarrow> nat \<Rightarrow> 'u BufferRing \<Rightarrow> 'u BufferRing outcome option" where
  "f_sync pf U i r =
     (let r1 = on_buffer i (\<lambda>b. snd (set_flush_in_progress b)) r in
      case br_store r1 of
        Some store \<Rightarrow>
          (case submit_buffer U (flush_buffer_methods pf) (br_ring r1 ! i) store of
             Panic \<Rightarrow> Some Panic
           | Undefined \<Rightarrow> Some Undefined
           | Done (store1, b) \<Rightarrow>
               (case wait_for_all U store1 of
                  None \<Rightarrow> None
                | Some (_, store2) \<Rightarrow>
                    (case sync_data U store2 of
                       (Inl _, _) \<Rightarrow> Some Panic
                     | (Inr _, store3) \<Rightarrow>
                         Some (Done (reset_buffer i
                           ((on_buffer i (\<lambda>_. b) r1)\<lparr>br_store := Some store3\<rparr>))))))
      | None \<Rightarrow> Some (Done (reset_buffer i r1)))"

definition flush_current ::
  "profile \<Rightarrow> 'u uring_api \<Rightarrow> 'u BufferRing \<Rightarrow> ((BufferError + unit) \<times> 'u BufferRing) outcome" where
  "flush_current pf U r =
     (case br_current r of
        None \<Rightarrow> Done (Inl InvalidState, r)
      | Some i \<Rightarrow>
          if buffer_len (br_ring r ! i) = 0 then Done (Inr (), r)
          else
            let r1 = on_buffer i (\<lambda>b. snd (seal b)) r;
                actual_len = buffer_len (br_ring r1 ! i);
                (slot, r2) = incrment_address actual_len r1;
                r3 = on_buffer i (\<lambda>b. b\<lparr>fb_local_address := slot\<rparr>) r2
            in bind_outcome (flush pf U i r3) (\<lambda>r4.
                 Done (Inr (), snd (rotate_after_seal (fb_pos (br_ring r4 ! i)) r4))))"

subsection \<open>Writing\<close>

text \<open>
  The tail both paths of \<open>put\<close> share once a thread owns the flush: submission through
  \<open>flush\<close> when a store is present and \<open>auto_flush\<close> is set, and otherwise an immediate
  reset. The flushed buffer is looked up again by its position.
\<close>

definition dispatch ::
  "profile \<Rightarrow> 'u uring_api \<Rightarrow> nat \<Rightarrow> 'u BufferRing \<Rightarrow> 'u BufferRing outcome" where
  "dispatch pf U i r =
     (if br_store r \<noteq> None \<and> br_auto_flush r
      then let pos = unat (fb_pos (br_ring r ! i)) in
        if pos < length (br_ring r) then flush pf U pos r else Panic
      else Done (reset_buffer i r))"

definition put ::
  "profile \<Rightarrow> 'u uring_api \<Rightarrow> nat \<Rightarrow> BufferError + usize \<Rightarrow> u8 list \<Rightarrow> 'u BufferRing
     \<Rightarrow> ((BufferError + BufferMsg) \<times> 'u BufferRing) outcome" where
  "put pf U i reserve_result payload r =
     (case reserve_result of
        Inl InsufficientSpace \<Rightarrow>
          let prev = fb_state (br_ring r ! i);
              r1 = on_buffer i (\<lambda>b. b\<lparr>fb_state := fb_state b OR SEALED_BIT\<rparr>) r
          in if prev AND SEALED_BIT \<noteq> 0 then Done (Inl EncounteredSealedBuffer, r1)
          else bind_outcome (next_multiple_of pf (buffer_len (br_ring r1 ! i)) FOUR_KB_BLOCK) (\<lambda>padded.
            let (slot, r2) = incrment_address padded r1;
                r3 = on_buffer i (\<lambda>b. b\<lparr>fb_local_address := slot\<rparr>) r2;
                r4 = (if br_auto_rotate r3
                      then snd (rotate_after_seal (fb_pos (br_ring r3 ! i)) r3) else r3);
                state_now = fb_state (br_ring r4 ! i)
            in if state_writers state_now = 0
               then let (before, b) = set_flush_in_progress (br_ring r4 ! i);
                        r5 = on_buffer i (\<lambda>_. b) r4
                    in if before AND FLUSH_IN_PROGRESS_BIT = 0
                       then bind_outcome (dispatch pf U i r5) (\<lambda>r6.
                              Done (Inr SuccessfullWriteFlush, r6))
                       else Done (Inl EncounteredSealedBuffer, r5)
               else Done (Inl EncounteredSealedBuffer, r4))
      | Inl e \<Rightarrow> Done (Inl e, r)
      | Inr offset \<Rightarrow>
          bind_outcome (write_buffer offset payload (br_ring r ! i)) (\<lambda>b1.
            let (prev, b2) = decrement_writers b1;
                r1 = on_buffer i (\<lambda>_. b2) r;
                was_last_writer = (state_writers prev = 1);
                was_sealed = state_sealed prev
            in if was_last_writer \<and> was_sealed
               then let (prev2, b3) = set_flush_in_progress (br_ring r1 ! i);
                        r2 = on_buffer i (\<lambda>_. b3) r1
                    in if prev2 AND FLUSH_IN_PROGRESS_BIT = 0
                       then bind_outcome (dispatch pf U i r2) (\<lambda>r3.
                              Done (Inr SuccessfullWriteFlush, r3))
                       else Done (Inr SuccessfullWrite, r2)
               else Done (Inr SuccessfullWrite, r1)))"

subsection \<open>Completions\<close>

text \<open>
  The user data of a completion is dereferenced as a \<open>FlushBuffer\<close>; a value that is not
  the address of a buffer of the ring is outside the contract (\<open>Undefined\<close>).
\<close>

definition find_buffer :: "u64 \<Rightarrow> FlushBuffer list \<Rightarrow> nat option" where
  "find_buffer ptr bs = find (\<lambda>i. fb_addr (bs ! i) = ptr) [0..<length bs]"

definition handle_cqe :: "'u uring_api \<Rightarrow> cqe \<Rightarrow> 'u BufferRing \<Rightarrow> 'u BufferRing outcome" where
  "handle_cqe U c r =
     (if cqe_user_data c = 0 then Done r
      else case find_buffer (cqe_user_data c) (br_ring r) of
        None \<Rightarrow> Undefined
      | Some i \<Rightarrow>
          let buffer = br_ring r ! i in
          if cqe_result c < 0
          then (case (fb_sqe buffer, br_store r) of
                  (Some e, Some store) \<Rightarrow>
                    let u = quik_ring store;
                        u1 = (case sq_push U e u of None \<Rightarrow> u | Some u' \<Rightarrow> u')
                    in Done (r\<lparr>br_store := Some (set_ring (snd (ring_submit U u1)) store)\<rparr>)
                | _ \<Rightarrow> Done r)
          else
            let r1 = (case br_cq_tx r of
                        None \<Rightarrow> r
                      | Some sent \<Rightarrow>
                          r\<lparr>br_cq_tx := Some (sent @ [(local_address buffer, buffer_len buffer)])\<rparr>)
            in Done (reset_buffer i r1))"

fun handle_cqes :: "'u uring_api \<Rightarrow> cqe list \<Rightarrow> 'u BufferRing \<Rightarrow> 'u BufferRing outcome" where
  "handle_cqes U [] r = Done r"
| "handle_cqes U (c # cs) r = bind_outcome (handle_cqe U c r) (handle_cqes U cs)"

partial_function (option) check_cque ::
  "'u uring_api \<Rightarrow> 'u BufferRing \<Rightarrow> ((string + unit) \<times> 'u BufferRing) outcome option" where
  "check_cque U r =
     (case br_store r of
        None \<Rightarrow> Some (Done (Inl ''Store not present'', r))
      | Some store \<Rightarrow>
          Option.bind (quik_cqe U store) (\<lambda>(cqes, store').
            let r1 = r\<lparr>br_store := Some store'\<rparr> in
            if cqes = [] then Some (Done (Inr (), r1))
            else case handle_cqes U cqes r1 of
              Done r2 \<Rightarrow> check_cque U r2
            | Panic \<Rightarrow> Some Panic
            | Undefined \<Rightarrow> Some Undefined))"

end
