(* ===== verification/Ring_Invariant.thy ===== *)
theory Ring_Invariant
  imports Buffer_Ring
begin

text \<open>
  The lemmas the properties of the ring rest on: frame lemmas of the single updates, the
  well-formed rings, the construction of a ring, the scan of the rotation in closed form,
  the two paths of \<open>put\<close> in closed form, and the preservation of well-formedness by
  every method.
\<close>

section \<open>Frame lemmas\<close>

lemma on_buffer_sel [simp]:
  "length (br_ring (on_buffer i f r)) = length (br_ring r)"
  "br_current (on_buffer i f r) = br_current r" "br_next_index (on_buffer i f r) = br_next_index r"
  "br_next_address_range (on_buffer i f r) = br_next_address_range r"
  "br_store (on_buffer i f r) = br_store r" "br_auto_flush (on_buffer i f r) = br_auto_flush r"
  "br_auto_rotate (on_buffer i f r) = br_auto_rotate r" "br_size (on_buffer i f r) = br_size r"
  "br_cq_tx (on_buffer i f r) = br_cq_tx r"
  by (simp_all add: on_buffer_def)

lemma on_buffer_nth:
  "j < length (br_ring r) \<Longrightarrow>
   br_ring (on_buffer i f r) ! j = (if j = i then f (br_ring r ! i) else br_ring r ! j)"
  by (auto simp: on_buffer_def nth_list_update)

lemma map_on_buffer:
  "(\<And>b. f (g b) = f b) \<Longrightarrow> map f (br_ring (on_buffer i g r)) = map f (br_ring r)"
  by (cases "i < length (br_ring r)") (simp_all add: on_buffer_def map_update list_update_same_conv list_update_beyond)

lemma on_buffer_same [simp]:
  "i < length (br_ring r) \<Longrightarrow> br_ring (on_buffer i f r) ! i = f (br_ring r ! i)"
  by (simp add: on_buffer_nth)

lemma on_buffer_on_buffer [simp]:
  "i < length (br_ring r) \<Longrightarrow> on_buffer i f (on_buffer i g r) = on_buffer i (\<lambda>b. f (g b)) r"
  by (simp add: on_buffer_def)

lemma incrment_address_eq [simp]:
  "incrment_address v r = (br_next_address_range r, r\<lparr>br_next_address_range := br_next_address_range r + v\<rparr>)"
  by (simp add: incrment_address_def)

lemma reset_buffer_eq:
  "i < length (br_ring r) \<Longrightarrow> reset_buffer i r = on_buffer i (\<lambda>b. b\<lparr>fb_state := 0, fb_local_address := 0\<rparr>) r"
  by (simp add: reset_buffer_def)

text \<open>The well-formed rings: what \<open>with_options\<close> sets up and no method gives up.\<close>

definition buffer_ok :: "nat \<Rightarrow> FlushBuffer \<Rightarrow> bool" where
  "buffer_ok i b \<longleftrightarrow> fb_pos b = word_of_nat i \<and> buffer_wf (fb_buf b)"

definition ring_ok :: "'u BufferRing \<Rightarrow> bool" where
  "ring_ok r \<longleftrightarrow> length (br_ring r) = unat (br_size r)
     \<and> (\<exists>c < length (br_ring r). br_current r = Some c)
     \<and> (\<forall>i < length (br_ring r). buffer_ok i (br_ring r ! i))"

lemma ring_ok_pos: "ring_ok r \<Longrightarrow> i < length (br_ring r) \<Longrightarrow> unat (fb_pos (br_ring r ! i)) = i"
  using unsigned_less [of "br_size r", where ?'a = nat]
  by (auto simp: ring_ok_def buffer_ok_def intro!: unat_word_of_nat_usize)

lemma ring_ok_current: "ring_ok r \<Longrightarrow> \<exists>c < length (br_ring r). br_current r = Some c"
  unfolding ring_ok_def by blast

lemma ring_ok_nonempty: "ring_ok r \<Longrightarrow> 0 < length (br_ring r)"
  by (auto simp: ring_ok_def)

lemma ring_ok_update [intro]:
  assumes "ring_ok r" and "\<And>b. buffer_ok i b \<Longrightarrow> buffer_ok i (f b)"
  shows "ring_ok (on_buffer i f r)"
  using assms by (auto simp: ring_ok_def on_buffer_nth)

lemma ring_ok_fields [simp]:
  "ring_ok (r\<lparr>br_next_index := a\<rparr>) = ring_ok r"
  "ring_ok (r\<lparr>br_next_address_range := a\<rparr>) = ring_ok r"
  "ring_ok (r\<lparr>br_store := st\<rparr>) = ring_ok r"
  "ring_ok (r\<lparr>br_cq_tx := tx\<rparr>) = ring_ok r"
  by (simp_all add: ring_ok_def)

lemma buffer_ok_fields [simp]:
  "buffer_ok i (b\<lparr>fb_state := w\<rparr>) = buffer_ok i b"
  "buffer_ok i (b\<lparr>fb_local_address := a\<rparr>) = buffer_ok i b"
  "buffer_ok i (b\<lparr>fb_sqe := e\<rparr>) = buffer_ok i b"
  by (simp_all add: buffer_ok_def)

text \<open>A small ring for witnesses: one buffer per given state word.\<close>

definition demo_ring :: "usize list \<Rightarrow> nat \<Rightarrow> 'u QuikIO option \<Rightarrow> bool \<Rightarrow> 'u BufferRing" where
  "demo_ring ws len store auto =
     \<lparr>br_current = Some 0,
      br_ring = map (\<lambda>(i, w). (demo_buffer w len)\<lparr>fb_pos := word_of_nat i, fb_addr := word_of_nat (64 * (i + 1))\<rparr>)
                  (enumerate 0 ws),
      br_next_index = 1, br_next_address_range = 0, br_store = store, br_auto_flush = auto,
      br_auto_rotate = True, br_size = word_of_nat (length ws), br_cq_tx = Some []\<rparr>"

lemma demo_ring_sel [simp]:
  "br_current (demo_ring ws len store auto) = Some 0" "br_next_index (demo_ring ws len store auto) = 1"
  "br_next_address_range (demo_ring ws len store auto) = 0" "br_store (demo_ring ws len store auto) = store"
  "br_auto_flush (demo_ring ws len store auto) = auto" "br_auto_rotate (demo_ring ws len store auto)"
  "length (br_ring (demo_ring ws len store auto)) = length ws"
  by (simp_all add: demo_ring_def)

lemma demo_ring_nth [simp]:
  "i < length ws \<Longrightarrow> br_ring (demo_ring ws len store auto) ! i
    = (demo_buffer (ws ! i) len)\<lparr>fb_pos := word_of_nat i, fb_addr := word_of_nat (64 * (i + 1))\<rparr>"
  by (simp add: demo_ring_def nth_enumerate_eq)

lemma demo_ring_ok:
  "ws \<noteq> [] \<Longrightarrow> length ws < 2 ^ 64 \<Longrightarrow> 0 < len \<Longrightarrow> len \<le> 2 ^ 63 - 4096 \<Longrightarrow> ring_ok (demo_ring ws len store auto)"
  using demo_buffer_wf [of len]
  by (simp add: ring_ok_def buffer_ok_def) (simp add: demo_ring_def unat_word_of_nat_usize)

section \<open>Construction\<close>

lemma new_buffers_Done:
  assumes "0 < unat sz" and "unat sz \<le> 2 ^ 63 - 4096" and "\<And>j l. alloc j l \<noteq> 0"
  shows "\<exists>bs. new_buffers alloc place sz i n = Done bs \<and> length bs = n
    \<and> (\<forall>k < n. bs ! k = \<lparr>fb_state = 0,
          fb_buf = \<lparr>buf_ptr = alloc (i + k) (sz, FOUR_KB_BLOCK), buf_mem = replicate (unat sz) 0, buf_size = sz\<rparr>,
          fb_pos = word_of_nat (i + k), fb_local_address = 0, fb_sqe = None, fb_addr = place (i + k)\<rparr>)"
proof (induction n arbitrary: i)
  case 0
  then show ?case by simp
next
  case (Suc n)
  have b: "new_buffer (alloc i) (place i) (word_of_nat i) sz = Done \<lparr>fb_state = 0,
      fb_buf = \<lparr>buf_ptr = alloc i (sz, FOUR_KB_BLOCK), buf_mem = replicate (unat sz) 0, buf_size = sz\<rparr>,
      fb_pos = word_of_nat i, fb_local_address = 0, fb_sqe = None, fb_addr = place i\<rparr>"
    using assms by (simp add: new_buffer_def new_aligned_Done)
  obtain bs where bs: "new_buffers alloc place sz (Suc i) n = Done bs" "length bs = n"
    "\<forall>k < n. bs ! k = \<lparr>fb_state = 0,
        fb_buf = \<lparr>buf_ptr = alloc (Suc i + k) (sz, FOUR_KB_BLOCK), buf_mem = replicate (unat sz) 0, buf_size = sz\<rparr>,
        fb_pos = word_of_nat (Suc i + k), fb_local_address = 0, fb_sqe = None, fb_addr = place (Suc i + k)\<rparr>"
    using Suc.IH [of "Suc i"] by blast
  show ?case
    using bs by (auto simp: b nth_Cons' simp flip: of_nat_Suc)
qed

text \<open>The buffers of the examples: one megabyte each, zeroed and available.\<close>

abbreviation zeroed_buffer :: "(nat \<Rightarrow> layout \<Rightarrow> u64) \<Rightarrow> (nat \<Rightarrow> u64) \<Rightarrow> nat \<Rightarrow> FlushBuffer" where
  "zeroed_buffer alloc place k \<equiv> \<lparr>fb_state = 0,
     fb_buf = \<lparr>buf_ptr = alloc k (ONE_MEGABYTE_BLOCK, FOUR_KB_BLOCK),
       buf_mem = replicate (unat ONE_MEGABYTE_BLOCK) 0, buf_size = ONE_MEGABYTE_BLOCK\<rparr>,
     fb_pos = word_of_nat k, fb_local_address = 0, fb_sqe = None, fb_addr = place k\<rparr>"

lemma megabyte_buffers:
  assumes "\<And>j l. alloc j l \<noteq> 0"
  shows "\<exists>bs. new_buffers alloc place ONE_MEGABYTE_BLOCK 0 4 = Done bs \<and> length bs = 4
    \<and> (\<forall>k < 4. bs ! k = zeroed_buffer alloc place k)"
  using new_buffers_Done [where sz = ONE_MEGABYTE_BLOCK and alloc = alloc and place = place and i = 0 and n = 4] assms
  by (simp add: ONE_MEGABYTE_BLOCK_def)

lemma set_buffer_size_megabyte:
  "set_buffer_size pf ONE_MEGABYTE_BLOCK opts = Done (opts\<lparr>opt_buffer_size := ONE_MEGABYTE_BLOCK\<rparr>)"
  by (simp add: set_buffer_size_def next_multiple_of_def ONE_MEGABYTE_BLOCK_def)

text \<open>
  Building a ring. A capacity of zero panics; a buffer size of zero (the options'
  default) asks the allocator for nothing, which is undefined; every other size below the
  layout limit gives, if the allocations succeed, a well-formed ring of the requested
  number of zeroed buffers of exactly the requested size, all available, with the first one
  current, and moves dispatcher and channel out of the options.
\<close>
lemma with_options_builds:
  assumes "\<And>j l. alloc j l \<noteq> 0" and "unat (opt_buffer_size opts) \<le> 2 ^ 63 - 4096"
  shows "if opt_capacity opts = 0 then with_options alloc place opts = Panic
    else if opt_buffer_size opts = 0 then with_options alloc place opts = Undefined
    else \<exists>r. with_options alloc place opts = Done (r, opts\<lparr>opt_io_instance := None, opt_cq_tx := None\<rparr>)
      \<and> ring_ok r \<and> br_current r = Some 0 \<and> length (br_ring r) = unat (opt_capacity opts)
      \<and> br_store r = opt_io_instance opts
      \<and> (\<forall>b \<in> set (br_ring r). is_available b \<and> buf_size (fb_buf b) = opt_buffer_size opts
            \<and> fb_local_address b = 0)"
proof (cases "opt_capacity opts = 0 \<or> opt_buffer_size opts = 0")
  case True
  have nb: "new_buffer (alloc 0) (place 0) 0 0 = Undefined"
    by (simp add: new_buffer_def new_aligned_def layout_4k)
  show ?thesis
  proof (cases "opt_capacity opts = 0")
    case False
    then obtain m where "unat (opt_capacity opts) = Suc m"
      using not0_implies_Suc [of "unat (opt_capacity opts)"] by (auto simp: unsigned_eq_0_iff)
    then show ?thesis using True False nb by (simp add: with_options_def)
  qed (simp add: with_options_def)
next
  case False
  let ?n = "unat (opt_capacity opts)" and ?sz = "opt_buffer_size opts"
  have n: "0 < ?n" using False by (simp add: unat_gt_0)
  obtain bs where bs: "new_buffers alloc place ?sz 0 ?n = Done bs" "length bs = ?n"
    "\<forall>k < ?n. bs ! k = \<lparr>fb_state = 0,
        fb_buf = \<lparr>buf_ptr = alloc k (?sz, FOUR_KB_BLOCK), buf_mem = replicate (unat ?sz) 0, buf_size = ?sz\<rparr>,
        fb_pos = word_of_nat k, fb_local_address = 0, fb_sqe = None, fb_addr = place k\<rparr>"
    using new_buffers_Done [of ?sz alloc place 0 ?n] assms False by (auto simp: unat_gt_0)
  then have "bs \<noteq> []" using n by auto
  then show ?thesis
    using False bs assms n
    by (auto simp: with_options_def ring_ok_def buffer_ok_def buffer_wf_def unat_gt_0
        is_available_def in_set_conv_nth)
qed

theorem with_options_builds_witness:
  "with_options (\<lambda>_ _. 4096) (\<lambda>i. 64) (set_capacity 4 (options_new :: unit BufferRingOptions)) = Undefined
   \<and> (\<exists>r. with_options (\<lambda>_ _. 4096) (\<lambda>i. 64)
        ((set_capacity 4 (options_new :: unit BufferRingOptions))\<lparr>opt_buffer_size := 8192\<rparr>) = Done r
        \<and> length (br_ring (fst r)) = 4)"
proof -
  let ?o = "set_capacity 4 (options_new :: unit BufferRingOptions)"
  have "with_options (\<lambda>_ _. 4096) (\<lambda>i. 64) ?o = Undefined"
    using with_options_builds [of "\<lambda>_ _. 4096" ?o "\<lambda>i. 64"] by (simp add: set_capacity_def options_new_def)
  moreover have "\<exists>r. with_options (\<lambda>_ _. 4096) (\<lambda>i. 64) (?o\<lparr>opt_buffer_size := 8192\<rparr>) = Done r
        \<and> length (br_ring (fst r)) = 4"
    using with_options_builds [of "\<lambda>_ _. 4096" "?o\<lparr>opt_buffer_size := 8192\<rparr>" "\<lambda>i. 64"]
    by (auto simp: set_capacity_def options_new_def)
  ultimately show ?thesis by blast
qed

section \<open>Rotation\<close>

lemma find_map: "find P (map f xs) = map_option f (find (\<lambda>x. P (f x)) xs)"
  by (induction xs) simp_all

lemma find_upt_Suc:
  "find P [0..<Suc m] = (if P 0 then Some 0 else map_option Suc (find (\<lambda>k. P (Suc k)) [0..<m]))"
  by (simp add: upt_conv_Cons find_map flip: map_Suc_upt del: upt_Suc)

text \<open>The \<open>k\<close>-th candidate of a scan.\<close>

definition candidate :: "'u BufferRing \<Rightarrow> nat \<Rightarrow> nat" where
  "candidate r k = unat ((br_next_index r + word_of_nat k) mod word_of_nat (length (br_ring r)))"

lemma candidate_less:
  assumes "ring_ok r"
  shows "candidate r k < length (br_ring r)"
proof -
  have n: "unat (word_of_nat (length (br_ring r)) :: usize) = length (br_ring r)"
    using assms unsigned_less [of "br_size r", where ?'a = nat]
    by (auto simp: ring_ok_def intro!: unat_word_of_nat_usize)
  then show ?thesis
    using ring_ok_nonempty [OF assms] by (simp add: candidate_def unat_mod)
qed

lemma candidate_no_wrap:
  assumes "ring_ok r" and "unat (br_next_index r) + k < 2 ^ 64"
  shows "candidate r k = (unat (br_next_index r) + k) mod length (br_ring r)"
proof -
  have "unat (word_of_nat (length (br_ring r)) :: usize) = length (br_ring r)"
    using assms(1) unsigned_less [of "br_size r", where ?'a = nat]
    by (auto simp: ring_ok_def intro!: unat_word_of_nat_usize)
  moreover have "unat (word_of_nat k :: usize) = k"
    using assms(2) by (intro unat_word_of_nat_usize) simp
  then have "unat (br_next_index r + word_of_nat k) = unat (br_next_index r) + k"
    using assms(2) by (simp add: unat_add_no_overflow)
  ultimately show ?thesis by (simp add: candidate_def unat_mod)
qed

lemma rotate_scan_eq:
  "rotate_scan m c sz r =
    (case find (\<lambda>k. is_available (br_ring r ! candidate r k)) [0..<m] of
       None \<Rightarrow> (Inl RingExhausted, r\<lparr>br_next_index := br_next_index r + word_of_nat m\<rparr>)
     | Some k \<Rightarrow> (Inr (), reserve_buf_addr (candidate r k) sz
          (r\<lparr>br_next_index := br_next_index r + word_of_nat (Suc k),
             br_current := (if br_current r = Some c then Some (candidate r k) else br_current r)\<rparr>)))"
proof (induction m arbitrary: r)
  case 0
  then show ?case by simp
next
  case (Suc m)
  let ?r1 = "r\<lparr>br_next_index := br_next_index r + 1\<rparr>"
  have shift: "candidate ?r1 k = candidate r (Suc k)" for k
    by (simp add: candidate_def add.assoc)
  have zero: "unat (br_next_index r mod word_of_nat (length (br_ring r))) = candidate r 0"
    by (simp add: candidate_def)
  show ?case
  proof (cases "is_available (br_ring r ! candidate r 0)")
    case True
    then show ?thesis
      by (auto simp: find_upt_Suc zero Let_def simp del: upt_Suc)
  next
    case False
    then have "rotate_scan (Suc m) c sz r = rotate_scan m c sz ?r1"
      by (simp add: zero Let_def)
    then show ?thesis
      using False Suc.IH [of ?r1]
      by (simp add: find_upt_Suc shift add.assoc del: upt_Suc split: option.splits)
  qed
qed

lemma find_upt_Some_iff:
  "find P [0..<m] = Some k \<longleftrightarrow> k < m \<and> P k \<and> (\<forall>j < k. \<not> P j)"
  by (auto simp: find_Some_iff)

text \<open>Every index is a candidate of a full scan, as long as the counter does not wrap.\<close>

lemma candidate_covers:
  assumes "ring_ok r" and "unat (br_next_index r) + length (br_ring r) \<le> 2 ^ 64" and "j < length (br_ring r)"
  shows "\<exists>k < length (br_ring r). candidate r k = j"
proof -
  let ?n = "length (br_ring r)" and ?a = "unat (br_next_index r)"
  define k where "k = (j + ?n - ?a mod ?n) mod ?n"
  have n: "0 < ?n" using assms(3) by linarith
  have k: "k < ?n" unfolding k_def by (rule mod_less_divisor [OF n])
  have "?a mod ?n < ?n" by (rule mod_less_divisor [OF n])
  have "(?a + k) mod ?n = (?a mod ?n + (j + ?n - ?a mod ?n)) mod ?n"
    by (simp add: k_def mod_simps)
  also have "\<dots> = j"
    using \<open>?a mod ?n < ?n\<close> assms(3) by simp
  finally show ?thesis
    using k assms(1,2) candidate_no_wrap [of r k] by (intro exI [of _ k]) simp
qed

lemma reserve_buf_addr_sel [simp]:
  "br_current (reserve_buf_addr i sz r) = br_current r"
  "br_next_index (reserve_buf_addr i sz r) = br_next_index r"
  "br_next_address_range (reserve_buf_addr i sz r) = br_next_address_range r + sz"
  "br_store (reserve_buf_addr i sz r) = br_store r"
  "br_auto_flush (reserve_buf_addr i sz r) = br_auto_flush r"
  "br_auto_rotate (reserve_buf_addr i sz r) = br_auto_rotate r"
  "br_size (reserve_buf_addr i sz r) = br_size r" "br_cq_tx (reserve_buf_addr i sz r) = br_cq_tx r"
  "length (br_ring (reserve_buf_addr i sz r)) = length (br_ring r)"
  by (simp_all add: reserve_buf_addr_def)

lemma reserve_buf_addr_nth:
  "j < length (br_ring r) \<Longrightarrow> br_ring (reserve_buf_addr i sz r) ! j =
    (if j = i \<and> fb_local_address (br_ring r ! i) = 0
     then (br_ring r ! i)\<lparr>fb_local_address := br_next_address_range r\<rparr> else br_ring r ! j)"
  by (auto simp: reserve_buf_addr_def on_buffer_nth)

text \<open>
  C35: Rotation away from a sealed current buffer. If some buffer of the ring is available,
  rotation succeeds and makes current the first available one in ring order from
  \<open>next_index\<close>, having looked at no buffer twice; if none is, it reports exhaustion and the
  current buffer stays. Either way no state word changes, and the address counter moves only
  on success, by the size of the buffer rotated away from.
\<close>
theorem rotate_finds_first_available:
  assumes "ring_ok r" and "br_current r = Some c"
    and "unat (br_next_index r) + length (br_ring r) \<le> 2 ^ 64"
  defines "n \<equiv> length (br_ring r)" and "cand \<equiv> (\<lambda>k. (unat (br_next_index r) + k) mod length (br_ring r))"
  shows "(\<exists>k r'. (\<exists>j < n. is_available (br_ring r ! j)) \<and> k < n \<and> is_available (br_ring r ! cand k)
        \<and> (\<forall>k' < k. \<not> is_available (br_ring r ! cand k'))
        \<and> rotate_after_seal (fb_pos (br_ring r ! c)) r = (Inr (), r')
        \<and> br_current r' = Some (cand k)
        \<and> br_next_address_range r' = br_next_address_range r + buffer_len (br_ring r ! c)
        \<and> (\<forall>j < n. fb_state (br_ring r' ! j) = fb_state (br_ring r ! j)))
    \<or> (\<forall>j < n. \<not> is_available (br_ring r ! j))
        \<and> rotate_after_seal (fb_pos (br_ring r ! c)) r
          = (Inl RingExhausted, r\<lparr>br_next_index := br_next_index r + word_of_nat n\<rparr>)"
proof -
  have cand: "candidate r k = cand k" if "k < n" for k
    using candidate_no_wrap [OF assms(1), of k] that assms(3) by (simp add: cand_def n_def)
  have rot: "rotate_after_seal (fb_pos (br_ring r ! c)) r = rotate_scan n c (buffer_len (br_ring r ! c)) r"
    using assms(2) by (simp add: rotate_after_seal_def n_def Let_def)
  show ?thesis
  proof (cases "find (\<lambda>k. is_available (br_ring r ! candidate r k)) [0..<n]")
    case None
    then have "\<not> is_available (br_ring r ! j)" if "j < n" for j
      using candidate_covers [OF assms(1,3), of j] that by (auto simp: n_def find_None_iff)
    then show ?thesis using None rot by (simp add: rotate_scan_eq)
  next
    case (Some k)
    then have k: "k < n" "is_available (br_ring r ! cand k)" "\<forall>k' < k. \<not> is_available (br_ring r ! cand k')"
      using cand by (auto simp: find_upt_Some_iff)
    have less: "cand k < n" using candidate_less [OF assms(1), of k] cand [OF k(1)] by (simp add: n_def)
    let ?r' = "reserve_buf_addr (cand k) (buffer_len (br_ring r ! c))
      (r\<lparr>br_next_index := br_next_index r + word_of_nat (Suc k), br_current := Some (cand k)\<rparr>)"
    have "rotate_after_seal (fb_pos (br_ring r ! c)) r = (Inr (), ?r')"
      using Some cand [OF k(1)] assms(2) rot by (simp add: rotate_scan_eq)
    moreover have "\<forall>j < n. fb_state (br_ring ?r' ! j) = fb_state (br_ring r ! j)"
      by (auto simp: n_def reserve_buf_addr_nth)
    ultimately show ?thesis using k less by (intro disjI1 exI [of _ k] exI [of _ ?r']) auto
  qed
qed

theorem rotate_finds_first_available_witness:
  "\<exists>r'. rotate_after_seal 0 (demo_ring [1, 3, 0] 4096 (None :: unit QuikIO option) True) = (Inr (), r')
     \<and> br_current r' = Some 2"
proof -
  let ?r = "demo_ring [1, 3, 0] 4096 (None :: unit QuikIO option) True"
  have ok: "ring_ok ?r" by (simp add: demo_ring_ok)
  have av: "\<not> is_available (br_ring ?r ! 0)" "\<not> is_available (br_ring ?r ! 1)" "is_available (br_ring ?r ! 2)"
    by (simp_all add: is_available_def SEALED_BIT_def FLUSH_IN_PROGRESS_BIT_def state_offset_def)
  have k: "k = 1" if "k < 3" "is_available (br_ring ?r ! ((1 + k) mod 3))" for k
    using that av by (cases "k = 0"; cases "k = 1"; cases "k = 2") auto
  have c: "br_current ?r = Some 0" "fb_pos (br_ring ?r ! 0) = 0" "length (br_ring ?r) = 3" "unat (br_next_index ?r) = 1"
    by simp_all
  consider (found) k r' where "k < 3" "is_available (br_ring ?r ! ((1 + k) mod 3))"
      "rotate_after_seal 0 ?r = (Inr (), r')" "br_current r' = Some ((1 + k) mod 3)"
    | (none) "\<forall>j < 3. \<not> is_available (br_ring ?r ! j)"
    using rotate_finds_first_available [OF ok c(1)] unfolding c by auto
  then show ?thesis
  proof cases
    case found
    then show ?thesis using k [OF found(1,2)] by auto
  next
    case none
    have "(2 :: nat) < 3" by simp
    with none av(3) show ?thesis by blast
  qed
qed

section \<open>Every method keeps the ring well-formed\<close>

text \<open>A submission changes nothing of the buffer but its stored entry.\<close>

lemma submit_buffer_keeps:
  "submit_buffer U (flush_buffer_methods pf) fb q = Done (q', fb') \<Longrightarrow> \<exists>e. fb' = fb\<lparr>fb_sqe := e\<rparr>"
proof -
  assume "submit_buffer U (flush_buffer_methods pf) fb q = Done (q', fb')"
  then obtain data where "(case submit_buffer_raw U data (fb_local_address fb) (fb_addr fb) q of
      (q', None) \<Rightarrow> Done (q', fb) | (q', Some e) \<Rightarrow> Done (q', fb\<lparr>fb_sqe := Some e\<rparr>)) = Done (q', fb')"
    by (auto simp: submit_buffer_def Let_def)
  then have "fb' = fb \<or> (\<exists>e. fb' = fb\<lparr>fb_sqe := Some e\<rparr>)"
    by (cases "submit_buffer_raw U data (fb_local_address fb) (fb_addr fb) q") (auto split: option.splits)
  moreover have "fb = fb\<lparr>fb_sqe := fb_sqe fb\<rparr>" by simp
  ultimately show ?thesis by metis
qed

lemma ring_ok_reset: "i < length (br_ring r) \<Longrightarrow> ring_ok r \<Longrightarrow> ring_ok (reset_buffer i r)"
  by (auto simp: reset_buffer_eq)

lemma ring_ok_flush:
  assumes "ring_ok r" and "i < length (br_ring r)" and "flush pf U i r = Done r'"
  shows "ring_ok r'"
proof -
  let ?r1 = "on_buffer i (\<lambda>b. snd (set_flush_in_progress b)) r"
  have r1: "ring_ok ?r1" using assms(1) by (auto simp: set_flush_in_progress_def)
  show ?thesis
  proof (cases "br_store r")
    case None
    then show ?thesis using assms r1 by (auto simp: flush_def Let_def intro!: ring_ok_reset)
  next
    case (Some q)
    with assms(3) obtain q' b where "submit_buffer U (flush_buffer_methods pf) (br_ring ?r1 ! i) q = Done (q', b)"
      and r': "r' = (on_buffer i (\<lambda>_. b) ?r1)\<lparr>br_store := Some q'\<rparr>"
      by (auto simp: flush_def Let_def)
    then obtain e where b: "b = (br_ring ?r1 ! i)\<lparr>fb_sqe := e\<rparr>" using submit_buffer_keeps by blast
    have "on_buffer i (\<lambda>_. b) ?r1 = on_buffer i (\<lambda>x. x\<lparr>fb_sqe := e\<rparr>) ?r1"
      by (simp add: on_buffer_def b)
    then show ?thesis using r1 by (auto simp: r' simp del: on_buffer_on_buffer)
  qed
qed

lemma ring_ok_dispatch:
  assumes "ring_ok r" and "i < length (br_ring r)" and "dispatch pf U i r = Done r'"
  shows "ring_ok r'"
  using assms ring_ok_flush [OF assms(1), of _ pf U r'] ring_ok_reset [of i r]
  by (auto simp: dispatch_def Let_def split: if_splits)

lemma ring_ok_rotate: "ring_ok r \<Longrightarrow> ring_ok (snd (rotate_after_seal p r))"
proof -
  assume ok: "ring_ok r"
  have reserve: "ring_ok (reserve_buf_addr i sz s)" if "ring_ok s" for i sz and s :: "'a BufferRing"
    using that by (auto simp: reserve_buf_addr_def)
  have cur: "ring_ok (r\<lparr>br_next_index := a, br_current := Some (candidate r k)\<rparr>)" for a k
    using ok candidate_less [OF ok, of k] by (auto simp: ring_ok_def)
  have "ring_ok (snd (rotate_scan m c sz r))" for m c sz
    using ok by (auto simp: rotate_scan_eq intro!: reserve cur split: option.splits)
  then show ?thesis
    using ok by (auto simp: rotate_after_seal_def Let_def split: option.splits)
qed

lemma rotate_length [simp]: "length (br_ring (snd (rotate_after_seal p r))) = length (br_ring r)"
  by (auto simp: rotate_after_seal_def rotate_scan_eq Let_def split: option.splits)

lemma bind_Done_E:
  assumes "bind_outcome m f = Done y"
  obtains x where "m = Done x" and "f x = Done y"
  using assms by auto

lemma rotate_keeps_word [simp]:
  "j < length (br_ring r) \<Longrightarrow>
   fb_state (br_ring (snd (rotate_after_seal p r)) ! j) = fb_state (br_ring r ! j)"
  by (auto simp: rotate_after_seal_def rotate_scan_eq Let_def reserve_buf_addr_nth split: option.splits)

text \<open>
  The sealing path of \<open>put\<close> up to its look at the writer count: the buffer sealed, its
  address slot claimed for the padded size, and the ring rotated away from it.
\<close>

definition sealed_ring :: "nat \<Rightarrow> 'u BufferRing \<Rightarrow> 'u BufferRing" where
  "sealed_ring i r =
    (let r3 = on_buffer i (\<lambda>b. b\<lparr>fb_state := fb_state b OR SEALED_BIT, fb_local_address := br_next_address_range r\<rparr>)
           (r\<lparr>br_next_address_range := br_next_address_range r
               + word_of_nat (round_up (unat (buffer_len (br_ring r ! i))) 4096)\<rparr>)
     in if br_auto_rotate r then snd (rotate_after_seal (fb_pos (br_ring r ! i)) r3) else r3)"

definition flag_flush :: "nat \<Rightarrow> 'u BufferRing \<Rightarrow> 'u BufferRing" where
  "flag_flush i r = on_buffer i (\<lambda>b. b\<lparr>fb_state := fb_state b OR FLUSH_IN_PROGRESS_BIT\<rparr>) r"

lemma sealed_ring_length [simp]: "length (br_ring (sealed_ring i r)) = length (br_ring r)"
  by (simp add: sealed_ring_def Let_def)

lemma flag_flush_length [simp]: "length (br_ring (flag_flush i r)) = length (br_ring r)"
  by (simp add: flag_flush_def)

lemma sealed_ring_word:
  "i < length (br_ring r) \<Longrightarrow> fb_state (br_ring (sealed_ring i r) ! i) = fb_state (br_ring r ! i) OR SEALED_BIT"
  by (simp add: sealed_ring_def Let_def)

lemma ring_ok_sealed_ring: "ring_ok r \<Longrightarrow> ring_ok (sealed_ring i r)"
  by (auto simp: sealed_ring_def Let_def intro!: ring_ok_rotate)

lemma ring_ok_flag_flush: "ring_ok r \<Longrightarrow> ring_ok (flag_flush i r)"
  by (auto simp: flag_flush_def)

lemma padded_size:
  "next_multiple_of pf (state_offset w) FOUR_KB_BLOCK = Done (word_of_nat (round_up (unat (state_offset w)) 4096))"
  using offset_bound [of w] by (simp add: next_multiple_of_no_overflow FOUR_KB_BLOCK_def)

lemma writers_zero_iff: "unat (state_writers w) = 0 \<longleftrightarrow> state_writers w = 0"
  by (simp add: unsigned_eq_0_iff)

lemma on_buffer_address_swap:
  "on_buffer i f (r\<lparr>br_next_address_range := a\<rparr>) = (on_buffer i f r)\<lparr>br_next_address_range := a\<rparr>"
  by (simp add: on_buffer_def)

lemma put_insufficient:
  assumes "i < length (br_ring r)"
  shows "put pf U i (Inl InsufficientSpace) payload r =
    (let w = fb_state (br_ring r ! i) in
     if state_sealed w
     then Done (Inl EncounteredSealedBuffer, on_buffer i (\<lambda>b. b\<lparr>fb_state := fb_state b OR SEALED_BIT\<rparr>) r)
     else if state_writers w \<noteq> 0 then Done (Inl EncounteredSealedBuffer, sealed_ring i r)
     else if state_flush_in_progress w
     then Done (Inl EncounteredSealedBuffer, flag_flush i (sealed_ring i r))
     else bind_outcome (dispatch pf U i (flag_flush i (sealed_ring i r)))
            (\<lambda>r'. Done (Inr SuccessfullWriteFlush, r')))"
proof -
  let ?w = "fb_state (br_ring r ! i)"
  let ?r1 = "on_buffer i (\<lambda>b. b\<lparr>fb_state := fb_state b OR SEALED_BIT\<rparr>) r"
  let ?p = "word_of_nat (round_up (unat (state_offset ?w)) 4096)"
  have r3: "(let r3 = on_buffer i (\<lambda>b. b\<lparr>fb_local_address := br_next_address_range r\<rparr>)
        (?r1\<lparr>br_next_address_range := br_next_address_range r + ?p\<rparr>)
      in if br_auto_rotate r3 then snd (rotate_after_seal (fb_pos (br_ring r3 ! i)) r3) else r3)
      = sealed_ring i r"
    using assms by (simp add: sealed_ring_def Let_def buffer_len_def on_buffer_address_swap)
  have pad: "next_multiple_of pf (buffer_len (br_ring ?r1 ! i)) FOUR_KB_BLOCK = Done ?p"
    using assms by (simp add: buffer_len_def padded_size)
  have flag: "on_buffer i (\<lambda>_. snd (set_flush_in_progress (br_ring s ! i))) s = flag_flush i s"
    for s :: "'a BufferRing"
    by (simp add: on_buffer_def set_flush_in_progress_def flag_flush_def)
  have bits: "(w AND SEALED_BIT \<noteq> 0) = state_sealed w" "(w AND FLUSH_IN_PROGRESS_BIT = 0) = (\<not> state_flush_in_progress w)" for w
    by (simp_all add: state_sealed_def state_flush_in_progress_def)
  have step: "put pf U i (Inl InsufficientSpace) payload r =
    (if state_sealed ?w then Done (Inl EncounteredSealedBuffer, ?r1)
     else let r4 = sealed_ring i r; state_now = fb_state (br_ring r4 ! i) in
       if state_writers state_now = 0
       then if \<not> state_flush_in_progress state_now
            then bind_outcome (dispatch pf U i (flag_flush i r4)) (\<lambda>r'. Done (Inr SuccessfullWriteFlush, r'))
            else Done (Inl EncounteredSealedBuffer, flag_flush i r4)
       else Done (Inl EncounteredSealedBuffer, r4))"
    unfolding r3 [symmetric] flag [symmetric]
    by (simp add: put_def Let_def pad bits set_flush_in_progress_def)
  show ?thesis
    unfolding step using assms by (simp add: sealed_ring_word Let_def)
qed

text \<open>The writing path of \<open>put\<close>.\<close>

lemma put_offset:
  assumes "i < length (br_ring r)"
  shows "put pf U i (Inr offset) payload r =
    (let w = fb_state (br_ring r ! i) in
     bind_outcome (write_buffer offset payload (br_ring r ! i)) (\<lambda>b1.
       let r1 = on_buffer i (\<lambda>_. b1\<lparr>fb_state := w - WRITER_ONE\<rparr>) r in
       if state_writers w = 1 \<and> state_sealed w
       then if state_flush_in_progress w then Done (Inr SuccessfullWrite, flag_flush i r1)
            else bind_outcome (dispatch pf U i (flag_flush i r1)) (\<lambda>r'. Done (Inr SuccessfullWriteFlush, r'))
       else Done (Inr SuccessfullWrite, r1)))"
proof -
  have bits: "(w AND FLUSH_IN_PROGRESS_BIT = 0) = (\<not> state_flush_in_progress w)" for w
    by (simp add: state_flush_in_progress_def)
  have word: "write_buffer offset payload b = Done b1 \<Longrightarrow> fb_state b1 = fb_state b" for b b1
    by (auto simp: write_buffer_def)
  have flush: "state_writers w = 1 \<Longrightarrow> state_flush_in_progress (w - WRITER_ONE) = state_flush_in_progress w" for w
    using drop_writer_sel(2) [of w] by simp
  show ?thesis
  proof (cases "write_buffer offset payload (br_ring r ! i)")
    case (Done b1)
    then show ?thesis
      using assms word [OF Done] flush [of "fb_state (br_ring r ! i)"]
      by (auto simp: put_def Let_def decrement_writers_def set_flush_in_progress_def bits flag_flush_def)
  qed (simp_all add: put_def Let_def)
qed

lemma ring_ok_put:
  assumes "ring_ok r" and "i < length (br_ring r)" and "put pf U i res payload r = Done (x, r')"
  shows "ring_ok r'"
proof -
  have disp: "ring_ok s'" if "dispatch pf U i (flag_flush i s) = Done s'" "ring_ok s" "length (br_ring s) = length (br_ring r)"
    for s s'
    using ring_ok_dispatch [of "flag_flush i s" i pf U s'] that assms(2) by (simp add: ring_ok_flag_flush)
  show ?thesis
  proof (cases res)
    case (Inr offset)
    then obtain b1 where b1: "write_buffer offset payload (br_ring r ! i) = Done b1"
      using assms(3) by (auto simp: put_offset [OF assms(2)] Let_def)
    let ?r1 = "on_buffer i (\<lambda>_. b1\<lparr>fb_state := fb_state (br_ring r ! i) - WRITER_ONE\<rparr>) r"
    have "buffer_ok i (br_ring r ! i)" using assms(1,2) by (simp add: ring_ok_def)
    then have "buffer_ok i (b1\<lparr>fb_state := w\<rparr>)" for w
      using b1 copy_into_wf [of "fb_buf (br_ring r ! i)" offset payload]
      by (auto simp: write_buffer_def buffer_ok_def)
    then have r1: "ring_ok ?r1" using assms(1) by auto
    then show ?thesis
      using assms(3) disp [OF _ r1] Inr b1 ring_ok_flag_flush [OF r1]
      by (auto simp: put_offset [OF assms(2)] Let_def split: if_splits)
  next
    case (Inl e)
    show ?thesis
    proof (cases "e = InsufficientSpace")
      case True
      have s: "ring_ok (sealed_ring i r)" using assms(1) by (rule ring_ok_sealed_ring)
      have "ring_ok (on_buffer i (\<lambda>b. b\<lparr>fb_state := fb_state b OR SEALED_BIT\<rparr>) r)"
        using assms(1) by auto
      then show ?thesis
        using assms(3) disp [OF _ s] Inl True s ring_ok_flag_flush [OF s]
        by (auto simp: put_insufficient [OF assms(2)] Let_def split: if_splits)
    next
      case False
      then have "put pf U i res payload r = Done (Inl e, r)"
        using Inl by (cases e) (simp_all add: put_def)
      then show ?thesis using assms(1,3) by simp
    qed
  qed
qed

lemma ring_ok_flush_current:
  assumes "ring_ok r" and "flush_current pf U r = Done (x, r')"
  shows "ring_ok r'"
proof -
  obtain i where i: "i < length (br_ring r)" "br_current r = Some i"
    using ring_ok_current [OF assms(1)] by blast
  let ?r1 = "on_buffer i (\<lambda>b. snd (seal b)) r"
  let ?r3 = "on_buffer i (\<lambda>b. b\<lparr>fb_local_address := br_next_address_range r\<rparr>)
    (?r1\<lparr>br_next_address_range := br_next_address_range r + buffer_len (br_ring ?r1 ! i)\<rparr>)"
  have "ring_ok ?r1" using assms(1) by (auto simp: seal_def Let_def)
  then have r3: "ring_ok ?r3" by (intro ring_ok_update) simp_all
  have "r' = r \<or> (\<exists>r4 p. flush pf U i ?r3 = Done r4 \<and> r' = snd (rotate_after_seal p r4))"
    using assms(2) i by (auto simp: flush_current_def Let_def split: if_splits)
  then show ?thesis
  proof
    assume "\<exists>r4 p. flush pf U i ?r3 = Done r4 \<and> r' = snd (rotate_after_seal p r4)"
    then obtain r4 p where r4: "flush pf U i ?r3 = Done r4" and r': "r' = snd (rotate_after_seal p r4)"
      by blast
    have "ring_ok r4" by (rule ring_ok_flush [OF r3 _ r4]) (simp add: i(1))
    then show ?thesis by (simp add: r' ring_ok_rotate)
  qed (simp add: assms(1))
qed

lemma ring_ok_f_sync:
  assumes "ring_ok r" and "i < length (br_ring r)" and "f_sync pf U i r = Some (Done r')"
  shows "ring_ok r'"
proof -
  let ?r1 = "on_buffer i (\<lambda>b. snd (set_flush_in_progress b)) r"
  have r1: "ring_ok ?r1" using assms(1) by (auto simp: set_flush_in_progress_def)
  show ?thesis
  proof (cases "br_store r")
    case None
    then have "r' = reset_buffer i ?r1" using assms(3) by (simp add: f_sync_def Let_def)
    then show ?thesis using r1 assms(2) by (simp add: ring_ok_reset)
  next
    case (Some q)
    then obtain st1 b st where b: "submit_buffer U (flush_buffer_methods pf) (br_ring ?r1 ! i) q = Done (st1, b)"
      and r': "r' = reset_buffer i ((on_buffer i (\<lambda>_. b) ?r1)\<lparr>br_store := Some st\<rparr>)"
      using assms(3)
      by (auto simp: f_sync_def Let_def split: outcome.splits option.splits prod.splits sum.splits)
    obtain e where e: "b = (br_ring ?r1 ! i)\<lparr>fb_sqe := e\<rparr>" using submit_buffer_keeps [OF b] by blast
    have "ring_ok (on_buffer i (\<lambda>x. x\<lparr>fb_sqe := e\<rparr>) ?r1)"
      by (rule ring_ok_update [OF r1]) simp_all
    then have "ring_ok (on_buffer i (\<lambda>_. b) ?r1)" by (simp only: on_buffer_def e)
    then have "ring_ok ((on_buffer i (\<lambda>_. b) ?r1)\<lparr>br_store := Some st\<rparr>)" by (simp only: ring_ok_fields)
    then show ?thesis unfolding r' by (rule ring_ok_reset [rotated]) (simp add: assms(2))
  qed
qed

lemma ring_ok_handle_cqe:
  assumes "ring_ok r" and "handle_cqe U c r = Done r'"
  shows "ring_ok r'"
proof -
  have found: "i < length (br_ring r)" if "find_buffer p (br_ring r) = Some i" for p i
    using that by (auto simp: find_buffer_def find_Some_iff)
  then show ?thesis
    using assms
    by (auto simp: handle_cqe_def Let_def intro!: ring_ok_reset split: if_splits option.splits)
qed

lemma ring_ok_handle_cqes: "ring_ok r \<Longrightarrow> handle_cqes U cs r = Done r' \<Longrightarrow> ring_ok r'"
  by (induction cs arbitrary: r) (auto dest: ring_ok_handle_cqe)

lemma ring_ok_check_cque:
  assumes "ring_ok r" and "check_cque U r = Some (Done (x, r'))"
  shows "ring_ok r'"
proof -
  have "ring_ok r \<longrightarrow> (\<forall>x r'. Done (x, r') = res \<longrightarrow> ring_ok r')" if "check_cque U r = Some res" for res r
  proof (rule check_cque.raw_induct [where P = "\<lambda>U r res. ring_ok r \<longrightarrow> (\<forall>x r'. Done (x, r') = res \<longrightarrow> ring_ok r')", OF _ that])
    fix check_cque U r res
    assume IH: "\<And>U r res. check_cque U r = Some res \<Longrightarrow> ring_ok r \<longrightarrow> (\<forall>x r'. Done (x, r') = res \<longrightarrow> ring_ok r')"
      and eq: "(case br_store r of
        None \<Rightarrow> Some (Done (Inl ''Store not present'', r))
      | Some store \<Rightarrow>
          Option.bind (quik_cqe U store) (\<lambda>(cqes, store').
            let r1 = r\<lparr>br_store := Some store'\<rparr> in
            if cqes = [] then Some (Done (Inr (), r1))
            else case handle_cqes U cqes r1 of
              Done r2 \<Rightarrow> check_cque U r2
            | Panic \<Rightarrow> Some Panic
            | Undefined \<Rightarrow> Some Undefined)) = Some res"
    show "ring_ok r \<longrightarrow> (\<forall>x r'. Done (x, r') = res \<longrightarrow> ring_ok r')"
    proof (cases "br_store r")
      case (Some store)
      then obtain cqes store' where q: "quik_cqe U store = Some (cqes, store')"
        using eq by (auto simp: bind_eq_Some_conv)
      have ok: "ring_ok r2" if "ring_ok r" "handle_cqes U cqes (r\<lparr>br_store := Some store'\<rparr>) = Done r2" for r2
        using that ring_ok_handle_cqes by (metis ring_ok_fields)
      show ?thesis
        using eq ok by (auto simp: Some q Let_def ring_ok_fields dest: IH split: if_splits outcome.splits)
    qed (use eq in auto)
  qed
  then show ?thesis using assms by blast
qed

end
