(* ===== verification/Ring_Properties.thy ===== *)
theory Ring_Properties
  imports Ring_Invariant
begin

text \<open>
  The functional properties of the ring's methods, run without interference: what \<open>put\<close>
  does on each of its paths, which address ranges buffers are written to, what a flush
  submits, and what a completion does.
\<close>

section \<open>Writing\<close>

text \<open>The buffer after the copy and the decrement of the writing path.\<close>

definition written :: "usize \<Rightarrow> u8 list \<Rightarrow> FlushBuffer \<Rightarrow> FlushBuffer" where
  "written offset payload b =
     b\<lparr>fb_buf := (fb_buf b)\<lparr>buf_mem := blit (unat offset) payload (buf_mem (fb_buf b))\<rparr>,
       fb_state := fb_state b - WRITER_ONE\<rparr>"

lemma written_sel [simp]:
  "fb_state (written offset payload b) = fb_state b - WRITER_ONE"
  "fb_local_address (written offset payload b) = fb_local_address b"
  "fb_pos (written offset payload b) = fb_pos b" "fb_addr (written offset payload b) = fb_addr b"
  "fb_sqe (written offset payload b) = fb_sqe b"
  "buf_ptr (fb_buf (written offset payload b)) = buf_ptr (fb_buf b)"
  "buf_size (fb_buf (written offset payload b)) = buf_size (fb_buf b)"
  "buf_mem (fb_buf (written offset payload b)) = blit (unat offset) payload (buf_mem (fb_buf b))"
  by (simp_all add: written_def)

lemma put_writes:
  assumes "i < length (br_ring r)"
    and "unat offset + length payload \<le> length (buf_mem (fb_buf (br_ring r ! i)))"
  shows "put pf U i (Inr offset) payload r =
    (let w = fb_state (br_ring r ! i); r1 = on_buffer i (written offset payload) r in
     if state_writers w = 1 \<and> state_sealed w
     then if state_flush_in_progress w then Done (Inr SuccessfullWrite, flag_flush i r1)
          else bind_outcome (dispatch pf U i (flag_flush i r1)) (\<lambda>r'. Done (Inr SuccessfullWriteFlush, r'))
     else Done (Inr SuccessfullWrite, r1))"
proof -
  have "write_buffer offset payload (br_ring r ! i)
      = Done ((br_ring r ! i)\<lparr>fb_buf := (fb_buf (br_ring r ! i))\<lparr>buf_mem :=
          blit (unat offset) payload (buf_mem (fb_buf (br_ring r ! i)))\<rparr>\<rparr>)"
    using assms(2) by (simp add: write_buffer_def copy_into_def)
  moreover have "on_buffer i (\<lambda>_. (br_ring r ! i)\<lparr>fb_buf := (fb_buf (br_ring r ! i))\<lparr>buf_mem :=
          blit (unat offset) payload (buf_mem (fb_buf (br_ring r ! i)))\<rparr>,
        fb_state := fb_state (br_ring r ! i) - WRITER_ONE\<rparr>) r = on_buffer i (written offset payload) r"
    by (simp add: on_buffer_def written_def)
  ultimately show ?thesis by (simp add: put_offset [OF assms(1)] Let_def)
qed

text \<open>
  Writing while the buffer stays open, or other writers remain: \<open>put\<close> reports
  \<open>SuccessfullWrite\<close>, the payload is at its offset, every other byte of the buffer and
  every other buffer of the ring is as before, the writer count went down by one with
  offset and flags unchanged, and nothing was submitted.
\<close>
lemma put_plain_write:
  assumes "i < length (br_ring r)"
    and "unat offset + length payload \<le> length (buf_mem (fb_buf (br_ring r ! i)))"
    and "0 < unat (state_writers (fb_state (br_ring r ! i)))"
    and "state_writers (fb_state (br_ring r ! i)) \<noteq> 1 \<or> \<not> state_sealed (fb_state (br_ring r ! i))"
  shows "\<exists>r'. put pf U i (Inr offset) payload r = Done (Inr SuccessfullWrite, r')
    \<and> br_store r' = br_store r \<and> br_next_address_range r' = br_next_address_range r
    \<and> (\<forall>j < length (br_ring r). j \<noteq> i \<longrightarrow> br_ring r' ! j = br_ring r ! j)
    \<and> word_fields (br_ring r' ! i) = (word_fields (br_ring r ! i))
        \<lparr>f_writers := unat (state_writers (fb_state (br_ring r ! i))) - 1\<rparr>
    \<and> take (length payload) (drop (unat offset) (buf_mem (fb_buf (br_ring r' ! i)))) = payload
    \<and> (\<forall>k < length (buf_mem (fb_buf (br_ring r ! i))). k < unat offset \<or> unat offset + length payload \<le> k
         \<longrightarrow> buf_mem (fb_buf (br_ring r' ! i)) ! k = buf_mem (fb_buf (br_ring r ! i)) ! k)"
proof -
  let ?r' = "on_buffer i (written offset payload) r"
  have "put pf U i (Inr offset) payload r = Done (Inr SuccessfullWrite, ?r')"
    using assms(4) by (auto simp: put_writes [OF assms(1,2)] Let_def)
  moreover have "word_fields (br_ring ?r' ! i) = (word_fields (br_ring r ! i))
        \<lparr>f_writers := unat (state_writers (fb_state (br_ring r ! i))) - 1\<rparr>"
    using fields_of_drop_writer [of "fb_state (br_ring r ! i)"] assms(1,3) by simp
  moreover have "take (length payload) (drop (unat offset) (buf_mem (fb_buf (br_ring ?r' ! i)))) = payload"
    using assms(1) take_drop_blit [OF assms(2)] by simp
  moreover have "\<forall>k < length (buf_mem (fb_buf (br_ring r ! i))). k < unat offset \<or> unat offset + length payload \<le> k
      \<longrightarrow> buf_mem (fb_buf (br_ring ?r' ! i)) ! k = buf_mem (fb_buf (br_ring r ! i)) ! k"
    using assms(1) nth_blit [OF assms(2)] by auto
  ultimately show ?thesis
    by (intro exI [of _ ?r']) (simp add: on_buffer_nth)
qed

theorem put_plain_write_witness:
  "\<exists>r'. put Debug sim_api 0 (Inr 0) [1, 2] (demo_ring [0x200000100, 0] 4096 None True)
      = Done (Inr SuccessfullWrite, r')
    \<and> take 2 (buf_mem (fb_buf (br_ring r' ! 0))) = [1, 2]"
proof -
  let ?r = "demo_ring [0x200000100, 0] 4096 (None :: sim QuikIO option) True"
  have w: "fb_state (br_ring ?r ! 0) = 0x200000100" "buf_mem (fb_buf (br_ring ?r ! 0)) = replicate 4096 0"
    "0 < length (br_ring ?r)" by simp_all
  have "unat (state_writers 0x200000100) = 1" "\<not> state_sealed 0x200000100"
    by (simp_all add: state_writers_def state_sealed_def layout_consts)
  then show ?thesis
    using put_plain_write [of 0 ?r 0 "[1, 2]" Debug sim_api] w by (auto simp: numeral_2_eq_2 simp del: demo_ring_nth)
qed

section \<open>Flushing\<close>

lemma or_idem_word [simp]: "(w OR m) OR m = w OR (m :: usize)"
  by (simp add: or.assoc)

lemma on_buffer_cong: "f (br_ring r ! i) = g (br_ring r ! i) \<Longrightarrow> on_buffer i f r = on_buffer i g r"
  by (simp add: on_buffer_def)

lemma flag_flush_eq: "on_buffer i (\<lambda>b. snd (set_flush_in_progress b)) r = flag_flush i r"
  by (simp add: set_flush_in_progress_def flag_flush_def)

lemma flag_flush_sel [simp]:
  "br_store (flag_flush i r) = br_store r" "br_auto_flush (flag_flush i r) = br_auto_flush r"
  "br_next_address_range (flag_flush i r) = br_next_address_range r"
  by (simp_all add: flag_flush_def)

lemma flag_flush_same [simp]:
  "i < length (br_ring r) \<Longrightarrow> br_ring (flag_flush i r) ! i
     = (br_ring r ! i)\<lparr>fb_state := fb_state (br_ring r ! i) OR FLUSH_IN_PROGRESS_BIT\<rparr>"
  by (simp add: flag_flush_def)

lemma submittable_flags [simp]:
  "submittable (b\<lparr>fb_state := w OR FLUSH_IN_PROGRESS_BIT\<rparr>) = submittable (b\<lparr>fb_state := w\<rparr>)"
  "submittable (b\<lparr>fb_state := w OR SEALED_BIT\<rparr>) = submittable (b\<lparr>fb_state := w\<rparr>)"
  "submittable (b\<lparr>fb_local_address := a\<rparr>) = submittable b"
  by (simp_all add: submittable_def)

text \<open>
  The ring after a submission of buffer \<open>i\<close> with entry \<open>e\<close>: the entry is in the queue and in
  the buffer; or, when the queue was full, nothing has happened.
\<close>

definition submitted :: "'u uring_api \<Rightarrow> 'u QuikIO \<Rightarrow> nat \<Rightarrow> sqe \<Rightarrow> 'u BufferRing \<Rightarrow> 'u BufferRing" where
  "submitted U q i e r =
     (case sq_push U e (quik_ring q) of
        None \<Rightarrow> r
      | Some u \<Rightarrow> (on_buffer i (\<lambda>b. b\<lparr>fb_sqe := Some e\<rparr>) r)
                    \<lparr>br_store := Some (set_ring (snd (ring_submit U u)) q)\<rparr>)"

lemma flush_submits:
  assumes "i < length (br_ring r)" and "br_store r = Some q" and "submittable (br_ring r ! i)"
  obtains data e where "fb_buffer_data pf (br_ring r ! i) = Done (buf_ptr (fb_buf (br_ring r ! i)), data)"
    and "e = write_entry (buf_ptr (fb_buf (br_ring r ! i)), data) (fb_local_address (br_ring r ! i))
          (fb_addr (br_ring r ! i)) (get_backing_store q)"
    and "sqe_bytes e = data"
    and "flush pf U i r = Done (submitted U q i e (flag_flush i r))"
proof -
  let ?b = "br_ring r ! i"
  let ?f = "?b\<lparr>fb_state := fb_state ?b OR FLUSH_IN_PROGRESS_BIT\<rparr>"
  have sub: "submittable ?f" using assms(3) by simp
  obtain ptr data where d: "fl_buffer_data (flush_buffer_methods pf) ?f = Done (ptr, data)"
    and bytes: "sqe_bytes (write_entry (ptr, data) (fb_local_address ?b) (fb_addr ?b) (get_backing_store q)) = data"
    using fbuf.entry_exact [OF sub] by metis
  have data: "fb_buffer_data pf ?b = Done (ptr, data)" using d by (simp add: fb_buffer_data_eq Let_def split: if_splits)
  then have ptr: "ptr = buf_ptr (fb_buf ?b)"
    by (auto simp: fb_buffer_data_eq Let_def split: if_splits)
  let ?e = "write_entry (ptr, data) (fb_local_address ?b) (fb_addr ?b) (get_backing_store q)"
  have "submit_buffer U (flush_buffer_methods pf) ?f q =
      (case sq_push U ?e (quik_ring q) of
         None \<Rightarrow> Done (q, ?f)
       | Some u \<Rightarrow> Done (set_ring (snd (ring_submit U u)) q, ?f\<lparr>fb_sqe := Some ?e\<rparr>))"
    using fbuf.submit_total [OF sub, of pf U q] d by (simp add: Let_def cong: option.case_cong)
  then have "flush pf U i r = Done (submitted U q i ?e (flag_flush i r))"
    unfolding flush_def flag_flush_eq Let_def
    using assms(1,2)
    by (cases "sq_push U ?e (quik_ring q)")
      (simp_all add: submitted_def on_buffer_def flag_flush_def)
  then show ?thesis using that [of data ?e] data bytes ptr by simp
qed

lemma dispatch_pos:
  assumes "ring_ok r" and "i < length (br_ring r)"
  shows "dispatch pf U i r = (if br_store r \<noteq> None \<and> br_auto_flush r then flush pf U i r else Done (reset_buffer i r))"
  using assms by (simp add: dispatch_def ring_ok_pos Let_def)

lemma flag_flush_twice [simp]: "i < length (br_ring r) \<Longrightarrow> flag_flush i (flag_flush i r) = flag_flush i r"
  by (simp add: flag_flush_def)

lemma submitted_sel:
  "length (br_ring (submitted U q i e r)) = length (br_ring r)"
  "br_next_address_range (submitted U q i e r) = br_next_address_range r"
  "j < length (br_ring r) \<Longrightarrow> fb_state (br_ring (submitted U q i e r) ! j) = fb_state (br_ring r ! j)"
  by (auto simp: submitted_def on_buffer_nth split: option.splits)

text \<open>Copying a granted payload keeps the ring well formed.\<close>

lemma ring_ok_written:
  assumes "ring_ok r" and "i < length (br_ring r)"
    and "unat offset + length payload \<le> length (buf_mem (fb_buf (br_ring r ! i)))"
  shows "ring_ok (on_buffer i (written offset payload) r)"
proof -
  have "buffer_wf (fb_buf (br_ring r ! i))" using assms(1,2) by (simp add: ring_ok_def buffer_ok_def)
  then show ?thesis using assms by (auto simp: ring_ok_def on_buffer_nth buffer_ok_def buffer_wf_def)
qed

text \<open>The slice a flush hands over holds a payload copied below the write offset.\<close>

lemma written_data:
  assumes b: "submittable b" "unat offset + length payload \<le> unat (state_offset (fb_state b))"
    and w: "state_offset s = state_offset (fb_state b)"
    and data: "fb_buffer_data pf ((written offset payload b)\<lparr>fb_state := s\<rparr>) = Done (p, data)"
  shows "take (length payload) (drop (unat offset) data) = payload" and "length data < 2 ^ 32"
proof -
  let ?mem = "buf_mem (fb_buf b)" and ?k = "round_up (unat (state_offset (fb_state b))) 4096"
  have mem: "unat (state_offset (fb_state b)) \<le> length ?mem" "length ?mem < 2 ^ 32" "4096 dvd length ?mem"
    using b(1) by (auto simp: submittable_def buffer_wf_def)
  have fits: "unat offset + length payload \<le> length ?mem" using b(2) mem(1) by simp
  have k: "?k \<le> length ?mem" using mem by (intro round_up_le_multiple) simp_all
  have dk: "data = take ?k (blit (unat offset) payload ?mem)"
    using data k fits w by (simp add: fb_buffer_data_eq Let_def)
  have "unat offset + length payload \<le> ?k" using b(2) round_up_ge [of "unat (state_offset (fb_state b))" 4096] by linarith
  then have "length payload \<le> ?k - unat offset" by linarith
  moreover have "take (length payload) (drop (unat offset) (blit (unat offset) payload ?mem)) = payload"
    using fits by (intro take_drop_blit) simp
  ultimately show "take (length payload) (drop (unat offset) data) = payload"
    by (simp only: dk drop_take take_take min_absorb1)
  show "length data < 2 ^ 32" using dk mem(2) fits by simp
qed

text \<open>
  C19: The last writer of a sealed buffer, with a dispatcher attached and \<open>auto_flush\<close> set:
  \<open>put\<close> reports \<open>SuccessfullWriteFlush\<close> and hands the dispatcher one write entry for this
  buffer, at the buffer's address slot and tagged with its address, whose bytes contain the
  payload at its offset. The buffer stays closed, marked as being flushed, until somebody
  resets it. The report is the same when the submission queue is full; then nothing was
  submitted, no entry was recorded, and no completion will ever come.
\<close>
theorem put_last_writer_submits:
  assumes "ring_ok r" and "i < length (br_ring r)" and "b = br_ring r ! i"
    and "state_writers (fb_state b) = 1" and "state_sealed (fb_state b)"
    and "\<not> state_flush_in_progress (fb_state b)"
    and "unat offset + length payload \<le> unat (state_offset (fb_state b))" and "submittable b"
    and "br_store r = Some q" and "br_auto_flush r"
  shows "\<exists>e r'. put pf U i (Inr offset) payload r = Done (Inr SuccessfullWriteFlush, r')
    \<and> r' = submitted U q i e (flag_flush i (on_buffer i (written offset payload) r))
    \<and> sqe_offset e = fb_local_address b \<and> sqe_user_data e = fb_addr b
    \<and> (\<exists>len. sqe_opcode e = WriteOp (buf_ptr (fb_buf b)) len \<and> unat len = length (sqe_bytes e))
    \<and> take (length payload) (drop (unat offset) (sqe_bytes e)) = payload
    \<and> \<not> is_available (br_ring r' ! i)
    \<and> (sq_push U e (quik_ring q) = None \<longrightarrow> br_store r' = Some q \<and> fb_sqe (br_ring r' ! i) = fb_sqe b)"
proof -
  let ?w = "fb_state b" and ?r1 = "on_buffer i (written offset payload) r"
  let ?b1 = "(written offset payload b)\<lparr>fb_state := (?w - WRITER_ONE) OR FLUSH_IN_PROGRESS_BIT\<rparr>"
  have keep: "state_offset ((?w - WRITER_ONE) OR FLUSH_IN_PROGRESS_BIT) = state_offset ?w"
    using assms(4) drop_writer_sel(3) [of ?w] by simp
  have fits: "unat offset + length payload \<le> length (buf_mem (fb_buf (br_ring r ! i)))"
    using assms(3,7,8) by (auto simp: submittable_def buffer_wf_def)
  note r1 = ring_ok_written [OF assms(1,2) fits]
  have ffi: "br_ring (flag_flush i ?r1) ! i = ?b1" using assms(2,3) by simp
  have sub: "submittable ?b1" using assms(8) fits assms(3) keep by (auto simp: submittable_def buffer_wf_def)
  have len: "i < length (br_ring (flag_flush i ?r1))" "br_store (flag_flush i ?r1) = Some q"
    using assms(2,9) by simp_all
  obtain data e where data: "fb_buffer_data pf ?b1 = Done (buf_ptr (fb_buf ?b1), data)"
    and e: "e = write_entry (buf_ptr (fb_buf ?b1), data) (fb_local_address ?b1) (fb_addr ?b1) (get_backing_store q)"
    and bytes: "sqe_bytes e = data"
    and fl: "flush pf U i (flag_flush i ?r1) = Done (submitted U q i e (flag_flush i (flag_flush i ?r1)))"
    using flush_submits [OF len, of pf U] sub unfolding ffi by metis
  let ?r' = "submitted U q i e (flag_flush i ?r1)"
  have "dispatch pf U i (flag_flush i ?r1) = Done ?r'"
    using fl r1 assms(2,9,10) by (simp add: dispatch_pos ring_ok_flag_flush)
  then have put: "put pf U i (Inr offset) payload r = Done (Inr SuccessfullWriteFlush, ?r')"
    using assms(3-6) by (simp add: put_writes [OF assms(2) fits] Let_def)
  note slice = written_data [OF assms(8,7) keep data]
  have op: "sqe_opcode e = WriteOp (buf_ptr (fb_buf b)) (word_of_nat (length data))"
    "unat (word_of_nat (length data) :: u32) = length data"
    using slice(2) by (simp_all add: e write_entry_def unsigned_of_nat take_bit_nat_eq_self)
  have av: "\<not> is_available (br_ring ?r' ! i)"
    using assms(2) by (simp add: is_available_def submitted_sel flags_clear_iff)
  have none: "sq_push U e (quik_ring q) = None \<longrightarrow> br_store ?r' = Some q \<and> fb_sqe (br_ring ?r' ! i) = fb_sqe b"
    using assms(2,3,9) by (simp add: submitted_def)
  show ?thesis
    using put slice(1) av none op bytes
    by (intro exI [of _ e] exI [of _ ?r']) (simp add: e write_entry_def)
qed

lemma submittable_place [simp]:
  "submittable (b\<lparr>fb_pos := p, fb_addr := a\<rparr>) = submittable b"
  by (simp add: submittable_def)

abbreviation demo_quik :: "sim QuikIO" where
  "demo_quik \<equiv> Searalized \<lparr>bs_store = 3, bs_flusher = sim_init 8 [], bs_mode = SerializedWrites\<rparr>"

theorem put_last_writer_submits_witness:
  "\<exists>(e :: sqe) r'. put Debug sim_api 0 (Inr 0) [1, 2] (demo_ring [0x200000101, 0] 4096 (Some demo_quik) True)
      = Done (Inr SuccessfullWriteFlush, r')
    \<and> take 2 (sqe_bytes e) = [1, 2] \<and> \<not> is_available (br_ring r' ! 0)"
proof -
  let ?r = "demo_ring [0x200000101, 0] 4096 (Some demo_quik) True"
  have "ring_ok ?r" by (rule demo_ring_ok) simp_all
  moreover have "unat (state_offset (0x200000101 :: usize)) = 2" "state_writers (0x200000101 :: usize) = 1"
    "state_sealed 0x200000101" "\<not> state_flush_in_progress 0x200000101"
    by (simp_all add: unat_state_offset state_writers_def state_sealed_def state_flush_in_progress_def layout_consts)
  moreover have "submittable (demo_buffer 0x200000101 4096)"
    by (rule demo_submittable) (simp add: unat_state_offset)
  ultimately show ?thesis
    using put_last_writer_submits [of ?r 0 "br_ring ?r ! 0" 0 "[1, 2]" demo_quik Debug sim_api]
    by (auto simp: numeral_2_eq_2)
qed

text \<open>
  With a dispatcher attached and \<open>auto_flush\<close> off, the caller is to flush sealed buffers
  itself, but the last writer's \<open>put\<close> takes that away: it reports \<open>SuccessfullWriteFlush\<close>,
  submits nothing, and resets the buffer, which becomes available again with its address
  slot cleared. From then on nothing in the ring tells that the buffer held data. Without a
  dispatcher the reset is the intended behaviour.
\<close>
lemma put_manual_flush_discards:
  assumes "ring_ok r" and "i < length (br_ring r)"
    and "state_writers (fb_state (br_ring r ! i)) = 1" and "state_sealed (fb_state (br_ring r ! i))"
    and "\<not> state_flush_in_progress (fb_state (br_ring r ! i))"
    and "unat offset + length payload \<le> length (buf_mem (fb_buf (br_ring r ! i)))"
    and "br_store r = None \<or> \<not> br_auto_flush r"
  shows "\<exists>r'. put pf U i (Inr offset) payload r = Done (Inr SuccessfullWriteFlush, r')
    \<and> br_store r' = br_store r \<and> br_cq_tx r' = br_cq_tx r
    \<and> is_available (br_ring r' ! i) \<and> fb_state (br_ring r' ! i) = 0
    \<and> fb_local_address (br_ring r' ! i) = 0
    \<and> (\<forall>j < length (br_ring r). j \<noteq> i \<longrightarrow> br_ring r' ! j = br_ring r ! j)"
proof -
  let ?r1 = "flag_flush i (on_buffer i (written offset payload) r)"
  have "buffer_wf (fb_buf (br_ring r ! i))" using assms(1,2) by (simp add: ring_ok_def buffer_ok_def)
  then have "ring_ok (on_buffer i (written offset payload) r)"
    using assms(1,2,6) by (auto simp: ring_ok_def on_buffer_nth buffer_ok_def buffer_wf_def)
  then have "ring_ok ?r1" by (rule ring_ok_flag_flush)
  then have "dispatch pf U i ?r1 = Done (reset_buffer i ?r1)"
    using assms(2,7) by (auto simp: dispatch_pos)
  then have "put pf U i (Inr offset) payload r = Done (Inr SuccessfullWriteFlush, reset_buffer i ?r1)"
    using assms(3-5) by (simp add: put_writes [OF assms(2,6)] Let_def)
  then show ?thesis
    using assms(2)
    by (intro exI [of _ "reset_buffer i ?r1"])
      (simp add: reset_buffer_eq flag_flush_def is_available_def on_buffer_nth)
qed

theorem put_manual_flush_discards_witness:
  "\<exists>r'. put Debug sim_api 0 (Inr 0) [1, 2] (demo_ring [0x200000101, 0] 4096 (Some demo_quik) False)
      = Done (Inr SuccessfullWriteFlush, r')
    \<and> br_store r' = Some demo_quik \<and> is_available (br_ring r' ! 0)"
proof -
  let ?r = "demo_ring [0x200000101, 0] 4096 (Some demo_quik) False"
  have "ring_ok ?r" by (rule demo_ring_ok) simp_all
  moreover have "state_writers (0x200000101 :: usize) = 1"
    "state_sealed 0x200000101" "\<not> state_flush_in_progress 0x200000101"
    by (simp_all add: state_writers_def state_sealed_def state_flush_in_progress_def layout_consts)
  ultimately show ?thesis
    using put_manual_flush_discards [of ?r 0 0 "[1, 2]" Debug sim_api] by auto
qed

section \<open>Sealing\<close>

text \<open>A rotation away from the current buffer, with what it leaves alone.\<close>

lemma rotate_cases:
  assumes "ring_ok r" and "br_current r = Some c" and "p = fb_pos (br_ring r ! c)"
  obtains (found) j where "j < length (br_ring r)" "is_available (br_ring r ! j)"
    "fst (rotate_after_seal p r) = Inr ()"
    "br_current (snd (rotate_after_seal p r)) = Some j"
    "br_next_address_range (snd (rotate_after_seal p r)) = br_next_address_range r + buffer_len (br_ring r ! c)"
    "\<And>k. k < length (br_ring r) \<Longrightarrow> k \<noteq> j \<Longrightarrow> br_ring (snd (rotate_after_seal p r)) ! k = br_ring r ! k"
  | (exhausted) "fst (rotate_after_seal p r) = Inl RingExhausted"
    "snd (rotate_after_seal p r) = r\<lparr>br_next_index := br_next_index r + word_of_nat (length (br_ring r))\<rparr>"
proof -
  let ?n = "length (br_ring r)"
  have rot: "rotate_after_seal p r = rotate_scan ?n c (buffer_len (br_ring r ! c)) r"
    using assms(2,3) by (simp add: rotate_after_seal_def Let_def)
  show ?thesis
  proof (cases "find (\<lambda>k. is_available (br_ring r ! candidate r k)) [0..<?n]")
    case None
    then show ?thesis using rot by (intro exhausted) (simp_all add: rotate_scan_eq)
  next
    case (Some k)
    then have "is_available (br_ring r ! candidate r k)" by (simp add: find_upt_Some_iff)
    then show ?thesis
      using Some rot assms(2) candidate_less [OF assms(1), of k]
      by (intro found [of "candidate r k"]) (simp_all add: rotate_scan_eq reserve_buf_addr_nth)
  qed
qed

lemma rotate_store [simp]:
  "br_store (snd (rotate_after_seal p r)) = br_store r"
  "br_auto_flush (snd (rotate_after_seal p r)) = br_auto_flush r"
  "br_cq_tx (snd (rotate_after_seal p r)) = br_cq_tx r"
  by (auto simp: rotate_after_seal_def rotate_scan_eq Let_def split: option.splits)

lemma not_available_sealed: "state_sealed (fb_state b) \<Longrightarrow> \<not> is_available b"
  by (simp add: is_available_def flags_clear_iff)

text \<open>
  The ring after the sealing path's address claim and rotation, when the buffer sealed is
  the current one.
\<close>

lemma sealed_ring_cases:
  assumes "ring_ok r" and "i < length (br_ring r)" and "br_current r = Some i" and "br_auto_rotate r"
  defines "b \<equiv> br_ring r ! i"
  defines "sealed \<equiv> b\<lparr>fb_state := fb_state b OR SEALED_BIT, fb_local_address := br_next_address_range r\<rparr>"
    and "past \<equiv> br_next_address_range r + word_of_nat (round_up (unat (buffer_len b)) 4096)"
  shows "br_ring (sealed_ring i r) ! i = sealed
    \<and> ((\<exists>j < length (br_ring r). j \<noteq> i \<and> is_available (br_ring r ! j) \<and> br_current (sealed_ring i r) = Some j
          \<and> br_next_address_range (sealed_ring i r) = past + buffer_len b)
       \<or> br_current (sealed_ring i r) = Some i \<and> br_next_address_range (sealed_ring i r) = past)"
proof -
  let ?r3 = "on_buffer i (\<lambda>b. b\<lparr>fb_state := fb_state b OR SEALED_BIT, fb_local_address := br_next_address_range r\<rparr>)
           (r\<lparr>br_next_address_range := past\<rparr>)"
  have r: "sealed_ring i r = snd (rotate_after_seal (fb_pos b) ?r3)"
    using assms(4) by (simp add: sealed_ring_def past_def b_def Let_def)
  have ok: "ring_ok ?r3" using assms(1) by auto
  have cur: "br_current ?r3 = Some i" using assms(3) by simp
  have at: "br_ring ?r3 ! i = sealed" using assms(2) by (simp add: sealed_def b_def)
  then have pos: "fb_pos b = fb_pos (br_ring ?r3 ! i)" by (simp add: sealed_def)
  have len: "buffer_len sealed = buffer_len b" by (simp add: sealed_def buffer_len_def)
  have ni: "\<not> is_available sealed" by (rule not_available_sealed) (simp add: sealed_def)
  from ok cur pos show ?thesis
  proof (cases rule: rotate_cases)
    case (found j)
    then have "j \<noteq> i" using at ni by auto
    then show ?thesis
      using found at len assms(2) by (auto simp: r on_buffer_nth)
  next
    case exhausted
    then show ?thesis using at assms(2,3) by (simp add: r)
  qed
qed

text \<open>
  A reservation that does not fit seals the buffer. With writers still inside, \<open>put\<close>
  sends the caller away with \<open>EncounteredSealedBuffer\<close>, the buffer is sealed with offset and
  writer count as they were, its address slot is the ring's address counter as it stood,
  and the counter has moved past the padded size of the buffer, so that the byte range the
  buffer will be written to belongs to it alone. The current pointer is at an available
  buffer if the rotation found one, else still at the sealed one.
\<close>
lemma put_seals_full_buffer:
  assumes "ring_ok r" and "i < length (br_ring r)" and "br_current r = Some i" and "br_auto_rotate r"
    and "\<not> state_sealed (fb_state (br_ring r ! i))" and "state_writers (fb_state (br_ring r ! i)) \<noteq> 0"
    and "unat (br_next_address_range r) < 2 ^ 63" and "unat (buffer_len (br_ring r ! i)) \<le> 1048576"
  shows "\<exists>r'. put pf U i (Inl InsufficientSpace) payload r = Done (Inl EncounteredSealedBuffer, r')
    \<and> word_fields (br_ring r' ! i) = (word_fields (br_ring r ! i))\<lparr>f_sealed := True\<rparr>
    \<and> fb_local_address (br_ring r' ! i) = br_next_address_range r
    \<and> unat (br_next_address_range r) + round_up (unat (buffer_len (br_ring r ! i))) 4096
        \<le> unat (br_next_address_range r')
    \<and> (br_current r' = Some i \<or> (\<exists>j < length (br_ring r). j \<noteq> i \<and> is_available (br_ring r ! j) \<and> br_current r' = Some j))"
proof -
  let ?b = "br_ring r ! i" and ?r' = "sealed_ring i r" and ?c = "br_next_address_range r"
  let ?k = "round_up (unat (buffer_len ?b)) 4096"
  note cases = sealed_ring_cases [OF assms(1-4)]
  have put: "put pf U i (Inl InsufficientSpace) payload r = Done (Inl EncounteredSealedBuffer, ?r')"
    using assms(5,6) by (simp add: put_insufficient [OF assms(2)] Let_def)
  have k: "?k < 2 ^ 21" using round_up_less [of 4096 "unat (buffer_len ?b)"] assms(8) by simp
  then have uk: "unat (word_of_nat ?k :: usize) = ?k" by (intro unat_word_of_nat_usize) simp
  have past: "unat (?c + word_of_nat ?k) = unat ?c + ?k"
    using assms(7) k uk by (simp add: unat_add_no_overflow)
  have "unat (?c + word_of_nat ?k + buffer_len ?b) = unat ?c + ?k + unat (buffer_len ?b)"
    using assms(7,8) k past by (simp add: unat_add_no_overflow)
  then have "unat ?c + ?k \<le> unat (br_next_address_range ?r')" using cases past by auto
  then show ?thesis
    using put cases by (intro exI [of _ ?r']) (auto simp: fields_of_set_sealed)
qed

theorem put_seals_full_buffer_witness:
  "\<exists>r'. put Debug sim_api 0 (Inl InsufficientSpace) [1, 2] (demo_ring [0x200000100, 0] 4096 None True)
      = Done (Inl EncounteredSealedBuffer, r')
    \<and> state_sealed (fb_state (br_ring r' ! 0)) \<and> fb_local_address (br_ring r' ! 0) = 0
    \<and> 4096 \<le> unat (br_next_address_range r')"
proof -
  let ?r = "demo_ring [0x200000100, 0] 4096 (None :: sim QuikIO option) True"
  have "ring_ok ?r" by (rule demo_ring_ok) simp_all
  moreover have "unat (buffer_len (br_ring ?r ! 0)) = 2"
    by (simp add: buffer_len_def unat_state_offset)
  moreover have "round_up 2 4096 = 4096" by (simp add: round_up_def)
  moreover have "state_writers (0x200000100 :: usize) \<noteq> 0" "\<not> state_sealed 0x200000100"
    by (simp_all add: state_writers_def state_sealed_def layout_consts)
  ultimately obtain r' where r': "put Debug sim_api 0 (Inl InsufficientSpace) [1, 2] ?r = Done (Inl EncounteredSealedBuffer, r')"
    "word_fields (br_ring r' ! 0) = (word_fields (br_ring ?r ! 0))\<lparr>f_sealed := True\<rparr>"
    "fb_local_address (br_ring r' ! 0) = 0" "4096 \<le> unat (br_next_address_range r')"
    using put_seals_full_buffer [of ?r 0 Debug sim_api "[1, 2]"] by auto
  have "state_sealed (fb_state (br_ring r' ! 0))" using arg_cong [OF r'(2), of f_sealed] by simp
  then show ?thesis using r' by auto
qed

text \<open>
  Address slots lose their alignment. The rotation that follows a seal advances the
  address counter by the sealed buffer's unpadded size. Starting from a 4 KB-aligned
  counter and a buffer whose fill is not a multiple of 4 KB, a successful rotation leaves a
  counter that is not aligned, and that counter is the file offset of the next buffer to
  be sealed, although every write is meant for \<open>O_DIRECT\<close>.
\<close>
lemma rotation_misaligns_slots:
  assumes "ring_ok r" and "i < length (br_ring r)" and "br_current r = Some i" and "br_auto_rotate r"
    and "\<not> state_sealed (fb_state (br_ring r ! i))" and "state_writers (fb_state (br_ring r ! i)) \<noteq> 0"
    and "unat (br_next_address_range r) < 2 ^ 63" and "unat (buffer_len (br_ring r ! i)) \<le> 1048576"
    and "4096 dvd unat (br_next_address_range r)" and "\<not> 4096 dvd unat (buffer_len (br_ring r ! i))"
    and "put pf U i (Inl InsufficientSpace) payload r = Done (res, r')" and "br_current r' \<noteq> Some i"
  shows "\<not> 4096 dvd unat (next_address r')"
proof -
  let ?b = "br_ring r ! i" and ?c = "br_next_address_range r"
  let ?k = "round_up (unat (buffer_len ?b)) 4096"
  have r': "r' = sealed_ring i r"
    using assms(5,6,11) by (simp add: put_insufficient [OF assms(2)] Let_def)
  then have a: "br_next_address_range r' = ?c + word_of_nat ?k + buffer_len ?b"
    using sealed_ring_cases [OF assms(1-4)] assms(12) by auto
  have k: "?k < 2 ^ 21" "4096 dvd ?k"
    using round_up_less [of 4096 "unat (buffer_len ?b)"] assms(8) round_up_dvd [of 4096] by simp_all
  then have uk: "unat (word_of_nat ?k :: usize) = ?k" by (intro unat_word_of_nat_usize) simp
  have "unat (?c + word_of_nat ?k) = unat ?c + ?k"
    using assms(7) k uk by (simp add: unat_add_no_overflow)
  then have "unat (next_address r') = (unat ?c + ?k) + unat (buffer_len ?b)"
    using assms(7,8) k a by (simp add: unat_add_no_overflow next_address_def)
  moreover have "4096 dvd unat ?c + ?k" using assms(9) k(2) by (rule dvd_add)
  ultimately show ?thesis using assms(10) by (simp add: dvd_add_right_iff)
qed

theorem rotation_misaligns_slots_witness:
  "\<exists>r'. put Debug sim_api 0 (Inl InsufficientSpace) [1, 2] (demo_ring [0x200000100, 0] 4096 None True)
      = Done (Inl EncounteredSealedBuffer, r')
    \<and> \<not> 4096 dvd unat (next_address r')"
proof -
  let ?r = "demo_ring [0x200000100, 0] 4096 (None :: sim QuikIO option) True"
  have ok: "ring_ok ?r" by (rule demo_ring_ok) simp_all
  have len: "unat (buffer_len (br_ring ?r ! 0)) = 2"
    by (simp add: buffer_len_def unat_state_offset)
  have w: "state_writers (0x200000100 :: usize) \<noteq> 0" "\<not> state_sealed 0x200000100"
    by (simp_all add: state_writers_def state_sealed_def layout_consts)
  have put: "put Debug sim_api 0 (Inl InsufficientSpace) [1, 2] ?r = Done (Inl EncounteredSealedBuffer, sealed_ring 0 ?r)"
    using w by (simp add: put_insufficient Let_def)
  have "br_current (sealed_ring 0 ?r) = Some 1"
    by (simp add: sealed_ring_def rotate_after_seal_def Let_def on_buffer_nth rotate_scan.simps(2)
        numeral_2_eq_2 is_available_def)
  then show ?thesis
    using rotation_misaligns_slots [OF ok _ _ _ _ _ _ _ _ _ put] len w put by auto
qed

section \<open>Flushing the current buffer\<close>

lemma submitted_ok: "ring_ok r \<Longrightarrow> ring_ok (submitted U q i e r)"
  by (auto simp: submitted_def split: option.splits)

lemma submitted_current [simp]: "br_current (submitted U q i e r) = br_current r"
  by (simp add: submitted_def split: option.splits)

lemma submitted_store:
  "br_store (submitted U q i e r) = (case sq_push U e (quik_ring q) of None \<Rightarrow> br_store r
     | Some u \<Rightarrow> Some (set_ring (snd (ring_submit U u)) q))"
  by (simp add: submitted_def split: option.splits)

lemma submitted_pos: "j < length (br_ring r) \<Longrightarrow> fb_pos (br_ring (submitted U q i e r) ! j) = fb_pos (br_ring r ! j)"
  by (auto simp: submitted_def on_buffer_nth split: option.splits)

lemma snd_seal [simp]: "snd (seal b) = b\<lparr>fb_state := fb_state b OR SEALED_BIT\<rparr>"
  by (simp add: seal_def Let_def)

lemma buffer_len_eq: "buffer_len b = state_offset (fb_state b)"
  by (simp add: buffer_len_def)

text \<open>The buffer \<open>flush_current\<close> hands to \<open>flush\<close>: sealed, with its claimed slot.\<close>

definition to_flush :: "nat \<Rightarrow> 'u BufferRing \<Rightarrow> 'u BufferRing" where
  "to_flush i r =
     on_buffer i (\<lambda>b. b\<lparr>fb_state := fb_state b OR SEALED_BIT, fb_local_address := br_next_address_range r\<rparr>)
       (r\<lparr>br_next_address_range := br_next_address_range r + buffer_len (br_ring r ! i)\<rparr>)"

lemma to_flush_sel [simp]:
  "length (br_ring (to_flush i r)) = length (br_ring r)" "br_current (to_flush i r) = br_current r"
  "br_store (to_flush i r) = br_store r" "br_cq_tx (to_flush i r) = br_cq_tx r"
  "br_next_address_range (to_flush i r) = br_next_address_range r + buffer_len (br_ring r ! i)"
  "i < length (br_ring r) \<Longrightarrow> br_ring (to_flush i r) ! i
     = (br_ring r ! i)\<lparr>fb_state := fb_state (br_ring r ! i) OR SEALED_BIT, fb_local_address := br_next_address_range r\<rparr>"
  by (simp_all add: to_flush_def)

lemma ring_ok_to_flush: "ring_ok r \<Longrightarrow> ring_ok (to_flush i r)"
  by (auto simp: to_flush_def)

lemma flush_current_run:
  assumes "br_current r = Some i" and "i < length (br_ring r)" and "b = br_ring r ! i"
    and "buffer_len b \<noteq> 0" and "br_store r = Some q" and "submittable b"
  obtains data e where
    "fb_buffer_data pf b = Done (buf_ptr (fb_buf b), data)"
    "e = write_entry (buf_ptr (fb_buf b), data) (br_next_address_range r) (fb_addr b) (get_backing_store q)"
    "sqe_bytes e = data"
    "flush_current pf U r
       = Done (Inr (), snd (rotate_after_seal (fb_pos b) (submitted U q i e (flag_flush i (to_flush i r)))))"
proof -
  let ?c = "br_next_address_range r"
  let ?b = "b\<lparr>fb_state := fb_state b OR SEALED_BIT, fb_local_address := ?c\<rparr>"
  let ?r3 = "to_flush i r"
  have at: "br_ring ?r3 ! i = ?b" "i < length (br_ring ?r3)" "br_store ?r3 = Some q"
    using assms(2,3,5) by simp_all
  have sub: "submittable (br_ring ?r3 ! i)" using assms(6) by (simp add: at(1))
  from at(2,3) sub obtain data e where
    "fb_buffer_data pf (br_ring ?r3 ! i) = Done (buf_ptr (fb_buf (br_ring ?r3 ! i)), data)"
    "e = write_entry (buf_ptr (fb_buf (br_ring ?r3 ! i)), data) (fb_local_address (br_ring ?r3 ! i))
          (fb_addr (br_ring ?r3 ! i)) (get_backing_store q)"
    and bytes: "sqe_bytes e = data"
    and fl: "flush pf U i ?r3 = Done (submitted U q i e (flag_flush i ?r3))"
    by (rule flush_submits [where pf = pf and U = U])
  then have data: "fb_buffer_data pf ?b = Done (buf_ptr (fb_buf b), data)"
    and e: "e = write_entry (buf_ptr (fb_buf b), data) ?c (fb_addr b) (get_backing_store q)"
    unfolding at(1) by simp_all
  have len: "buffer_len (br_ring (on_buffer i (\<lambda>b. snd (seal b)) r) ! i) = buffer_len b"
    using assms(2,3) by (simp add: buffer_len_def)
  have "on_buffer i (\<lambda>b. b\<lparr>fb_local_address := ?c\<rparr>)
      ((on_buffer i (\<lambda>b. snd (seal b)) r)\<lparr>br_next_address_range := ?c + buffer_len b\<rparr>) = ?r3"
    using assms(2,3) by (simp add: to_flush_def flip: on_buffer_address_swap)
  moreover have "fb_pos (br_ring (submitted U q i e (flag_flush i ?r3)) ! i) = fb_pos b"
    using at(1,2) by (simp add: submitted_pos)
  ultimately have fc: "flush_current pf U r
      = Done (Inr (), snd (rotate_after_seal (fb_pos b) (submitted U q i e (flag_flush i ?r3))))"
    using assms(1,3,4) len fl by (simp add: flush_current_def Let_def)
  have "fb_buffer_data pf b = Done (buf_ptr (fb_buf b), data)"
    using data by (simp add: fb_buffer_data_eq Let_def split: if_splits)
  then show ?thesis using that [of data e] e bytes fc by simp
qed

lemma flush_current_cases:
  assumes "ring_ok r" and "br_current r = Some i" and "i < length (br_ring r)" and "b = br_ring r ! i"
    and "buffer_len b \<noteq> 0" and "br_store r = Some q" and "submittable b"
  obtains data e r' where
    "fb_buffer_data pf b = Done (buf_ptr (fb_buf b), data)"
    "e = write_entry (buf_ptr (fb_buf b), data) (br_next_address_range r) (fb_addr b) (get_backing_store q)"
    "sqe_bytes e = data"
    "flush_current pf U r = Done (Inr (), r')"
    "fb_state (br_ring r' ! i) = (fb_state b OR SEALED_BIT) OR FLUSH_IN_PROGRESS_BIT"
    "br_store r' = (case sq_push U e (quik_ring q) of None \<Rightarrow> Some q | Some u \<Rightarrow> Some (set_ring (snd (ring_submit U u)) q))"
    "br_next_address_range r' = br_next_address_range r + buffer_len b
       \<or> br_next_address_range r' = br_next_address_range r + buffer_len b + buffer_len b"
proof -
  from assms(2-) obtain data e where d: "fb_buffer_data pf b = Done (buf_ptr (fb_buf b), data)"
    "e = write_entry (buf_ptr (fb_buf b), data) (br_next_address_range r) (fb_addr b) (get_backing_store q)"
    "sqe_bytes e = data"
    "flush_current pf U r
       = Done (Inr (), snd (rotate_after_seal (fb_pos b) (submitted U q i e (flag_flush i (to_flush i r)))))"
    by (rule flush_current_run [where pf = pf and U = U])
  let ?c = "br_next_address_range r"
  let ?r4 = "submitted U q i e (flag_flush i (to_flush i r))"
  let ?r' = "snd (rotate_after_seal (fb_pos b) ?r4)"
  have r4: "ring_ok ?r4" using assms(1) by (intro submitted_ok ring_ok_flag_flush ring_ok_to_flush)
  have cur: "br_current ?r4 = Some i" using assms(2) by (simp add: flag_flush_def)
  have w4: "fb_state (br_ring ?r4 ! i) = (fb_state b OR SEALED_BIT) OR FLUSH_IN_PROGRESS_BIT"
    using assms(3,4) by (simp add: submitted_sel)
  have l4: "buffer_len (br_ring ?r4 ! i) = buffer_len b"
    using arg_cong [OF w4, of state_offset] buffer_len_eq [of "br_ring ?r4 ! i"] buffer_len_eq [of b] by simp
  have c4: "br_next_address_range ?r4 = ?c + buffer_len b" by (simp add: submitted_sel assms(4))
  have p4: "fb_pos b = fb_pos (br_ring ?r4 ! i)" using assms(3,4) by (simp add: submitted_pos)
  have "br_next_address_range ?r' = ?c + buffer_len b \<or> br_next_address_range ?r' = ?c + buffer_len b + buffer_len b"
    using r4 cur p4 by (cases rule: rotate_cases) (simp_all add: c4 l4)
  moreover have "fb_state (br_ring ?r' ! i) = (fb_state b OR SEALED_BIT) OR FLUSH_IN_PROGRESS_BIT"
    using w4 assms(3) by (simp add: submitted_sel)
  moreover have "br_store ?r' = (case sq_push U e (quik_ring q) of None \<Rightarrow> Some q | Some u \<Rightarrow> Some (set_ring (snd (ring_submit U u)) q))"
    using assms(6) by (simp add: submitted_store cong: option.case_cong)
  ultimately show ?thesis using that [of data e ?r'] d by simp
qed

text \<open>
  \<open>flush_current\<close> on a non-empty current buffer: the buffer is sealed and marked as
  being flushed with offset and writer count left as they are, one entry for its padded
  bytes is pushed, at the address counter's value, and the counter advances by the fill of
  the buffer, once more if the rotation finds another buffer. It never waits for the
  writers still copying into the buffer: their count may be anything.
\<close>
lemma flush_current_submits:
  assumes "ring_ok r" and "br_current r = Some i" and "i < length (br_ring r)"
    and "buffer_len (br_ring r ! i) \<noteq> 0" and "br_store r = Some q" and "submittable (br_ring r ! i)"
  shows "\<exists>e r'. flush_current pf U r = Done (Inr (), r')
    \<and> word_fields (br_ring r' ! i) = (word_fields (br_ring r ! i))\<lparr>f_sealed := True, f_flushing := True\<rparr>
    \<and> sqe_offset e = br_next_address_range r \<and> sqe_user_data e = fb_addr (br_ring r ! i)
    \<and> sqe_bytes e = take (round_up (unat (buffer_len (br_ring r ! i))) 4096) (buf_mem (fb_buf (br_ring r ! i)))
    \<and> (\<forall>u. sq_push U e (quik_ring q) = Some u \<longrightarrow> br_store r' = Some (set_ring (snd (ring_submit U u)) q))
    \<and> (next_address r' = br_next_address_range r + buffer_len (br_ring r ! i)
        \<or> next_address r' = br_next_address_range r + buffer_len (br_ring r ! i) + buffer_len (br_ring r ! i))"
proof -
  let ?b = "br_ring r ! i"
  from assms(1-3) refl assms(4-6) obtain data e r' where c:
    "fb_buffer_data pf ?b = Done (buf_ptr (fb_buf ?b), data)"
    "e = write_entry (buf_ptr (fb_buf ?b), data) (br_next_address_range r) (fb_addr ?b) (get_backing_store q)"
    "sqe_bytes e = data" "flush_current pf U r = Done (Inr (), r')"
    "fb_state (br_ring r' ! i) = (fb_state ?b OR SEALED_BIT) OR FLUSH_IN_PROGRESS_BIT"
    "br_store r' = (case sq_push U e (quik_ring q) of None \<Rightarrow> Some q | Some u \<Rightarrow> Some (set_ring (snd (ring_submit U u)) q))"
    "br_next_address_range r' = br_next_address_range r + buffer_len ?b
       \<or> br_next_address_range r' = br_next_address_range r + buffer_len ?b + buffer_len ?b"
    by (rule flush_current_cases [where pf = pf and U = U])
  have "data = take (round_up (unat (buffer_len ?b)) 4096) (buf_mem (fb_buf ?b))"
    using c(1) by (simp add: fb_buffer_data_eq buffer_len_def Let_def split: if_splits)
  then show ?thesis
    using c by (intro exI [of _ e] exI [of _ r']) (simp add: field_simps_word next_address_def write_entry_def)
qed

text \<open>
  C37: Explicit flushes can overwrite each other. \<open>flush_current\<close> claims the unpadded size
  of the buffer but submits its padded bytes. For a fill below 2 KB the address it leaves
  in the counter, which the next buffer to be flushed or sealed gets as its slot, lies
  strictly inside the byte range just submitted.
\<close>
theorem flush_current_overlap:
  assumes "ring_ok r" and "br_current r = Some i" and "i < length (br_ring r)"
    and "buffer_len (br_ring r ! i) \<noteq> 0" and "br_store r = Some q" and "submittable (br_ring r ! i)"
    and "unat (buffer_len (br_ring r ! i)) < 2048" and "unat (br_next_address_range r) < 2 ^ 63"
    and "flush_current pf U r = Done (res, r')"
  shows "\<exists>e. sqe_offset e = br_next_address_range r
    \<and> br_store r' = (case sq_push U e (quik_ring q) of None \<Rightarrow> Some q | Some u \<Rightarrow> Some (set_ring (snd (ring_submit U u)) q))
    \<and> unat (sqe_offset e) < unat (next_address r')
    \<and> unat (next_address r') < unat (sqe_offset e) + length (sqe_bytes e)"
proof -
  let ?b = "br_ring r ! i" and ?c = "br_next_address_range r"
  let ?n = "buffer_len ?b"
  from assms(1-3) refl assms(4-6) obtain data e r'' where c:
    "fb_buffer_data pf ?b = Done (buf_ptr (fb_buf ?b), data)"
    "e = write_entry (buf_ptr (fb_buf ?b), data) ?c (fb_addr ?b) (get_backing_store q)"
    "sqe_bytes e = data" "flush_current pf U r = Done (Inr (), r'')"
    "br_store r'' = (case sq_push U e (quik_ring q) of None \<Rightarrow> Some q | Some u \<Rightarrow> Some (set_ring (snd (ring_submit U u)) q))"
    "br_next_address_range r'' = ?c + ?n \<or> br_next_address_range r'' = ?c + ?n + ?n"
    by (rule flush_current_cases [where pf = pf and U = U])
  have r'': "r'' = r'" using c(4) assms(9) by simp
  have "unat (?c + ?n) = unat ?c + unat ?n" using assms(7,8) by (intro unat_add_no_overflow) simp
  moreover from this have "unat (?c + ?n + ?n) = unat ?c + unat ?n + unat ?n"
    using assms(7,8) by (subst unat_add_no_overflow) simp_all
  moreover have "0 < unat ?n" using assms(4) by (simp add: unat_gt_0)
  moreover have "length data = round_up (unat ?n) 4096"
    using c(1) by (auto simp: fb_buffer_data_eq buffer_len_def Let_def min_def split: if_splits)
  moreover have "4096 \<le> round_up (unat ?n) 4096"
    using round_up_dvd [of 4096 "unat ?n"] round_up_ge [of "unat ?n" 4096] \<open>0 < unat ?n\<close>
    by (intro dvd_imp_le) simp_all
  ultimately have "unat ?c < unat (next_address r')" "unat (next_address r') < unat ?c + length data"
    using c(6) assms(7) r'' by (auto simp: next_address_def)
  then show ?thesis using c(2,3,5) r'' by (intro exI [of _ e]) (simp add: write_entry_def)
qed

text \<open>A ring whose current buffer holds 100 bytes and has one writer left.\<close>

abbreviation busy_ring :: "sim BufferRing" where
  "busy_ring \<equiv> demo_ring [0x6400000100, 0] 4096 (Some demo_quik) True"

lemma busy_ring_facts:
  "ring_ok busy_ring" "br_current busy_ring = Some 0" "0 < length (br_ring busy_ring)"
  "buffer_len (br_ring busy_ring ! 0) \<noteq> 0" "br_store busy_ring = Some demo_quik"
  "submittable (br_ring busy_ring ! 0)" "unat (buffer_len (br_ring busy_ring ! 0)) = 100"
  "state_writers (fb_state (br_ring busy_ring ! 0)) = 1"
proof -
  have w: "fb_state (br_ring busy_ring ! 0) = 0x6400000100" by simp
  show "ring_ok busy_ring" by (rule demo_ring_ok) simp_all
  show len: "unat (buffer_len (br_ring busy_ring ! 0)) = 100"
    unfolding buffer_len_eq w by (simp add: unat_state_offset)
  then show "buffer_len (br_ring busy_ring ! 0) \<noteq> 0" by auto
  show "submittable (br_ring busy_ring ! 0)"
    using demo_submittable [of "0x6400000100"] by (simp add: unat_state_offset)
  show "state_writers (fb_state (br_ring busy_ring ! 0)) = 1"
    unfolding w by (simp add: state_writers_def layout_consts)
qed simp_all

theorem flush_current_submits_witness:
  "\<exists>(e :: sqe) r'. flush_current Debug sim_api busy_ring = Done (Inr (), r')
     \<and> f_flushing (word_fields (br_ring r' ! 0)) \<and> f_writers (word_fields (br_ring r' ! 0)) = 1
     \<and> length (sqe_bytes e) = 4096"
proof -
  let ?b = "br_ring busy_ring ! 0"
  obtain e :: sqe and r' where c: "flush_current Debug sim_api busy_ring = Done (Inr (), r')"
    "word_fields (br_ring r' ! 0) = (word_fields ?b)\<lparr>f_sealed := True, f_flushing := True\<rparr>"
    "sqe_bytes e = take (round_up (unat (buffer_len ?b)) 4096) (buf_mem (fb_buf ?b))"
    using flush_current_submits [OF busy_ring_facts(1-6), of Debug sim_api] by blast
  have "length (sqe_bytes e) = 4096" unfolding c(3) busy_ring_facts(7) by (simp add: round_up_def)
  moreover have "f_flushing (word_fields (br_ring r' ! 0))" "f_writers (word_fields (br_ring r' ! 0)) = 1"
    using busy_ring_facts(8) unfolding c(2) by simp_all
  ultimately show ?thesis using c(1) by blast
qed

theorem flush_current_overlap_witness:
  "\<exists>(e :: sqe) r'. flush_current Debug sim_api busy_ring = Done (Inr (), r')
     \<and> unat (sqe_offset e) < unat (next_address r')
     \<and> unat (next_address r') < unat (sqe_offset e) + length (sqe_bytes e)"
proof -
  from busy_ring_facts(1-3) refl busy_ring_facts(4-6)
  obtain r' where r': "flush_current Debug sim_api busy_ring = Done (Inr (), r')"
    by (rule flush_current_cases [where pf = Debug and U = sim_api])
  have "unat (buffer_len (br_ring busy_ring ! 0)) < 2048" "unat (br_next_address_range busy_ring) < 2 ^ 63"
    by (simp_all only: busy_ring_facts(7) demo_ring_sel) simp_all
  from flush_current_overlap [OF busy_ring_facts(1-6) this r'] r' show ?thesis by blast
qed

section \<open>No path of \<open>put\<close> fails\<close>

text \<open>
  A ring fit for one-megabyte reservations: page-multiple buffers of at least that size, and
  no write offset past the mark.
\<close>

definition roomy :: "FlushBuffer \<Rightarrow> bool" where
  "roomy b \<longleftrightarrow> 1048576 \<le> unat (buf_size (fb_buf b)) \<and> 4096 dvd unat (buf_size (fb_buf b))
     \<and> unat (buf_size (fb_buf b)) < 2 ^ 32 \<and> unat (state_offset (fb_state b)) \<le> 1048576"

lemma roomy_submittable: "buffer_wf (fb_buf b) \<Longrightarrow> roomy b \<Longrightarrow> submittable b"
  by (simp add: roomy_def submittable_def)

lemma roomy_flags [simp]:
  "roomy (b\<lparr>fb_state := w OR FLUSH_IN_PROGRESS_BIT\<rparr>) = roomy (b\<lparr>fb_state := w\<rparr>)"
  "roomy (b\<lparr>fb_state := w OR SEALED_BIT\<rparr>) = roomy (b\<lparr>fb_state := w\<rparr>)"
  "roomy (b\<lparr>fb_local_address := a\<rparr>) = roomy b"
  by (simp_all add: roomy_def)

lemma flush_total:
  assumes "ring_ok r" and "i < length (br_ring r)" and "roomy (br_ring r ! i)"
  shows "\<exists>r'. flush pf U i r = Done r'"
proof (cases "br_store r")
  case None
  then show ?thesis by (simp add: flush_def Let_def)
next
  case (Some q)
  have "buffer_wf (fb_buf (br_ring r ! i))" using assms(1,2) by (simp add: ring_ok_def buffer_ok_def)
  then have "submittable (br_ring r ! i)" using assms(3) by (rule roomy_submittable)
  with assms(2) Some show ?thesis by (rule flush_submits) blast
qed

lemma dispatch_total:
  assumes "ring_ok r" and "i < length (br_ring r)" and "roomy (br_ring r ! i)"
  shows "\<exists>r'. dispatch pf U i r = Done r'"
  using flush_total [OF assms] by (simp add: dispatch_pos [OF assms(1,2)])

lemma sealed_ring_roomy:
  assumes "i < length (br_ring r)" and "roomy (br_ring r ! i)"
  shows "roomy (br_ring (sealed_ring i r) ! i)"
proof -
  have keep: "roomy (br_ring (snd (rotate_after_seal p s)) ! i)" if "i < length (br_ring s)" "roomy (br_ring s ! i)"
    for p and s :: "'a BufferRing"
    using that by (auto simp: rotate_after_seal_def rotate_scan_eq Let_def reserve_buf_addr_nth split: option.splits)
  show ?thesis using assms by (auto simp: sealed_ring_def Let_def intro!: keep)
qed

text \<open>The two kinds of call that change the ring: after a grant, and after \<open>InsufficientSpace\<close>.\<close>

lemma put_grant_total:
  assumes "ring_ok r" and "i < length (br_ring r)" and "roomy (br_ring r ! i)"
    and "unat offset + length payload \<le> unat (state_offset (fb_state (br_ring r ! i)))"
    and "0 < unat (state_writers (fb_state (br_ring r ! i)))"
  shows "\<exists>x r'. put pf U i (Inr offset) payload r = Done (x, r')"
proof -
  let ?r1 = "flag_flush i (on_buffer i (written offset payload) r)"
  have "buffer_wf (fb_buf (br_ring r ! i))" using assms(1,2) by (simp add: ring_ok_def buffer_ok_def)
  then have fits: "unat offset + length payload \<le> length (buf_mem (fb_buf (br_ring r ! i)))"
    using assms(3,4) by (simp add: roomy_def buffer_wf_def)
  note ok = ring_ok_flag_flush [OF ring_ok_written [OF assms(1,2) fits]]
  have len: "i < length (br_ring ?r1)" using assms(2) by simp
  have "roomy (br_ring ?r1 ! i)" using assms(2,3,5) by (simp add: roomy_def drop_writer_sel(3))
  then obtain r2 where "dispatch pf U i ?r1 = Done r2" using dispatch_total [OF ok len] by blast
  then show ?thesis by (simp add: put_writes [OF assms(2) fits] Let_def)
qed

lemma put_full_total:
  assumes "ring_ok r" and "i < length (br_ring r)" and "roomy (br_ring r ! i)"
  shows "\<exists>x r'. put pf U i (Inl InsufficientSpace) payload r = Done (x, r')"
proof -
  let ?r1 = "flag_flush i (sealed_ring i r)"
  have ok: "ring_ok ?r1" using assms(1) by (intro ring_ok_flag_flush ring_ok_sealed_ring)
  have len: "i < length (br_ring ?r1)" using assms(2) by simp
  have "roomy (br_ring ?r1 ! i)" using assms(2) sealed_ring_roomy [OF assms(2,3)] by simp
  then obtain r2 where "dispatch pf U i ?r1 = Done r2" using dispatch_total [OF ok len] by blast
  then show ?thesis by (simp add: put_insufficient [OF assms(2)] Let_def)
qed

text \<open>
  C20: \<open>put\<close> always returns. On a well-formed ring, for a buffer of at least one megabyte
  and a page-multiple size, and the result of a reservation (a granted range inside the
  buffer with a registered writer, or an error), every path through \<open>put\<close> ends in a
  message or an error: no panic and no access outside the allocation, in both build
  profiles, with or without dispatcher, flags and queue space. The resulting ring is
  well-formed again.
\<close>
theorem put_total:
  assumes "ring_ok r" and "i < length (br_ring r)" and "roomy (br_ring r ! i)"
    and "\<And>offset. res = Inr offset \<Longrightarrow> unat offset + length payload \<le> unat (state_offset (fb_state (br_ring r ! i)))
          \<and> 0 < unat (state_writers (fb_state (br_ring r ! i)))"
  shows "\<exists>x r'. put pf U i res payload r = Done (x, r') \<and> ring_ok r'"
proof -
  have "\<exists>x r'. put pf U i res payload r = Done (x, r')"
  proof (cases res)
    case (Inr offset)
    then show ?thesis using put_grant_total [OF assms(1-3)] assms(4) by simp
  next
    case (Inl e)
    then show ?thesis
      using put_full_total [OF assms(1-3), of pf U payload]
      by (cases e) (simp_all add: Inl put_def)
  qed
  then obtain x r' where p: "put pf U i res payload r = Done (x, r')" by blast
  have "ring_ok r'" using assms(1,2) p by (rule ring_ok_put)
  then show ?thesis using p by blast
qed

theorem put_total_witness:
  "\<exists>x r'. put Debug sim_api 0 (Inr 0) [1, 2] (demo_ring [0x200000100, 0] 1048576 (Some demo_quik) True) = Done (x, r')
     \<and> ring_ok r'"
proof (rule put_total)
  let ?r = "demo_ring [0x200000100, 0] 1048576 (Some demo_quik) True"
  have w: "fb_state (br_ring ?r ! 0) = 0x200000100" "unat (state_offset 0x200000100) = 2"
    by (simp_all add: unat_state_offset)
  show "ring_ok ?r" by (rule demo_ring_ok) simp_all
  show "roomy (br_ring ?r ! 0)" using w(2) by (simp add: roomy_def)
  have "0 < unat (state_writers 0x200000100)" by (simp add: state_writers_def layout_consts)
  then show "unat offset + length [1, 2 :: u8] \<le> unat (state_offset (fb_state (br_ring ?r ! 0)))
      \<and> 0 < unat (state_writers (fb_state (br_ring ?r ! 0)))" if "Inr 0 = (Inr offset :: BufferError + usize)" for offset
    using that w by simp
qed simp

section \<open>Completions\<close>

text \<open>The buffers of a ring are pinned at different, non-zero addresses.\<close>

definition distinct_places :: "'u BufferRing \<Rightarrow> bool" where
  "distinct_places r \<longleftrightarrow> distinct (map fb_addr (br_ring r)) \<and> 0 \<notin> set (map fb_addr (br_ring r))"

lemma find_buffer_place:
  assumes "distinct_places r" and "i < length (br_ring r)"
  shows "find_buffer (fb_addr (br_ring r ! i)) (br_ring r) = Some i" and "fb_addr (br_ring r ! i) \<noteq> 0"
proof -
  have "fb_addr (br_ring r ! j) \<noteq> fb_addr (br_ring r ! i)" if "j < i" for j
    using assms that nth_eq_iff_index_eq [of "map fb_addr (br_ring r)" j i] by (simp add: distinct_places_def)
  then show "find_buffer (fb_addr (br_ring r ! i)) (br_ring r) = Some i"
    using assms(2) by (simp add: find_buffer_def find_upt_Some_iff)
  show "fb_addr (br_ring r ! i) \<noteq> 0"
    using assms(1) nth_mem [OF assms(2)] by (force simp: distinct_places_def)
qed

lemma check_cque_round:
  assumes "br_store r = Some q" and "delivers U (cq_sync U (cq_sync U (quik_ring q))) cs u"
  shows "check_cque U r =
    (if cs = [] then Some (Done (Inr (), r\<lparr>br_store := Some (set_ring u q)\<rparr>))
     else case handle_cqes U cs (r\<lparr>br_store := Some (set_ring u q)\<rparr>) of
       Done r2 \<Rightarrow> check_cque U r2 | Panic \<Rightarrow> Some Panic | Undefined \<Rightarrow> Some Undefined)"
  by (subst check_cque.simps) (simp add: assms(1) quik_cqe_delivers [OF assms(2)] Let_def cong: outcome.case_cong)

lemma handle_success:
  assumes "distinct_places r" and "i < length (br_ring r)"
    and "cqe_user_data c = fb_addr (br_ring r ! i)" and "0 \<le> cqe_result c"
  shows "handle_cqe U c r = Done (reset_buffer i (r\<lparr>br_cq_tx := map_option (\<lambda>sent. sent @
      [(fb_local_address (br_ring r ! i), buffer_len (br_ring r ! i))]) (br_cq_tx r)\<rparr>))"
proof -
  have same: "r\<lparr>br_cq_tx := None\<rparr> = r" if "br_cq_tx r = None" using that by (cases r) simp
  show ?thesis
    using find_buffer_place [OF assms(1,2)] assms(3,4)
    by (cases "br_cq_tx r") (simp_all add: handle_cqe_def Let_def local_address_def same)
qed

lemma demo_distinct: "distinct_places (demo_ring [v, w] len store auto)"
  by (simp add: distinct_places_def demo_ring_def)

abbreviation quik_with :: "cqe list \<Rightarrow> sim QuikIO" where
  "quik_with cs \<equiv> Searalized \<lparr>bs_store = 3, bs_flusher = (sim_init 8 [])\<lparr>sim_cq := cs\<rparr>, bs_mode = SerializedWrites\<rparr>"

text \<open>One completion of a buffer in the queue, and then nothing more.\<close>

lemma check_cque_one:
  assumes "distinct_places r" and "i < length (br_ring r)" and "br_store r = Some q"
    and "cqe_user_data c = fb_addr (br_ring r ! i)" and "0 \<le> cqe_result c"
    and "delivers U (cq_sync U (cq_sync U (quik_ring q))) [c] u"
    and "delivers U (cq_sync U (cq_sync U u)) [] u'"
  shows "\<exists>r'. check_cque U r = Some (Done (Inr (), r'))
    \<and> map fb_addr (br_ring r') = map fb_addr (br_ring r)
    \<and> br_cq_tx r' = map_option (\<lambda>sent. sent @
        [(fb_local_address (br_ring r ! i), state_offset (fb_state (br_ring r ! i)))]) (br_cq_tx r)
    \<and> is_available (br_ring r' ! i) \<and> fb_local_address (br_ring r' ! i) = 0
    \<and> (\<forall>j < length (br_ring r). j \<noteq> i \<longrightarrow> br_ring r' ! j = br_ring r ! j)
    \<and> br_store r' = Some (set_ring u' q)"
proof -
  let ?r1 = "r\<lparr>br_store := Some (set_ring u q)\<rparr>"
  let ?r2 = "reset_buffer i (?r1\<lparr>br_cq_tx := map_option (\<lambda>sent. sent @
      [(fb_local_address (br_ring r ! i), buffer_len (br_ring r ! i))]) (br_cq_tx r)\<rparr>)"
  have "distinct_places ?r1" using assms(1) by (simp add: distinct_places_def)
  then have "handle_cqes U [c] ?r1 = Done ?r2"
    using handle_success [of ?r1 i c U] assms(2,4,5) by simp
  then have "check_cque U r = check_cque U ?r2"
    using check_cque_round [OF assms(3,6)] by simp
  moreover have st: "br_store ?r2 = Some (set_ring u q)" by (simp add: reset_buffer_def)
  moreover have "check_cque U ?r2 = Some (Done (Inr (), ?r2\<lparr>br_store := Some (set_ring u' q)\<rparr>))"
    using check_cque_round [OF st, of U "[]" u'] assms(7) by simp
  ultimately show ?thesis
    using assms(2)
    by (intro exI [of _ "?r2\<lparr>br_store := Some (set_ring u' q)\<rparr>"])
      (simp add: reset_buffer_eq map_on_buffer on_buffer_nth is_available_def buffer_len_eq)
qed

text \<open>
  C34: A successful completion. \<open>check_cque\<close>, finding the completion of buffer \<open>i\<close>'s write
  in the queue and then nothing more, sends the pair of the buffer's file offset and its
  unpadded byte count to the completion channel (if one is attached), once, makes the
  buffer available again, leaves the other buffers alone, and returns.
\<close>
theorem check_cque_success:
  assumes "distinct_places r" and "i < length (br_ring r)" and "br_store r = Some q"
    and "cqe_user_data c = fb_addr (br_ring r ! i)" and "0 \<le> cqe_result c"
    and "delivers U (cq_sync U (cq_sync U (quik_ring q))) [c] u"
    and "delivers U (cq_sync U (cq_sync U u)) [] u'"
  shows "\<exists>r'. check_cque U r = Some (Done (Inr (), r'))
    \<and> br_cq_tx r' = map_option (\<lambda>sent. sent @
        [(fb_local_address (br_ring r ! i), state_offset (fb_state (br_ring r ! i)))]) (br_cq_tx r)
    \<and> is_available (br_ring r' ! i) \<and> fb_local_address (br_ring r' ! i) = 0
    \<and> (\<forall>j < length (br_ring r). j \<noteq> i \<longrightarrow> br_ring r' ! j = br_ring r ! j)
    \<and> br_store r' = Some (set_ring u' q)"
proof -
  from check_cque_one [OF assms] show ?thesis by blast
qed

theorem check_cque_success_witness:
  "\<exists>r'. check_cque sim_api (demo_ring [0x6400000003, 0] 4096 (Some (quik_with [\<lparr>cqe_user_data = 64, cqe_result = 4096\<rparr>])) True)
      = Some (Done (Inr (), r'))
    \<and> br_cq_tx r' = Some [(0, 100)] \<and> is_available (br_ring r' ! 0)"
proof -
  let ?c = "\<lparr>cqe_user_data = 64, cqe_result = 4096\<rparr>"
  let ?q = "quik_with [?c]" and ?u = "(sim_init 8 [])\<lparr>sim_cq := []\<rparr>"
  let ?r = "demo_ring [0x6400000003, 0] 4096 (Some ?q) True"
  have d1: "delivers sim_api (cq_sync sim_api (cq_sync sim_api (quik_ring ?q))) [?c] ?u"
    by (rule delivers_some [where u' = ?u, OF _ delivers_none])
      (simp_all add: sim_api_def quik_ring_def)
  have d2: "delivers sim_api (cq_sync sim_api (cq_sync sim_api ?u)) [] ?u"
    by (rule delivers_none) (simp add: sim_api_def)
  have len: "0 < length (br_ring ?r)" and st: "br_store ?r = Some ?q"
    and ud: "cqe_user_data ?c = fb_addr (br_ring ?r ! 0)" and res: "0 \<le> cqe_result ?c" by simp_all
  have tx: "br_cq_tx ?r = Some []" by (simp add: demo_ring_def)
  have off: "state_offset (fb_state (br_ring ?r ! 0)) = 100" "fb_local_address (br_ring ?r ! 0) = 0"
    by (simp_all add: state_offset_def layout_consts)
  obtain r' where "check_cque sim_api ?r = Some (Done (Inr (), r'))"
    "br_cq_tx r' = map_option (\<lambda>sent. sent @
        [(fb_local_address (br_ring ?r ! 0), state_offset (fb_state (br_ring ?r ! 0)))]) (br_cq_tx ?r)"
    "is_available (br_ring r' ! 0)"
    using check_cque_success [OF demo_distinct len st ud res d1 d2] by blast
  then show ?thesis unfolding tx off by auto
qed

text \<open>
  A failed completion. The entry recorded in the buffer is pushed again as it is, so the
  retry writes the same bytes to the same place, and no buffer changes: the buffer stays
  closed until a later completion. If the submission queue is full at that moment the
  failure is dropped: the buffer stays closed and nothing will ever reopen it.
\<close>
theorem handle_failed_completion:
  assumes "distinct_places r" and "i < length (br_ring r)" and "br_store r = Some q"
    and "cqe_user_data c = fb_addr (br_ring r ! i)" and "cqe_result c < 0"
    and "fb_sqe (br_ring r ! i) = Some e"
  shows "\<exists>u. handle_cqe U c r = Done (r\<lparr>br_store := Some (set_ring u q)\<rparr>)
    \<and> u = snd (ring_submit U (case sq_push U e (quik_ring q) of None \<Rightarrow> quik_ring q | Some u' \<Rightarrow> u'))"
  using find_buffer_place [OF assms(1,2)] assms(3-6)
  by (simp add: handle_cqe_def Let_def)

theorem handle_failed_completion_witness:
  "\<exists>u. handle_cqe sim_api \<lparr>cqe_user_data = 64, cqe_result = - 5\<rparr>
      (on_buffer 0 (\<lambda>b. b\<lparr>fb_sqe := Some demo_entry\<rparr>) (demo_ring [3, 0] 4096 (Some demo_quik) True))
    = Done ((on_buffer 0 (\<lambda>b. b\<lparr>fb_sqe := Some demo_entry\<rparr>) (demo_ring [3, 0] 4096 (Some demo_quik) True))
        \<lparr>br_store := Some (set_ring u demo_quik)\<rparr>)
    \<and> sim_flight u = [demo_entry]"
proof -
  let ?r = "on_buffer 0 (\<lambda>b. b\<lparr>fb_sqe := Some demo_entry\<rparr>) (demo_ring [3, 0] 4096 (Some demo_quik) True)"
  let ?c = "\<lparr>cqe_user_data = 64, cqe_result = - 5\<rparr>"
  have "distinct_places ?r" by (simp add: distinct_places_def demo_ring_def on_buffer_def)
  moreover have "0 < length (br_ring ?r)" "br_store ?r = Some demo_quik"
    "cqe_user_data ?c = fb_addr (br_ring ?r ! 0)" "cqe_result ?c < 0" "fb_sqe (br_ring ?r ! 0) = Some demo_entry"
    by simp_all
  ultimately show ?thesis
    using handle_failed_completion [of ?r 0 demo_quik ?c demo_entry sim_api]
    by (auto simp: sim_api_def sim_init_def sim_submit_def quik_ring_def)
qed

section \<open>The ring as a dispenser of file ranges\<close>

text \<open>
  \<open>incrment_address\<close> below the top of the counter, as the dispenser of the backing file's
  address ranges. Every slot the ring assigns comes from it.
\<close>

definition claim_range :: "nat \<Rightarrow> 'u BufferRing \<Rightarrow> (nat \<times> 'u BufferRing) option" where
  "claim_range n r =
     (if unat (next_address r) + n < 2 ^ 64
      then case incrment_address (word_of_nat n) r of (slot, r') \<Rightarrow> Some (unat slot, r')
      else None)"

definition file_end :: "'u BufferRing \<Rightarrow> nat" where
  "file_end r = unat (next_address r)"

definition keeps_address :: "('u BufferRing \<Rightarrow> 'u BufferRing) \<Rightarrow> bool" where
  "keeps_address f \<longleftrightarrow> (\<forall>r. next_address (f r) = next_address r)"

lemma claim_range_Some:
  assumes "claim_range n r = Some (start, r')"
  shows "start = file_end r" and "file_end r' = start + n" and "start + n \<le> 2 ^ 64 - 1"
proof -
  have less: "unat (next_address r) + n < 2 ^ 64" and start: "start = file_end r"
    and r': "r' = r\<lparr>br_next_address_range := br_next_address_range r + word_of_nat n\<rparr>"
    using assms by (auto simp: claim_range_def file_end_def next_address_def split: if_splits)
  have "unat (word_of_nat n :: usize) = n" using less by (intro unat_word_of_nat_usize) simp
  then have "file_end r' = unat (next_address r) + n"
    using less by (simp add: file_end_def r' next_address_def unat_add_no_overflow)
  then show "start = file_end r" "file_end r' = start + n" "start + n \<le> 2 ^ 64 - 1"
    using less start by (simp_all add: file_end_def)
qed

interpretation slots: bounded_dispenser claim_range file_end keeps_address "2 ^ 64 - 1"
  by unfold_locales (auto simp: claim_range_Some keeps_address_def file_end_def dest: claim_range_Some)

text \<open>
  The file ranges claimed from the ring's address counter. As long as the counter does
  not reach the top of its type, successive claims, with any other activity that leaves the
  counter alone in between, are in order and pairwise disjoint, and the counter is where
  the last one ends. So two buffers whose writes stay inside the ranges claimed for them
  never overwrite each other's data in the file.
\<close>
lemma claimed_slots_disjoint:
  assumes "\<And>i. keeps_address (between i)" and "serve claim_range between ns r = (rs, r')"
  shows "(\<forall>i j. i < j \<longrightarrow> j < length rs \<longrightarrow> fst (rs ! i) + snd (rs ! i) \<le> fst (rs ! j))
    \<and> (\<forall>(start, n) \<in> set rs. file_end r \<le> start \<and> start + n \<le> file_end r')
    \<and> file_end r' = file_end r + sum_list (map snd rs)"
  using slots.serve_disjoint [OF assms] slots.serve_ranges [OF assms] by blast

theorem claimed_slots_disjoint_witness:
  "\<exists>r'. serve claim_range (\<lambda>_. reset_buffer 0) [4096, 100, 8192] (demo_ring [3, 0] 4096 (None :: unit QuikIO option) True)
      = ([(0, 4096), (4096, 100), (4196, 8192)], r')
    \<and> file_end r' = 12388"
proof -
  let ?r = "demo_ring [3, 0] 4096 (None :: unit QuikIO option) True"
  have k: "keeps_address (reset_buffer 0 :: unit BufferRing \<Rightarrow> _)"
    by (simp add: keeps_address_def reset_buffer_def next_address_def)
  obtain rs r' where e: "serve claim_range (\<lambda>_. reset_buffer 0) [4096, 100, 8192] ?r = (rs, r')" by fastforce
  moreover have "rs = [(0, 4096), (4096, 100), (4196, 8192)]"
    using e by (simp add: claim_range_def next_address_def reset_buffer_def)
  moreover have "file_end ?r = 0" by (simp add: file_end_def next_address_def)
  ultimately show ?thesis using claimed_slots_disjoint [OF k e] by simp
qed

end
