(* ===== verification/Buffer_Protocol.thy ===== *)
theory Buffer_Protocol
  imports Flush_Buffer
begin

text \<open>
  The flush protocol of one buffer under interleaving. Any number of threads run the client
  sequence of \<^verbatim>\<open>reserve_space\<close> (\<^verbatim>\<open>src/src/flush_buffer.rs\<close>) followed by \<^verbatim>\<open>put\<close>
  (\<^verbatim>\<open>src/src/ring.rs\<close>) on the same buffer; the kernel completes writes, and
  \<^verbatim>\<open>check_cque\<close> resets the buffer. One step is one access to shared memory, so the steps of
  different threads interleave between any two accesses of a method.
\<close>

section \<open>States\<close>

text \<open>
  Where a thread stands:
  \<^item> \<open>Idle\<close>: outside the buffer;
  \<^item> \<open>Loaded w payload\<close>: in \<open>reserve_space\<close>, checks of the word \<open>w\<close> passed, exchange to come;
  \<^item> \<open>Holding off payload k\<close>: the reservation succeeded, the copy is to come. \<open>k\<close> is a ghost:
    the number of the reservation in the buffer's current life;
  \<^item> \<open>Copied off payload k\<close>: payload copied, \<open>decrement_writers\<close> to come;
  \<^item> \<open>LastOut\<close>: was the last writer of a sealed buffer, \<open>set_flush_in_progress\<close> to come;
  \<^item> \<open>Full\<close>: saw \<open>InsufficientSpace\<close>, the sealing \<open>fetch_or\<close> to come;
  \<^item> \<open>Sealer\<close>: sealed the buffer, the store of the address slot to come;
  \<^item> \<open>Slotted\<close>: slot stored, the look at the writer count to come;
  \<^item> \<open>SawIdle\<close>: saw no writer, \<open>set_flush_in_progress\<close> to come;
  \<^item> \<open>Owner\<close>: won the flush, the \<open>fetch_or\<close> of \<open>flush\<close> or the reset to come;
  \<^item> \<open>Marked\<close>: in \<open>flush\<close>, the load of the word for the slice to come;
  \<^item> \<open>Sliced len\<close>: has the slice, of \<open>len\<close> bytes, the load of the address to come;
  \<^item> \<open>Addressed len at\<close>: has the address, the push under the lock of the instance to come;
  \<^item> \<open>Clearing\<close>: in \<open>reset_buffer\<close>, the store of the address to come.
\<close>

datatype thread =
    Idle
  | Loaded usize "u8 list"
  | Holding usize "u8 list" nat
  | Copied usize "u8 list" nat
  | LastOut
  | Full
  | Sealer
  | Slotted
  | SawIdle
  | Owner
  | Marked
  | Sliced nat
  | Addressed nat u64
  | Clearing

text \<open>
  Three ghosts. \<open>ps_inflight\<close>: the write of the buffer is with the kernel, or its completion is
  yet to be handled. \<open>ps_dropped\<close>: the submission queue was full when the entry of the buffer
  was pushed, or pushed again after a failed write, and the error was dropped. \<open>ps_log\<close>: the
  payloads of the reservations granted since the last reset, in the order of the grants.
\<close>

record protocol =
  ps_buf :: FlushBuffer
  ps_thread :: "nat \<Rightarrow> thread"
  ps_inflight :: bool
  ps_dropped :: bool
  ps_log :: "u8 list list"

abbreviation word_of :: "protocol \<Rightarrow> usize" where
  "word_of s \<equiv> fb_state (ps_buf s)"

text \<open>The threads that are counted as writers, and those deciding whether to flush.\<close>

fun holds :: "thread \<Rightarrow> bool" where
  "holds (Holding off payload k) = True"
| "holds (Copied off payload k) = True"
| "holds _ = False"

fun decides :: "thread \<Rightarrow> bool" where
  "decides LastOut = True"
| "decides Sealer = True"
| "decides Slotted = True"
| "decides SawIdle = True"
| "decides _ = False"

text \<open>The threads that have won the flush and not yet handed it over.\<close>

fun owns :: "thread \<Rightarrow> bool" where
  "owns Owner = True"
| "owns Marked = True"
| "owns (Sliced len) = True"
| "owns (Addressed len at) = True"
| "owns _ = False"

definition holders :: "protocol \<Rightarrow> nat set" where
  "holders s = {t. holds (ps_thread s t)}"

text \<open>No thread is on its way to a flush of the buffer.\<close>

definition settled :: "protocol \<Rightarrow> bool" where
  "settled s \<longleftrightarrow> (\<forall>t. \<not> decides (ps_thread s t))"

abbreviation goto :: "nat \<Rightarrow> thread \<Rightarrow> protocol \<Rightarrow> protocol" where
  "goto t l s \<equiv> s\<lparr>ps_thread := (ps_thread s)(t := l)\<rparr>"

section \<open>Steps\<close>

text \<open>
  The entry \<open>submit\<close> builds of a slice of \<open>len\<close> bytes and an address; the file descriptor and
  the link flag are the dispatcher's.
\<close>

definition entry_for :: "FlushBuffer \<Rightarrow> nat \<Rightarrow> u64 \<Rightarrow> sqe \<Rightarrow> bool" where
  "entry_for b len at e \<longleftrightarrow> sqe_opcode e = WriteOp (buf_ptr (fb_buf b)) (word_of_nat len) \<and> sqe_offset e = at
     \<and> sqe_user_data e = fb_user_data b
     \<and> sqe_bytes e = take (unat (word_of_nat len :: u32)) (take len (buf_mem (fb_buf b)))"

text \<open>
  A step of thread \<open>t\<close> out of \<open>N\<close>. With \<open>calm\<close> the scheduler never resets the buffer while
  another thread decides about a flush of it; the program itself enforces nothing of the
  kind. \<open>push\<close> is the critical section of \<open>submit\<close>: the push and the store of the entry, under
  the lock of the instance; \<open>push_full\<close> is its other outcome, the error that
  \<open>submit_buffer\<close> drops. \<open>complete\<close> is the reset after a successful write; after a failed one
  the recorded entry is pushed again, and if it is taken (\<open>retry\<close>) the write is with the
  kernel as before, while \<open>retry_full\<close> drops it for good. \<open>assign\<close> is a rotation to the
  buffer by a thread of some other buffer (\<open>reserve_buf_addr\<close>), which may happen at any time.
\<close>

inductive pstep :: "profile \<Rightarrow> bool \<Rightarrow> nat \<Rightarrow> protocol \<Rightarrow> protocol \<Rightarrow> bool"
  for pf :: profile and calm :: bool and N :: nat where
  load: "t < N \<Longrightarrow> ps_thread s t = Idle \<Longrightarrow> length payload < 2 ^ 64 \<Longrightarrow>
    reserve_check pf (word_of_nat (length payload)) (word_of s) = Done (Inr grant) \<Longrightarrow>
    pstep pf calm N s (goto t (Loaded (word_of s) payload) s)"
| load_full: "t < N \<Longrightarrow> ps_thread s t = Idle \<Longrightarrow>
    reserve_check pf n (word_of s) = Done (Inl InsufficientSpace) \<Longrightarrow>
    pstep pf calm N s (goto t Full s)"
| exchange: "ps_thread s t = Loaded w payload \<Longrightarrow>
    reserve_check pf (word_of_nat (length payload)) w = Done (Inr (off, new)) \<Longrightarrow>
    cas_state w new (ps_buf s) = (True, b) \<Longrightarrow>
    pstep pf calm N s ((goto t (Holding off payload (length (ps_log s))) s)
      \<lparr>ps_buf := b, ps_log := ps_log s @ [payload]\<rparr>)"
| exchange_fails: "ps_thread s t = Loaded w payload \<Longrightarrow>
    cas_state w new (ps_buf s) = (False, b) \<Longrightarrow>
    pstep pf calm N s ((goto t Idle s)\<lparr>ps_buf := b\<rparr>)"
| copy: "ps_thread s t = Holding off payload k \<Longrightarrow>
    write_buffer off payload (ps_buf s) = Done b \<Longrightarrow>
    pstep pf calm N s ((goto t (Copied off payload k) s)\<lparr>ps_buf := b\<rparr>)"
| leave: "ps_thread s t = Copied off payload k \<Longrightarrow>
    decrement_writers (ps_buf s) = (prev, b) \<Longrightarrow>
    pstep pf calm N s ((goto t (if state_writers prev = 1 \<and> state_sealed prev then LastOut else Idle) s)
      \<lparr>ps_buf := b\<rparr>)"
| seal_full: "ps_thread s t = Full \<Longrightarrow>
    pstep pf calm N s ((goto t (if word_of s AND SEALED_BIT \<noteq> 0 then Idle else Sealer) s)
      \<lparr>ps_buf := (ps_buf s)\<lparr>fb_state := word_of s OR SEALED_BIT\<rparr>\<rparr>)"
| claim_slot: "ps_thread s t = Sealer \<Longrightarrow>
    pstep pf calm N s ((goto t Slotted s)\<lparr>ps_buf := (ps_buf s)\<lparr>fb_local_address := slot\<rparr>\<rparr>)"
| look: "ps_thread s t = Slotted \<Longrightarrow>
    pstep pf calm N s (goto t (if state_writers (word_of s) = 0 then SawIdle else Idle) s)"
| flag: "ps_thread s t \<in> {LastOut, SawIdle} \<Longrightarrow>
    set_flush_in_progress (ps_buf s) = (before, b) \<Longrightarrow>
    pstep pf calm N s ((goto t (if before AND FLUSH_IN_PROGRESS_BIT = 0 then Owner else Idle) s)
      \<lparr>ps_buf := b\<rparr>)"
| mark: "ps_thread s t = Owner \<Longrightarrow> set_flush_in_progress (ps_buf s) = (before, b) \<Longrightarrow>
    pstep pf calm N s ((goto t Marked s)\<lparr>ps_buf := b\<rparr>)"
| slice: "ps_thread s t = Marked \<Longrightarrow> fb_buffer_data pf (ps_buf s) = Done data \<Longrightarrow>
    pstep pf calm N s (goto t (Sliced (length (snd data))) s)"
| address: "ps_thread s t = Sliced len \<Longrightarrow>
    pstep pf calm N s (goto t (Addressed len (fb_offset (ps_buf s))) s)"
| push: "ps_thread s t = Addressed len at \<Longrightarrow> entry_for (ps_buf s) len at e \<Longrightarrow>
    pstep pf calm N s ((goto t Idle s)\<lparr>ps_buf := fb_submit_entry e (ps_buf s), ps_inflight := True\<rparr>)"
| push_full: "ps_thread s t = Addressed len at \<Longrightarrow>
    pstep pf calm N s ((goto t Idle s)\<lparr>ps_dropped := True\<rparr>)"
| release: "ps_thread s t = Owner \<Longrightarrow> (calm \<longrightarrow> settled s) \<Longrightarrow>
    pstep pf calm N s ((goto t Clearing s)\<lparr>ps_buf := (ps_buf s)\<lparr>fb_state := 0\<rparr>, ps_log := []\<rparr>)"
| retry: "ps_inflight s \<Longrightarrow> fb_sqe (ps_buf s) = Some e \<Longrightarrow> pstep pf calm N s s"
| retry_full: "ps_inflight s \<Longrightarrow>
    pstep pf calm N s (s\<lparr>ps_inflight := False, ps_dropped := True\<rparr>)"
| complete: "t < N \<Longrightarrow> ps_thread s t = Idle \<Longrightarrow> ps_inflight s \<Longrightarrow> (calm \<longrightarrow> settled s) \<Longrightarrow>
    pstep pf calm N s ((goto t Clearing s)
      \<lparr>ps_buf := (ps_buf s)\<lparr>fb_state := 0\<rparr>, ps_inflight := False, ps_log := []\<rparr>)"
| clear_slot: "ps_thread s t = Clearing \<Longrightarrow>
    pstep pf calm N s ((goto t Idle s)\<lparr>ps_buf := (ps_buf s)\<lparr>fb_local_address := 0\<rparr>\<rparr>)"
| assign: "fb_local_address (ps_buf s) = 0 \<Longrightarrow>
    pstep pf calm N s (s\<lparr>ps_buf := (ps_buf s)\<lparr>fb_local_address := slot\<rparr>\<rparr>)"

text \<open>The states reachable from a buffer as \<open>new_buffer\<close> makes it.\<close>

definition start_state :: "FlushBuffer \<Rightarrow> protocol" where
  "start_state b = \<lparr>ps_buf = b, ps_thread = (\<lambda>_. Idle), ps_inflight = False, ps_dropped = False,
     ps_log = []\<rparr>"

inductive reachable :: "profile \<Rightarrow> bool \<Rightarrow> nat \<Rightarrow> protocol \<Rightarrow> bool"
  for pf :: profile and calm :: bool and N :: nat where
  start: "fb_state b = 0 \<Longrightarrow> 1048576 \<le> length (buf_mem (fb_buf b)) \<Longrightarrow>
    reachable pf calm N (start_state b)"
| step: "reachable pf calm N s \<Longrightarrow> pstep pf calm N s s' \<Longrightarrow> reachable pf calm N s'"

section \<open>The flush has one owner\<close>

text \<open>
  Whether the flag bit is set, and who is responsible for it: a thread that won the flush, or
  the write in flight, or nobody any more, after a refused push. This holds under every
  schedule.
\<close>

definition owners :: "protocol \<Rightarrow> nat set" where
  "owners s = {t. owns (ps_thread s t)}"

lemma owners_goto:
  "owners (goto t l s) = (if owns l then insert t (owners s) else owners s - {t})"
  by (auto simp: owners_def)

lemma owners_frame [simp]:
  "owners (s\<lparr>ps_buf := b\<rparr>) = owners s" "owners (s\<lparr>ps_inflight := i\<rparr>) = owners s"
  "owners (s\<lparr>ps_dropped := d\<rparr>) = owners s" "owners (s\<lparr>ps_log := g\<rparr>) = owners s"
  by (simp_all add: owners_def)

lemma owners_iff: "t \<in> owners s \<longleftrightarrow> owns (ps_thread s t)"
  by (simp add: owners_def)

definition one_owner :: "protocol \<Rightarrow> bool" where
  "one_owner s \<longleftrightarrow>
     (if state_flush_in_progress (word_of s)
      then if ps_inflight s \<or> ps_dropped s then owners s = {} \<and> \<not> (ps_inflight s \<and> ps_dropped s)
           else \<exists>t. owners s = {t}
      else \<not> ps_inflight s \<and> \<not> ps_dropped s \<and> owners s = {})"

lemma one_owner_flag: "one_owner s \<Longrightarrow> owns (ps_thread s t) \<Longrightarrow> state_flush_in_progress (word_of s)"
  by (auto simp: one_owner_def owners_def split: if_splits)

lemma drop_writer_flags:
  "state_sealed (w - WRITER_ONE) = state_sealed w"
  "state_flush_in_progress (w - WRITER_ONE) = state_flush_in_progress w"
proof -
  let ?v = "fields_of (w - WRITER_ONE)"
  have "f_sealed ?v = f_sealed (fields_of w)" "f_flushing ?v = f_flushing (fields_of w)"
    unfolding fields_of_drop_writer_cases by (simp_all add: Let_def del: fields_sel)
  then show "state_sealed (w - WRITER_ONE) = state_sealed w"
    "state_flush_in_progress (w - WRITER_ONE) = state_flush_in_progress w" by simp_all
qed

lemma add_writer_flags:
  assumes "unat (state_offset w) + unat n \<le> 1048576"
  shows "state_sealed (w + n * OFFSET_ONE + WRITER_ONE) = state_sealed w"
    "state_flush_in_progress (w + n * OFFSET_ONE + WRITER_ONE) = state_flush_in_progress w"
  using drop_writer_flags [of "w + n * OFFSET_ONE + WRITER_ONE"] fields_of_add [of w "unat n" 0] assms
    writers_bound [of w]
  by (simp_all add: fields_of_def)

lemma reserve_check_grant:
  assumes "reserve_check pf n w = Done (Inr (off, new))"
  shows "\<not> state_sealed w" "\<not> state_flush_in_progress w" "off = state_offset w"
    "new = w + n * OFFSET_ONE + WRITER_ONE" "unat (state_offset w) + unat n \<le> 1048576"
  using assms by (auto simp: reserve_check_eq split: if_splits)

lemma cas_state_True: "cas_state w new b = (True, b') \<longleftrightarrow> fb_state b = w \<and> b' = b\<lparr>fb_state := new\<rparr>"
  by (auto simp: cas_state_def)

lemma cas_state_False: "cas_state w new b = (False, b') \<longleftrightarrow> fb_state b \<noteq> w \<and> b' = b"
  by (auto simp: cas_state_def)

lemma write_buffer_Done:
  "write_buffer off payload b = Done b' \<longleftrightarrow> unat off + length payload \<le> length (buf_mem (fb_buf b))
     \<and> b' = b\<lparr>fb_buf := (fb_buf b)\<lparr>buf_mem := blit (unat off) payload (buf_mem (fb_buf b))\<rparr>\<rparr>"
  by (auto simp: write_buffer_def copy_into_def)

lemmas step_simps = cas_state_True cas_state_False write_buffer_Done decrement_writers_def
  set_flush_in_progress_def fb_submit_entry_def

lemma flag_clear [simp]:
  "w AND FLUSH_IN_PROGRESS_BIT = 0 \<longleftrightarrow> \<not> state_flush_in_progress w"
  "w AND SEALED_BIT = 0 \<longleftrightarrow> \<not> state_sealed w"
  by (simp_all add: state_flush_in_progress_def state_sealed_def)

text \<open>What a step does, with the operations of the buffer worked out.\<close>

lemma pstep_effects:
  assumes "pstep pf calm N s s'"
  obtains
    (load) t payload where "t < N" "ps_thread s t = Idle" "length payload < 2 ^ 64"
      "open_word (word_of s)" "s' = goto t (Loaded (word_of s) payload) s"
  | (load_full) t where "t < N" "ps_thread s t = Idle" "s' = goto t Full s"
  | (exchange) t payload where "ps_thread s t = Loaded (word_of s) payload"
      "open_word (word_of s)"
      "unat (state_offset (word_of s)) + unat (word_of_nat (length payload) :: usize) \<le> 1048576"
      "s' = (goto t (Holding (state_offset (word_of s)) payload (length (ps_log s))) s)
        \<lparr>ps_buf := (ps_buf s)\<lparr>fb_state := word_of s + word_of_nat (length payload) * OFFSET_ONE + WRITER_ONE\<rparr>,
         ps_log := ps_log s @ [payload]\<rparr>"
  | (exchange_fails) t w payload where "ps_thread s t = Loaded w payload" "s' = goto t Idle s"
  | (copy) t off payload k where "ps_thread s t = Holding off payload k"
      "unat off + length payload \<le> length (buf_mem (fb_buf (ps_buf s)))"
      "s' = (goto t (Copied off payload k) s)
        \<lparr>ps_buf := (ps_buf s)\<lparr>fb_buf := (fb_buf (ps_buf s))
           \<lparr>buf_mem := blit (unat off) payload (buf_mem (fb_buf (ps_buf s)))\<rparr>\<rparr>\<rparr>"
  | (leave) t off payload k where "ps_thread s t = Copied off payload k"
      "s' = (goto t (if state_writers (word_of s) = 1 \<and> state_sealed (word_of s) then LastOut else Idle) s)
        \<lparr>ps_buf := (ps_buf s)\<lparr>fb_state := word_of s - WRITER_ONE\<rparr>\<rparr>"
  | (seal_full) t where "ps_thread s t = Full"
      "s' = (goto t (if state_sealed (word_of s) then Idle else Sealer) s)
        \<lparr>ps_buf := (ps_buf s)\<lparr>fb_state := word_of s OR SEALED_BIT\<rparr>\<rparr>"
  | (claim_slot) t slot where "ps_thread s t = Sealer"
      "s' = (goto t Slotted s)\<lparr>ps_buf := (ps_buf s)\<lparr>fb_local_address := slot\<rparr>\<rparr>"
  | (look) t where "ps_thread s t = Slotted"
      "s' = goto t (if state_writers (word_of s) = 0 then SawIdle else Idle) s"
  | (flag) t where "ps_thread s t = LastOut \<or> ps_thread s t = SawIdle"
      "s' = (goto t (if state_flush_in_progress (word_of s) then Idle else Owner) s)
        \<lparr>ps_buf := (ps_buf s)\<lparr>fb_state := word_of s OR FLUSH_IN_PROGRESS_BIT\<rparr>\<rparr>"
  | (mark) t where "ps_thread s t = Owner"
      "s' = (goto t Marked s)\<lparr>ps_buf := (ps_buf s)\<lparr>fb_state := word_of s OR FLUSH_IN_PROGRESS_BIT\<rparr>\<rparr>"
  | (slice) t data where "ps_thread s t = Marked" "fb_buffer_data pf (ps_buf s) = Done data"
      "s' = goto t (Sliced (length (snd data))) s"
  | (address) t len where "ps_thread s t = Sliced len"
      "s' = goto t (Addressed len (fb_offset (ps_buf s))) s"
  | (push) t len at e where "ps_thread s t = Addressed len at" "entry_for (ps_buf s) len at e"
      "s' = (goto t Idle s)\<lparr>ps_buf := (ps_buf s)\<lparr>fb_sqe := Some e\<rparr>, ps_inflight := True\<rparr>"
  | (push_full) t len at where "ps_thread s t = Addressed len at"
      "s' = (goto t Idle s)\<lparr>ps_dropped := True\<rparr>"
  | (release) t where "ps_thread s t = Owner" "calm \<longrightarrow> settled s"
      "s' = (goto t Clearing s)\<lparr>ps_buf := (ps_buf s)\<lparr>fb_state := 0\<rparr>, ps_log := []\<rparr>"
  | (retry) "ps_inflight s" "s' = s"
  | (retry_full) "ps_inflight s" "s' = s\<lparr>ps_inflight := False, ps_dropped := True\<rparr>"
  | (complete) t where "t < N" "ps_thread s t = Idle" "ps_inflight s" "calm \<longrightarrow> settled s"
      "s' = (goto t Clearing s)
        \<lparr>ps_buf := (ps_buf s)\<lparr>fb_state := 0\<rparr>, ps_inflight := False, ps_log := []\<rparr>"
  | (clear_slot) t where "ps_thread s t = Clearing"
      "s' = (goto t Idle s)\<lparr>ps_buf := (ps_buf s)\<lparr>fb_local_address := 0\<rparr>\<rparr>"
  | (assign) slot where "s' = s\<lparr>ps_buf := (ps_buf s)\<lparr>fb_local_address := slot\<rparr>\<rparr>"
  using assms
proof cases
  case (exchange t w payload off new b)
  have "word_of s = w" "b = (ps_buf s)\<lparr>fb_state := new\<rparr>" using exchange(4) by (auto simp: cas_state_True)
  then show ?thesis
    using exchange(1,2) reserve_check_grant [OF exchange(3)] by (intro that(3)) simp_all
next
  case (exchange_fails t w payload new b)
  then show ?thesis by (intro that(4) [of t w payload]) (simp_all add: cas_state_False)
next
  case (copy t off payload k b)
  then show ?thesis by (intro that(5) [of t off payload k]) (simp_all add: write_buffer_Done)
next
  case (leave t off payload k prev b)
  have "prev = word_of s" "b = (ps_buf s)\<lparr>fb_state := word_of s - WRITER_ONE\<rparr>"
    using leave(3) by (auto simp: decrement_writers_def)
  then show ?thesis using leave(1,2) by (intro that(6) [of t off payload k]) simp_all
next
  case (flag t before b)
  have "before = word_of s" "b = (ps_buf s)\<lparr>fb_state := word_of s OR FLUSH_IN_PROGRESS_BIT\<rparr>"
    using flag(3) by (auto simp: set_flush_in_progress_def)
  then show ?thesis using flag(1,2) by (intro that(10) [of t]) simp_all
next
  case (mark t before b)
  have "b = (ps_buf s)\<lparr>fb_state := word_of s OR FLUSH_IN_PROGRESS_BIT\<rparr>"
    using mark(3) by (auto simp: set_flush_in_progress_def)
  then show ?thesis using mark(1,2) by (intro that(11) [of t]) simp_all
next
  case (push t len at e)
  then show ?thesis by (intro that(14) [of t len at e]) (simp_all add: fb_submit_entry_def)
next
  case (retry e)
  then show ?thesis by (intro that(17))
next
  case (load t payload grant)
  moreover obtain off new where "grant = (off, new)" by fastforce
  ultimately show ?thesis
    using reserve_check_grant [of pf "word_of_nat (length payload)" "word_of s" off new]
    by (intro that(1) [of t payload]) simp_all
next
  case (load_full t n)
  then show ?thesis by (intro that(2) [of t])
next
  case (seal_full t)
  then show ?thesis by (intro that(7) [of t]) simp_all
qed (rule that; assumption)+

lemma one_owner_step:
  assumes "pstep pf calm N s s'" and "one_owner s"
  shows "one_owner s'"
proof -
  have keep: "one_owner s'" if "owners s' = owners s" "ps_inflight s' = ps_inflight s" "ps_dropped s' = ps_dropped s"
    "state_flush_in_progress (word_of s') = state_flush_in_progress (word_of s)" for s'
    using assms(2) unfolding one_owner_def that .
  from assms(1) show ?thesis
  proof (cases rule: pstep_effects)
    case (exchange t payload)
    then show ?thesis
      using add_writer_flags [of "word_of s" "word_of_nat (length payload)"]
      by (intro keep) (simp_all add: owners_goto owners_iff)
  next
    case (flag t)
    then have t: "t \<notin> owners s" by (auto simp: owners_iff)
    show ?thesis
      unfolding flag(2) using assms(2) t by (auto simp: one_owner_def owners_goto split: if_splits)
  next
    case (mark t)
    then have t: "t \<in> owners s" "state_flush_in_progress (word_of s)"
      using one_owner_flag [OF assms(2), of t] by (simp_all add: owners_iff)
    then show ?thesis by (intro keep) (simp_all add: mark(2) owners_goto insert_absorb)
  next
    case (push t len at e)
    then have t: "t \<in> owners s" by (simp add: owners_iff)
    show ?thesis
      unfolding push(3) using assms(2) t by (auto simp: one_owner_def owners_goto split: if_splits)
  next
    case (push_full t len at)
    then have t: "t \<in> owners s" by (simp add: owners_iff)
    show ?thesis
      unfolding push_full(2) using assms(2) t by (auto simp: one_owner_def owners_goto split: if_splits)
  next
    case retry_full
    then show ?thesis using assms(2) by (simp add: one_owner_def split: if_splits)
  next
    case (release t)
    then have t: "t \<in> owners s" by (simp add: owners_iff)
    show ?thesis
      unfolding release(3) using assms(2) t by (auto simp: one_owner_def owners_goto split: if_splits)
  next
    case (complete t)
    show ?thesis
      unfolding complete(5) using assms(2) complete(3) by (simp add: one_owner_def owners_goto split: if_splits)
  qed ((rule keep; simp add: owners_goto owners_iff insert_absorb drop_writer_flags)+)
qed

section \<open>Calm schedules\<close>

text \<open>The reservation a thread holds: offset, payload and number.\<close>

fun grant_of :: "thread \<Rightarrow> (usize \<times> u8 list \<times> nat) option" where
  "grant_of (Holding off payload k) = Some (off, payload, k)"
| "grant_of (Copied off payload k) = Some (off, payload, k)"
| "grant_of _ = None"

lemma holds_grant: "holds l \<longleftrightarrow> grant_of l \<noteq> None"
  by (cases l) simp_all

lemma holders_goto:
  "holders (goto t l s) = (if holds l then insert t (holders s) else holders s - {t})"
  by (auto simp: holders_def)

lemma holders_frame [simp]:
  "holders (s\<lparr>ps_buf := b\<rparr>) = holders s" "holders (s\<lparr>ps_inflight := i\<rparr>) = holders s"
  "holders (s\<lparr>ps_dropped := d\<rparr>) = holders s" "holders (s\<lparr>ps_log := g\<rparr>) = holders s"
  by (simp_all add: holders_def)

lemma holders_iff: "t \<in> holders s \<longleftrightarrow> holds (ps_thread s t)"
  by (simp add: holders_def)

text \<open>The first byte of the \<open>k\<close>-th reservation of a log.\<close>

definition start_of :: "u8 list list \<Rightarrow> nat \<Rightarrow> nat" where
  "start_of log k = length (concat (take k log))"

text \<open>
  The invariant of the calm schedules, in four parts: the writer count counts the holders;
  the log accounts for the write offset and for every reservation held; every logged
  payload is in memory unless its thread has yet to copy it; and a sealed buffer is on its
  way to a flush by exactly the threads that can see to it.
\<close>

definition counted :: "nat \<Rightarrow> protocol \<Rightarrow> bool" where
  "counted N s \<longleftrightarrow> (\<forall>t. ps_thread s t \<noteq> Idle \<longrightarrow> t < N)
     \<and> unat (state_writers (word_of s)) = card (holders s)"

definition logged :: "protocol \<Rightarrow> bool" where
  "logged s \<longleftrightarrow> unat (state_offset (word_of s)) = length (concat (ps_log s))
     \<and> length (concat (ps_log s)) \<le> 1048576
     \<and> (\<forall>t off payload k. grant_of (ps_thread s t) = Some (off, payload, k) \<longrightarrow>
          k < length (ps_log s) \<and> ps_log s ! k = payload \<and> unat off = start_of (ps_log s) k)
     \<and> (\<forall>t t' off off' payload payload' k. grant_of (ps_thread s t) = Some (off, payload, k) \<longrightarrow>
          grant_of (ps_thread s t') = Some (off', payload', k) \<longrightarrow> t = t')
     \<and> (\<forall>t w payload. ps_thread s t = Loaded w payload \<longrightarrow> length payload < 2 ^ 64)"

definition stored :: "protocol \<Rightarrow> bool" where
  "stored s \<longleftrightarrow> 1048576 \<le> length (buf_mem (fb_buf (ps_buf s)))
     \<and> (\<forall>k < length (ps_log s).
          (\<exists>t off payload. ps_thread s t = Holding off payload k)
          \<or> take (length (ps_log s ! k)) (drop (start_of (ps_log s) k) (buf_mem (fb_buf (ps_buf s))))
            = ps_log s ! k)"

definition closing :: "protocol \<Rightarrow> bool" where
  "closing s \<longleftrightarrow> (\<forall>t. decides (ps_thread s t) \<longrightarrow> state_sealed (word_of s))
     \<and> (\<forall>t. ps_thread s t \<in> {LastOut, SawIdle} \<longrightarrow> holders s = {})
     \<and> (state_flush_in_progress (word_of s) \<longrightarrow> state_sealed (word_of s) \<and> holders s = {})
     \<and> (state_sealed (word_of s) \<longrightarrow>
          state_flush_in_progress (word_of s) \<or> \<not> settled s \<or> holders s \<noteq> {})"

lemma holders_bound: "counted N s \<Longrightarrow> t \<in> holders s \<Longrightarrow> t < N"
  by (cases "ps_thread s t = Idle") (simp_all add: counted_def holders_def)

lemma holders_finite: "counted N s \<Longrightarrow> finite (holders s) \<and> card (holders s) \<le> N"
proof -
  assume c: "counted N s"
  have "holders s \<subseteq> {..<N}" using holders_bound [OF c] by auto
  then show ?thesis using card_mono [of "{..<N}" "holders s"] finite_subset by auto
qed

lemma no_holders: "one_owner s \<Longrightarrow> closing s \<Longrightarrow> ps_inflight s \<or> owns (ps_thread s t) \<Longrightarrow> holders s = {}"
  by (auto simp: one_owner_def closing_def owners_def split: if_splits)

lemma counted_step:
  assumes "pstep pf True N s s'" and "N < 2 ^ 24" and "one_owner s" and "counted N s" and "closing s"
  shows "counted N s'"
proof -
  note fin = holders_finite [OF assms(4)]
  have t: "t < N" if "ps_thread s t \<noteq> Idle" for t using assms(4) that by (simp add: counted_def)
  have keep: "counted N s'" if "holders s' = holders s" "state_writers (word_of s') = state_writers (word_of s)"
    "\<forall>u. ps_thread s' u \<noteq> Idle \<longrightarrow> ps_thread s u \<noteq> Idle \<or> u < N" for s'
    using assms(4) that by (auto simp: counted_def)
  have empty: "counted N s'" if "ps_thread s' = (ps_thread s)(t := Clearing)" "t < N" "word_of s' = 0" "holders s = {}" for s' t
    using assms(4) that by (auto simp: counted_def holders_def)
  from assms(1) show ?thesis
  proof (cases rule: pstep_effects)
    case (exchange t payload)
    have "t \<notin> holders s" using exchange(1) by (simp add: holders_iff)
    moreover have "holders s \<subseteq> {..<N} - {t}"
      using holders_bound [OF assms(4)] calculation by auto
    then have "card (holders s) < N"
      using card_mono [of "{..<N} - {t}" "holders s"] t [of t] exchange(1) by (simp add: card_Diff_singleton)
    ultimately show ?thesis
      using assms(2,4) t [of t] fin reserve_sel(4) [OF exchange(3)]
      by (simp add: counted_def exchange(1,4) holders_goto)
  next
    case (leave t off payload k)
    have mem: "t \<in> holders s" using leave(1) by (simp add: holders_iff)
    then have pos: "0 < unat (state_writers (word_of s))"
      using assms(4) fin by (simp add: counted_def card_gt_0_iff) blast
    show ?thesis
      using assms(4) t [of t] fin drop_writer_sel(4) [OF pos] mem
      by (auto simp: counted_def leave(1,2) holders_goto)
  next
    case (release t)
    have "holders s = {}" using no_holders [OF assms(3,5), of t] release(1) by simp
    then show ?thesis using t [of t] release by (intro empty [of s' t]) simp_all
  next
    case (complete t)
    have "holders s = {}" using no_holders [OF assms(3,5), of t] complete(3) by simp
    then show ?thesis using complete by (intro empty [of s' t]) simp_all
  next
    case (assign slot)
    then show ?thesis using assms(4) by (simp add: counted_def)
  qed ((rule keep; auto simp: holders_goto holders_iff insert_absorb)+)
qed

lemma settled_nowhere: "settled s \<Longrightarrow> ps_thread s u \<noteq> LastOut \<and> ps_thread s u \<noteq> SawIdle"
  by (auto simp: settled_def dest: spec [of _ u])

lemma closing_settled:
  "settled s \<Longrightarrow> \<not> state_sealed (word_of s) \<Longrightarrow> \<not> state_flush_in_progress (word_of s) \<Longrightarrow> closing s"
  using settled_nowhere [of s] by (auto simp: closing_def settled_def)

lemma closing_open:
  assumes "closing s" and "\<not> state_sealed (word_of s)"
  shows "settled s" and "\<not> state_flush_in_progress (word_of s)"
  using assms by (auto simp: closing_def settled_def)

lemma closing_sealed: "closing s \<Longrightarrow> decides (ps_thread s t) \<Longrightarrow> state_sealed (word_of s)"
  unfolding closing_def by blast

lemma closing_last:
  assumes "closing s" and "t \<in> holders s"
  shows "\<not> state_flush_in_progress (word_of s)" and "ps_thread s u \<noteq> LastOut" and "ps_thread s u \<noteq> SawIdle"
  using assms by (auto simp: closing_def)

lemma closing_keep:
  assumes "closing s" and "holders s' = holders s" and "state_sealed (word_of s') = state_sealed (word_of s)"
    and "state_flush_in_progress (word_of s') = state_flush_in_progress (word_of s)"
    and "\<forall>u. ps_thread s' u = ps_thread s u \<or> \<not> decides (ps_thread s u) \<and> \<not> decides (ps_thread s' u)"
  shows "closing s'"
proof -
  have "decides (ps_thread s' u) = decides (ps_thread s u)" for u using assms(5) by metis
  moreover have "ps_thread s' u \<in> {LastOut, SawIdle} \<Longrightarrow> ps_thread s u \<in> {LastOut, SawIdle}" for u
    using assms(5) by (metis decides.simps(1,4) insertE singletonD)
  ultimately show ?thesis using assms(1-4) unfolding closing_def settled_def by blast
qed

lemma closing_reset:
  "settled s \<Longrightarrow> ps_thread s' = (ps_thread s)(t := Clearing) \<Longrightarrow> word_of s' = 0 \<Longrightarrow> closing s'"
  by (intro closing_settled) (auto simp: settled_def)

text \<open>The writer count tells whether a holder is the only one, or there is none.\<close>

lemma counted_one:
  assumes "counted N s" and "t \<in> holders s"
  shows "state_writers (word_of s) = 1 \<longleftrightarrow> holders s = {t}"
proof -
  have "state_writers (word_of s) = 1 \<longleftrightarrow> unat (state_writers (word_of s)) = 1"
    by (simp add: word_unat_eq_iff)
  also have "\<dots> \<longleftrightarrow> holders s = {t}" using assms by (auto simp: counted_def card_1_singleton_iff)
  finally show ?thesis .
qed

lemma counted_zero: "counted N s \<Longrightarrow> state_writers (word_of s) = 0 \<longleftrightarrow> holders s = {}"
  using holders_finite [of N s] by (auto simp: counted_def word_unat_eq_iff)

lemma closing_leave:
  assumes "counted N s" and "closing s" and "ps_thread s t = Copied off payload k"
    and "s' = (goto t (if state_writers (word_of s) = 1 \<and> state_sealed (word_of s) then LastOut else Idle) s)
        \<lparr>ps_buf := (ps_buf s)\<lparr>fb_state := word_of s - WRITER_ONE\<rparr>\<rparr>"
  shows "closing s'"
proof -
  have mem: "t \<in> holders s" using assms(3) by (simp add: holders_iff)
  note flags = drop_writer_flags [of "word_of s"] and one = counted_one [OF assms(1) mem]
  have h: "holders s' = holders s - {t}" by (simp add: assms(4) holders_goto)
  show ?thesis
  proof (cases "state_writers (word_of s) = 1 \<and> state_sealed (word_of s)")
    case True
    then show ?thesis
      using closing_last [OF assms(2) mem] one h flags by (auto simp: closing_def settled_def assms(4))
  next
    case False
    then have "state_sealed (word_of s) \<Longrightarrow> holders s' \<noteq> {}" using one h mem by auto
    moreover have "decides (ps_thread s' u) \<Longrightarrow> decides (ps_thread s u)" for u
      using False by (auto simp: assms(4) split: if_splits)
    ultimately show ?thesis
      using False closing_last [OF assms(2) mem] assms(2) flags by (auto simp: closing_def assms(4))
  qed
qed

lemma closing_seal:
  assumes "closing s" and "ps_thread s t = Full"
    and "s' = (goto t (if state_sealed (word_of s) then Idle else Sealer) s)
        \<lparr>ps_buf := (ps_buf s)\<lparr>fb_state := word_of s OR SEALED_BIT\<rparr>\<rparr>"
  shows "closing s'"
proof (cases "state_sealed (word_of s)")
  case True
  show ?thesis
    by (rule closing_keep [OF assms(1)]) (use assms(2,3) True in \<open>auto simp: holders_goto holders_iff\<close>)
next
  case False
  note op = closing_open [OF assms(1) False]
  then show ?thesis using settled_nowhere [OF op(1)] False by (auto simp: closing_def settled_def assms(3))
qed

lemma closing_step:
  assumes "pstep pf True N s s'" and "one_owner s" and "counted N s" and "closing s"
  shows "closing s'"
  using assms(1)
proof (cases rule: pstep_effects)
  case (exchange t payload)
  then have op: "settled s" "\<not> state_flush_in_progress (word_of s)" "\<not> state_sealed (word_of s)"
    using closing_open [OF assms(4)] by auto
  show ?thesis
    using op add_writer_flags [OF exchange(3)] by (intro closing_settled) (simp_all add: exchange(4) settled_def)
next
  case (leave t off payload k)
  then show ?thesis by (rule closing_leave [OF assms(3,4)])
next
  case (seal_full t)
  then show ?thesis by (rule closing_seal [OF assms(4)])
next
  case (claim_slot t slot)
  have "state_sealed (word_of s)" by (rule closing_sealed [OF assms(4), of t]) (simp add: claim_slot(1))
  moreover have "\<not> settled s'" by (auto simp: settled_def claim_slot(2) intro!: exI [of _ t])
  ultimately show ?thesis
    using assms(4) claim_slot(1) unfolding closing_def by (auto simp: claim_slot(2) settled_def holders_goto holders_iff)
next
  case (look t)
  have "holders s' = holders s" using look(1) by (simp add: look(2) holders_goto holders_iff)
  moreover have "state_sealed (word_of s)" by (rule closing_sealed [OF assms(4), of t]) (simp add: look(1))
  ultimately show ?thesis
    using assms(4) counted_zero [OF assms(3)] unfolding closing_def settled_def by (auto simp: look(2))
next
  case (flag t)
  have "holders s' = holders s" "holders s = {}"
    using flag(1) assms(4) by (auto simp: flag(2) holders_goto holders_iff closing_def)
  moreover have "state_sealed (word_of s)" by (rule closing_sealed [OF assms(4), of t]) (use flag(1) in auto)
  ultimately show ?thesis by (auto simp: closing_def flag(2))
next
  case (mark t)
  have "state_flush_in_progress (word_of s)" using one_owner_flag [OF assms(2), of t] mark(1) by simp
  then show ?thesis
    by (intro closing_keep [OF assms(4)]) (use mark in \<open>auto simp: holders_goto holders_iff\<close>)
next
  case (release t)
  then show ?thesis by (intro closing_reset [of s s' t]) simp_all
next
  case (complete t)
  then show ?thesis by (intro closing_reset [of s s' t]) simp_all
qed ((rule closing_keep [OF assms(4)]; auto simp: holders_goto holders_iff insert_absorb)+)

lemma start_of_append: "k \<le> length log \<Longrightarrow> start_of (log @ [p]) k = start_of log k"
  by (simp add: start_of_def)

lemma start_of_length: "start_of log (length log) = length (concat log)"
  by (simp add: start_of_def)

lemma start_of_Suc: "k < length log \<Longrightarrow> start_of log (Suc k) = start_of log k + length (log ! k)"
  by (simp add: start_of_def take_Suc_conv_app_nth)

lemma start_of_mono: "j \<le> k \<Longrightarrow> start_of log j \<le> start_of log k"
  by (auto simp: start_of_def min_def le_iff_add take_add)

lemma start_of_bound: "k < length log \<Longrightarrow> start_of log k + length (log ! k) \<le> length (concat log)"
  using start_of_mono [of "Suc k" "length log" log] by (simp add: start_of_Suc start_of_length)

text \<open>Reservations of one log are disjoint.\<close>

lemma log_disjoint:
  assumes "j \<noteq> k" and "j < length log" and "k < length log"
  shows "start_of log j + length (log ! j) \<le> start_of log k \<or> start_of log k + length (log ! k) \<le> start_of log j"
  using assms start_of_mono [of "Suc j" k log] start_of_mono [of "Suc k" j log]
  by (cases "j < k") (auto simp: start_of_Suc)

text \<open>If every payload is in place, the memory starts with the whole log.\<close>

lemma concat_in_memory:
  assumes "\<forall>k < length log. take (length (log ! k)) (drop (start_of log k) mem) = log ! k"
  shows "take (length (concat log)) mem = concat log"
  using assms
proof (induction log rule: rev_induct)
  case (snoc p log)
  have "\<forall>k < length log. take (length (log ! k)) (drop (start_of log k) mem) = log ! k"
  proof (intro allI impI)
    fix k assume "k < length log"
    then show "take (length (log ! k)) (drop (start_of log k) mem) = log ! k"
      using snoc.prems [rule_format, of k] by (simp add: nth_append start_of_append)
  qed
  then have "take (length (concat log)) mem = concat log" by (rule snoc.IH)
  moreover have "take (length p) (drop (length (concat log)) mem) = p"
    using snoc.prems [rule_format, of "length log"] by (simp add: start_of_append start_of_length)
  ultimately show ?case by (simp add: take_add)
qed simp

lemma logged_keep:
  assumes "logged s" and "ps_log s' = ps_log s" and "state_offset (word_of s') = state_offset (word_of s)"
    and "\<forall>u. grant_of (ps_thread s' u) = grant_of (ps_thread s u) \<or> grant_of (ps_thread s' u) = None"
    and "\<forall>u w p. ps_thread s' u = Loaded w p \<longrightarrow> length p < 2 ^ 64"
  shows "logged s'"
proof -
  have old: "grant_of (ps_thread s u) = Some g" if "grant_of (ps_thread s' u) = Some g" for u g
    using spec [OF assms(4), of u] that by auto
  show ?thesis
    using assms(1,5) unfolding logged_def assms(2,3)
    by (elim conjE, intro conjI) (assumption | blast dest: old)+
qed

lemma logged_reset:
  "logged s \<Longrightarrow> holders s = {} \<Longrightarrow> ps_thread s' = (ps_thread s)(t := Clearing) \<Longrightarrow> word_of s' = 0 \<Longrightarrow>
    ps_log s' = [] \<Longrightarrow> logged s'"
  by (auto simp: logged_def holders_def holds_grant)

lemma logged_loads: "logged s \<Longrightarrow> ps_thread s u = Loaded w p \<Longrightarrow> length p < 2 ^ 64"
  unfolding logged_def by blast

text \<open>A thread that is counted but no holder leaves room in the writer count.\<close>

lemma counted_room:
  assumes "counted N s" and "N < 2 ^ 24" and "t \<notin> holders s" and "ps_thread s t \<noteq> Idle"
  shows "unat (state_writers (word_of s)) < 2 ^ 24 - 1"
proof -
  have "t < N" using assms(1,4) by (simp add: counted_def)
  then have "insert t (holders s) \<subseteq> {..<N}" using holders_bound [OF assms(1)] by auto
  then have "card (holders s) < N"
    using card_mono [of "{..<N}" "insert t (holders s)"] assms(3) holders_finite [OF assms(1)] by simp
  then show ?thesis using assms(1,2) by (simp add: counted_def)
qed

lemma logged_exchange:
  assumes "counted N s" and "N < 2 ^ 24" and "logged s" and t: "ps_thread s t = Loaded (word_of s) payload"
    and fits: "unat (state_offset (word_of s)) + unat (word_of_nat (length payload) :: usize) \<le> 1048576"
    and s': "s' = (goto t (Holding (state_offset (word_of s)) payload (length (ps_log s))) s)
        \<lparr>ps_buf := (ps_buf s)\<lparr>fb_state := word_of s + word_of_nat (length payload) * OFFSET_ONE + WRITER_ONE\<rparr>,
         ps_log := ps_log s @ [payload]\<rparr>"
  shows "logged s'"
proof -
  let ?w = "word_of s" and ?log = "ps_log s"
  have "unat (state_writers ?w) < 2 ^ 24 - 1" using t by (intro counted_room [OF assms(1,2), of t]) (simp_all add: holders_iff)
  note off = reserve_sel(3) [OF fits this]
  have len: "unat (word_of_nat (length payload) :: usize) = length payload"
    using logged_loads [OF assms(3) t] by (intro unat_word_of_nat_usize) simp
  have log: "ps_log s' = ?log @ [payload]" by (simp add: s')
  have old: "k < length ?log \<and> ?log ! k = p \<and> unat off = start_of ?log k"
    if "grant_of (ps_thread s u) = Some (off, p, k)" for u off p k
    using assms(3) that unfolding logged_def by blast
  have g: "grant_of (ps_thread s' u) = (if u = t then Some (state_offset ?w, payload, length ?log) else grant_of (ps_thread s u))" for u
    by (simp add: s')
  have cur: "unat (state_offset ?w) = length (concat ?log)" using assms(3) by (simp add: logged_def)
  have "unat (state_offset (word_of s')) = length (concat (ps_log s'))"
    using off cur len by (simp add: log) (simp add: s')
  moreover have "length (concat (ps_log s')) \<le> 1048576" using fits cur len by (simp add: log)
  moreover have "k < length (ps_log s') \<and> ps_log s' ! k = p \<and> unat off = start_of (ps_log s') k"
    if "grant_of (ps_thread s' u) = Some (off, p, k)" for u off p k
    using that old [of u off p k] cur
    by (auto simp: g log nth_append start_of_append start_of_length split: if_splits)
  moreover have "u = u'"
    if "grant_of (ps_thread s' u) = Some (off, p, k)" "grant_of (ps_thread s' u') = Some (off', p', k)" for u u' off off' p p' k
  proof -
    have "grant_of (ps_thread s u) = Some (off, p, k) \<Longrightarrow> grant_of (ps_thread s u') = Some (off', p', k) \<Longrightarrow> u = u'"
      using assms(3) unfolding logged_def by blast
    then show ?thesis
      using that old [of u off p k] old [of u' off' p' k] by (auto simp: g split: if_splits)
  qed
  moreover have "length p < 2 ^ 64" if "ps_thread s' u = Loaded w p" for u w p
    using that logged_loads [OF assms(3), of u w p] by (auto simp: s' split: if_splits)
  ultimately show ?thesis unfolding logged_def by blast
qed

lemma logged_step:
  assumes "pstep pf True N s s'" and "counted N s" and "N < 2 ^ 24" and "one_owner s" and "closing s" and "logged s"
  shows "logged s'"
  using assms(1)
proof (cases rule: pstep_effects)
  case (exchange t payload)
  then show ?thesis by (intro logged_exchange [OF assms(2,3,6)])
next
  case (leave t off payload k)
  have "t \<in> holders s" using leave(1) by (simp add: holders_iff)
  then have "0 < unat (state_writers (word_of s))"
    using assms(2) holders_finite [OF assms(2)] by (simp add: counted_def card_gt_0_iff) blast
  then show ?thesis
    by (intro logged_keep [OF assms(6)])
      (auto simp: leave(2) drop_writer_sel dest: logged_loads [OF assms(6)] split: if_splits)
next
  case (release t)
  have "holders s = {}" using no_holders [OF assms(4,5), of t] release(1) by simp
  then show ?thesis using release by (intro logged_reset [OF assms(6), of s' t]) simp_all
next
  case (complete t)
  have "holders s = {}" using no_holders [OF assms(4,5), of t] complete(3) by simp
  then show ?thesis using complete by (intro logged_reset [OF assms(6), of s' t]) simp_all
qed ((rule logged_keep [OF assms(6)]; auto dest: logged_loads [OF assms(6)] split: if_splits)+)

text \<open>Payload \<open>k\<close> of the log is in its place in the memory \<open>mem\<close>, or still to be copied.\<close>

definition in_place :: "u8 list list \<Rightarrow> nat \<Rightarrow> u8 list \<Rightarrow> bool" where
  "in_place log k mem \<longleftrightarrow> take (length (log ! k)) (drop (start_of log k) mem) = log ! k"

lemma stored_iff:
  "stored s \<longleftrightarrow> 1048576 \<le> length (buf_mem (fb_buf (ps_buf s)))
     \<and> (\<forall>k < length (ps_log s). (\<exists>t off payload. ps_thread s t = Holding off payload k)
          \<or> in_place (ps_log s) k (buf_mem (fb_buf (ps_buf s))))"
  by (simp add: stored_def in_place_def)

lemma in_place_append: "k < length log \<Longrightarrow> in_place (log @ [p]) k mem = in_place log k mem"
  by (simp add: in_place_def nth_append start_of_append)

text \<open>A copy into place leaves the other payloads alone.\<close>

lemma in_place_copy:
  assumes "k0 < length log" and "start_of log k0 + length (log ! k0) \<le> length mem" and "length (concat log) \<le> length mem"
    and "k < length log" and "k \<noteq> k0 \<longrightarrow> in_place log k mem"
  shows "in_place log k (blit (start_of log k0) (log ! k0) mem)"
proof (cases "k = k0")
  case True
  then show ?thesis using take_drop_blit [OF assms(2)] by (simp add: in_place_def)
next
  case False
  have "start_of log k + length (log ! k) \<le> length mem" using start_of_bound [OF assms(4)] assms(3) by simp
  from take_drop_blit_disjoint [OF assms(2) _ this] show ?thesis
    using log_disjoint [OF False assms(4,1)] False assms(5) by (simp add: in_place_def)
qed

lemma stored_step:
  assumes "pstep pf True N s s'" and "logged s" and "stored s"
  shows "stored s'"
proof -
  have keep: "stored s'" if "ps_log s' = ps_log s" "buf_mem (fb_buf (ps_buf s')) = buf_mem (fb_buf (ps_buf s))"
    "\<And>u off p k. ps_thread s u = Holding off p k \<Longrightarrow> ps_thread s' u = Holding off p k" for s'
    using assms(3) that(3) unfolding stored_def that(1,2) by blast
  have reset: "stored s'" if "ps_log s' = []" "buf_mem (fb_buf (ps_buf s')) = buf_mem (fb_buf (ps_buf s))" for s'
    using assms(3) that by (simp add: stored_def)
  from assms(1) show ?thesis
  proof (cases rule: pstep_effects)
    case (exchange t payload)
    have still: "ps_thread s u = Holding off p k \<Longrightarrow> ps_thread s' u = Holding off p k" for u off p k
      using exchange(1) by (auto simp: exchange(4))
    have new: "ps_thread s' t = Holding (state_offset (word_of s)) payload (length (ps_log s))" by (simp add: exchange(4))
    have mem: "buf_mem (fb_buf (ps_buf s')) = buf_mem (fb_buf (ps_buf s))" and log: "ps_log s' = ps_log s @ [payload]"
      by (simp_all add: exchange(4))
    have "(\<exists>u off p. ps_thread s' u = Holding off p k) \<or> in_place (ps_log s') k (buf_mem (fb_buf (ps_buf s')))"
      if "k < length (ps_log s')" for k
    proof (cases "k = length (ps_log s)")
      case False
      then have "k < length (ps_log s)" using that by (simp add: log)
      then show ?thesis using assms(3) still unfolding stored_iff mem log by (metis in_place_append)
    qed (use new in blast)
    then show ?thesis using assms(3) mem by (simp add: stored_iff)
  next
    case (copy t off payload k0)
    have k0: "k0 < length (ps_log s)" "ps_log s ! k0 = payload" "unat off = start_of (ps_log s) k0"
      using assms(2) copy(1) unfolding logged_def by (metis grant_of.simps(1))+
    have mem: "buf_mem (fb_buf (ps_buf s')) = blit (start_of (ps_log s) k0) (ps_log s ! k0) (buf_mem (fb_buf (ps_buf s)))"
      and log: "ps_log s' = ps_log s" by (simp_all add: copy(3) k0)
    have fits: "start_of (ps_log s) k0 + length (ps_log s ! k0) \<le> length (buf_mem (fb_buf (ps_buf s)))"
      using copy(2) k0 by simp
    have all: "length (concat (ps_log s)) \<le> length (buf_mem (fb_buf (ps_buf s)))"
      using assms(2,3) by (simp add: logged_def stored_def)
    have still: "ps_thread s u = Holding off p k \<Longrightarrow> k \<noteq> k0 \<Longrightarrow> ps_thread s' u = Holding off p k" for u off p k
      using copy(1) by (auto simp: copy(3))
    have "(\<exists>u off p. ps_thread s' u = Holding off p k) \<or> in_place (ps_log s) k (buf_mem (fb_buf (ps_buf s')))"
      if "k < length (ps_log s)" for k
      using assms(3) still in_place_copy [OF k0(1) fits all that] that unfolding stored_iff mem by metis
    then show ?thesis using assms(3) fits by (simp add: stored_iff log mem)
  next
    case (release t)
    then show ?thesis by (intro reset) simp_all
  next
    case (complete t)
    then show ?thesis by (intro reset) simp_all
  qed ((rule keep; auto split: if_splits)+)
qed

section \<open>The entry handed over\<close>

text \<open>
  On the way from the slice to the kernel: a slice that is on its way covers the whole log, and
  the entry recorded for a write in flight is the buffer's and carries every byte of the log.
\<close>

fun slice_of :: "thread \<Rightarrow> nat option" where
  "slice_of (Sliced len) = Some len"
| "slice_of (Addressed len at) = Some len"
| "slice_of _ = None"

definition carries :: "protocol \<Rightarrow> sqe \<Rightarrow> bool" where
  "carries s e \<longleftrightarrow> (\<exists>len. sqe_opcode e = WriteOp (buf_ptr (fb_buf (ps_buf s))) len)
     \<and> sqe_user_data e = fb_addr (ps_buf s) \<and> take (length (concat (ps_log s))) (sqe_bytes e) = concat (ps_log s)"

definition carried :: "protocol \<Rightarrow> bool" where
  "carried s \<longleftrightarrow> (\<forall>t len. slice_of (ps_thread s t) = Some len \<longrightarrow>
        length (concat (ps_log s)) \<le> len \<and> len \<le> 1048576)
     \<and> (ps_inflight s \<longrightarrow> (\<exists>e. fb_sqe (ps_buf s) = Some e \<and> carries s e))"

lemma slice_owns: "slice_of l = Some len \<Longrightarrow> owns l"
  by (cases l) simp_all

text \<open>With no holder left, the memory starts with the whole log.\<close>

lemma whole_log:
  assumes "stored s" and "holders s = {}"
  shows "take (length (concat (ps_log s))) (buf_mem (fb_buf (ps_buf s))) = concat (ps_log s)"
proof (rule concat_in_memory)
  have "ps_thread s t \<noteq> Holding off p k" for t off p k
    using assms(2) holders_iff [of t s] by (metis empty_iff holds.simps(1))
  then show "\<forall>k < length (ps_log s). take (length (ps_log s ! k))
      (drop (start_of (ps_log s) k) (buf_mem (fb_buf (ps_buf s)))) = ps_log s ! k"
    using assms(1) unfolding stored_def by blast
qed

lemma slice_length:
  assumes "fb_buffer_data pf b = Done data" and "unat (state_offset (fb_state b)) \<le> 1048576"
  shows "unat (state_offset (fb_state b)) \<le> length (snd data)" and "length (snd data) \<le> 1048576"
proof -
  let ?k = "round_up (unat (state_offset (fb_state b))) 4096"
  have "?k \<le> 1048576" using assms(2) by (intro round_up_le_multiple) simp_all
  moreover have "unat (state_offset (fb_state b)) \<le> ?k" by (rule round_up_ge)
  ultimately show "unat (state_offset (fb_state b)) \<le> length (snd data)" "length (snd data) \<le> 1048576"
    using assms(1) by (auto simp: fb_buffer_data_eq Let_def split: if_splits)
qed

lemma entry_carries:
  assumes "entry_for (ps_buf s) len at e" and "stored s" and "holders s = {}"
    and "length (concat (ps_log s)) \<le> len" and "len \<le> 1048576"
  shows "carries s e"
proof -
  have "unat (word_of_nat len :: u32) = len" using assms(5) by (simp add: unat_of_nat take_bit_eq_mod)
  then show ?thesis
    using assms(1,4) whole_log [OF assms(2,3)]
    by (auto simp: entry_for_def carries_def fb_user_data_def min_def)
qed

lemma carried_step:
  assumes "pstep pf True N s s'" and "one_owner s" and "closing s" and "logged s" and "stored s" and "carried s"
  shows "carried s'"
proof -
  have keep: "carried s'" if "ps_log s' = ps_log s" "ps_inflight s' \<longrightarrow> ps_inflight s"
    "fb_sqe (ps_buf s') = fb_sqe (ps_buf s)" "fb_addr (ps_buf s') = fb_addr (ps_buf s)"
    "buf_ptr (fb_buf (ps_buf s')) = buf_ptr (fb_buf (ps_buf s))"
    "\<And>u len. slice_of (ps_thread s' u) = Some len \<Longrightarrow> \<exists>v. slice_of (ps_thread s v) = Some len" for s'
    using assms(6) that(2,6) unfolding carried_def carries_def that(1,3,4,5) by blast
  have free: "slice_of (ps_thread s u) = None" "\<not> ps_inflight s" if "\<not> state_flush_in_progress (word_of s)" for u
    using assms(2) that slice_owns [of "ps_thread s u"]
    by (auto simp: one_owner_def owners_def, metis option.exhaust)
  have alone: "slice_of (ps_thread s u) = None" "\<not> ps_inflight s" if "ps_thread s t = Owner" for t u
  proof -
    have o: "owners s = {t}" "\<not> ps_inflight s"
      using assms(2) that owners_iff [of t s] by (auto simp: one_owner_def split: if_splits)
    show "\<not> ps_inflight s" by (rule o(2))
    show "slice_of (ps_thread s u) = None"
      using o(1) that slice_owns [of "ps_thread s u"] owners_iff [of u s] by (cases "slice_of (ps_thread s u)") auto
  qed
  have none: "slice_of (ps_thread s u) = None" if "ps_inflight s" for u
    using assms(2) that slice_owns [of "ps_thread s u"]
    by (cases "slice_of (ps_thread s u)") (auto simp: one_owner_def owners_def split: if_splits)
  from assms(1) show ?thesis
  proof (cases rule: pstep_effects)
    case (exchange t payload)
    then show ?thesis using free by (simp add: carried_def)
  next
    case (slice t data)
    have "unat (state_offset (word_of s)) \<le> 1048576" using assms(4) by (simp add: logged_def)
    then show ?thesis
      using slice_length [OF slice(2)] assms(4,6) by (auto simp: carried_def slice(3) logged_def carries_def)
  next
    case (address t len)
    then have "slice_of (ps_thread s t) = Some len" by simp
    then show ?thesis by (intro keep) (auto simp: address(2) split: if_splits)
  next
    case (push t len at e)
    have "length (concat (ps_log s)) \<le> len" "len \<le> 1048576"
      using assms(6) push(1) unfolding carried_def by (metis slice_of.simps(2))+
    then have "carries s e"
      using no_holders [OF assms(2,3), of t] push(1) by (intro entry_carries [OF push(2) assms(5)]) simp_all
    then show ?thesis using assms(6) by (auto simp: carried_def carries_def push(3))
  next
    case (release t)
    then show ?thesis using alone [OF release(1)] by (simp add: carried_def)
  next
    case (complete t)
    then show ?thesis using none by (simp add: carried_def)
  qed ((rule keep; auto split: if_splits)+)
qed

section \<open>Reachable states\<close>

text \<open>A thread in \<open>Loaded\<close> has passed the checks.\<close>

definition loaded_checked :: "profile \<Rightarrow> protocol \<Rightarrow> bool" where
  "loaded_checked pf s \<longleftrightarrow> (\<forall>t w payload. ps_thread s t = Loaded w payload \<longrightarrow>
     (\<exists>grant. reserve_check pf (word_of_nat (length payload)) w = Done (Inr grant)))"

lemma loaded_checked_step:
  assumes "pstep pf calm N s s'" and "loaded_checked pf s"
  shows "loaded_checked pf s'"
  using assms(1)
proof cases
  case (load t payload grant)
  then show ?thesis using assms(2) by (auto simp: loaded_checked_def)
qed (use assms(2) in \<open>simp_all add: loaded_checked_def\<close>)

text \<open>The invariants of the reachable states.\<close>

lemma one_owner_start: "fb_state b = 0 \<Longrightarrow> one_owner (start_state b)"
  by (simp add: one_owner_def owners_def start_state_def)

lemma reachable_one_owner: "reachable pf calm N s \<Longrightarrow> one_owner s"
  by (induction rule: reachable.induct) (auto simp: one_owner_start intro: one_owner_step)

definition calm_inv :: "nat \<Rightarrow> protocol \<Rightarrow> bool" where
  "calm_inv N s \<longleftrightarrow> one_owner s \<and> counted N s \<and> logged s \<and> stored s \<and> closing s \<and> carried s"

lemma reachable_calm:
  assumes "reachable pf True N s" and "N < 2 ^ 24"
  shows "calm_inv N s"
  using assms(1)
proof (induction rule: reachable.induct)
  case (start b)
  then show ?case
    by (auto simp: calm_inv_def one_owner_def owners_def counted_def logged_def stored_def closing_def holders_def
        settled_def carried_def start_state_def)
next
  case (step s s')
  then show ?case
    using assms(2) one_owner_step [OF step(2)] counted_step [OF step(2)] logged_step [OF step(2)]
      stored_step [OF step(2)] closing_step [OF step(2)] carried_step [OF step(2)]
    unfolding calm_inv_def by blast
qed

lemma reachable_loaded_checked: "reachable pf calm N s \<Longrightarrow> loaded_checked pf s"
proof (induction rule: reachable.induct)
  case (start b)
  then show ?case by (simp add: loaded_checked_def start_state_def)
next
  case (step s s')
  then show ?case by (blast intro: loaded_checked_step)
qed

end
