(* ===== verification/Protocol_Runs.thy ===== *)
theory Protocol_Runs
  imports Buffer_Protocol
begin

text \<open>
  Concrete runs of the flush protocol: what one thread can do next in a state of which only
  the word, the places of the threads, the flight and the number of reservations are known
  and in which no push has been refused, and chains of such moves. The runs serve the
  properties that say what some schedule does.
\<close>

section \<open>Moves of one thread\<close>

definition shape :: "usize \<Rightarrow> (nat \<Rightarrow> thread) \<Rightarrow> bool \<Rightarrow> nat \<Rightarrow> protocol \<Rightarrow> bool" where
  "shape w f fl n s \<longleftrightarrow> word_of s = w \<and> ps_thread s = f \<and> ps_inflight s = fl \<and> \<not> ps_dropped s \<and> length (ps_log s) = n
     \<and> 1048576 \<le> length (buf_mem (fb_buf (ps_buf s)))"

text \<open>
  \<open>can_move calm N w f fl n t l w' fl' n'\<close>: in every state of the shape \<open>w f fl n\<close>, thread \<open>t\<close> can
  step to \<open>l\<close> and leave the shape \<open>w'\<close>, \<open>fl'\<close>, \<open>n'\<close>.
\<close>

definition can_move :: "bool \<Rightarrow> nat \<Rightarrow> usize \<Rightarrow> (nat \<Rightarrow> thread) \<Rightarrow> bool \<Rightarrow> nat \<Rightarrow> nat \<Rightarrow> thread \<Rightarrow> usize \<Rightarrow> bool \<Rightarrow> nat \<Rightarrow> bool" where
  "can_move calm N w f fl n t l w' fl' n' \<longleftrightarrow>
     (\<forall>s. shape w f fl n s \<longrightarrow> (\<exists>s'. pstep Debug calm N s s' \<and> shape w' (f(t := l)) fl' n' s'))"

lemma can_moveI:
  assumes "\<And>s. shape w f fl n s \<Longrightarrow> pstep Debug calm N s (move s)"
    and "\<And>s. shape w f fl n s \<Longrightarrow> shape w' (f(t := l)) fl' n' (move s)"
  shows "can_move calm N w f fl n t l w' fl' n'"
  using assms unfolding can_move_def by blast

lemma word_of_length: "n \<le> 1048576 \<Longrightarrow> unat (word_of_nat n :: usize) = n"
  by (intro unat_word_of_nat_usize) simp

lemma can_load:
  assumes "t < N" and "f t = Idle" and "open_word w" and "unat (state_offset w) + length p \<le> 1048576"
  shows "can_move calm N w f fl n t (Loaded w p) w fl n"
  by (rule can_moveI [where move = "goto t (Loaded w p)"])
    (use assms in \<open>auto simp: shape_def reserve_check_eq word_of_length intro!: pstep.load\<close>)

lemma can_exchange:
  assumes "f t = Loaded w p" and "open_word w" and "unat (state_offset w) + length p \<le> 1048576"
  shows "can_move calm N w f fl n t (Holding (state_offset w) p n)
    (w + word_of_nat (length p) * OFFSET_ONE + WRITER_ONE) fl (Suc n)"
proof (rule can_moveI [where move = "\<lambda>s. (goto t (Holding (state_offset w) p (length (ps_log s))) s)
    \<lparr>ps_buf := (ps_buf s)\<lparr>fb_state := w + word_of_nat (length p) * OFFSET_ONE + WRITER_ONE\<rparr>, ps_log := ps_log s @ [p]\<rparr>"])
  fix s
  assume "shape w f fl n s"
  then show "pstep Debug calm N s ((goto t (Holding (state_offset w) p (length (ps_log s))) s)
      \<lparr>ps_buf := (ps_buf s)\<lparr>fb_state := w + word_of_nat (length p) * OFFSET_ONE + WRITER_ONE\<rparr>, ps_log := ps_log s @ [p]\<rparr>)"
    using assms by (intro pstep.exchange [where w = w and off = "state_offset w"])
      (simp_all add: shape_def reserve_check_eq word_of_length cas_state_def)
qed (simp add: shape_def)

lemma can_copy:
  assumes "f t = Holding off p k" and "unat off + length p \<le> 1048576"
  shows "can_move calm N w f fl n t (Copied off p k) w fl n"
  by (rule can_moveI [where move = "\<lambda>s. (goto t (Copied off p k) s)
      \<lparr>ps_buf := (ps_buf s)\<lparr>fb_buf := (fb_buf (ps_buf s))\<lparr>buf_mem := blit (unat off) p (buf_mem (fb_buf (ps_buf s)))\<rparr>\<rparr>\<rparr>"])
    (use assms in \<open>auto simp: shape_def write_buffer_Done intro!: pstep.copy\<close>)

lemma can_leave:
  assumes "f t = Copied off p k"
  shows "can_move calm N w f fl n t (if state_writers w = 1 \<and> state_sealed w then LastOut else Idle)
    (w - WRITER_ONE) fl n"
  by (rule can_moveI [where move = "\<lambda>s. (goto t (if state_writers (word_of s) = 1 \<and> state_sealed (word_of s) then LastOut else Idle) s)
      \<lparr>ps_buf := (ps_buf s)\<lparr>fb_state := word_of s - WRITER_ONE\<rparr>\<rparr>"],
      rule pstep.leave [where off = off and payload = p and k = k])
    (use assms in \<open>simp_all add: shape_def decrement_writers_def\<close>)

lemma can_full:
  assumes "t < N" and "f t = Idle" and "open_word w" and "0 < unat (state_offset w)"
    and "unat (state_offset w) \<le> 1048576"
  shows "can_move calm N w f fl n t Full w fl n"
  by (rule can_moveI [where move = "goto t Full"])
    (use assms in \<open>auto simp: shape_def reserve_check_eq intro!: pstep.load_full [where n = 1048576]\<close>)

lemma can_seal:
  assumes "f t = Full" and "\<not> state_sealed w"
  shows "can_move calm N w f fl n t Sealer (w OR SEALED_BIT) fl n"
  by (rule can_moveI [where move = "\<lambda>s. (goto t (if word_of s AND SEALED_BIT \<noteq> 0 then Idle else Sealer) s)
      \<lparr>ps_buf := (ps_buf s)\<lparr>fb_state := word_of s OR SEALED_BIT\<rparr>\<rparr>"],
      rule pstep.seal_full)
    (use assms in \<open>simp_all add: shape_def\<close>)

lemma can_slot:
  assumes "f t = Sealer"
  shows "can_move calm N w f fl n t Slotted w fl n"
  by (rule can_moveI [where move = "\<lambda>s. (goto t Slotted s)\<lparr>ps_buf := (ps_buf s)\<lparr>fb_local_address := 0\<rparr>\<rparr>"],
      rule pstep.claim_slot)
    (use assms in \<open>simp_all add: shape_def\<close>)

lemma can_look:
  assumes "f t = Slotted"
  shows "can_move calm N w f fl n t (if state_writers w = 0 then SawIdle else Idle) w fl n"
  by (rule can_moveI [where move = "\<lambda>s. goto t (if state_writers (word_of s) = 0 then SawIdle else Idle) s"],
      rule pstep.look)
    (use assms in \<open>simp_all add: shape_def\<close>)

lemma can_flag:
  assumes "f t \<in> {LastOut, SawIdle}"
  shows "can_move calm N w f fl n t (if state_flush_in_progress w then Idle else Owner)
    (w OR FLUSH_IN_PROGRESS_BIT) fl n"
  by (rule can_moveI [where move = "\<lambda>s. (goto t (if word_of s AND FLUSH_IN_PROGRESS_BIT = 0 then Owner else Idle) s)
      \<lparr>ps_buf := (ps_buf s)\<lparr>fb_state := word_of s OR FLUSH_IN_PROGRESS_BIT\<rparr>\<rparr>"],
      rule pstep.flag)
    (use assms in \<open>simp_all add: shape_def set_flush_in_progress_def\<close>)

text \<open>The submission, from the mark to the push. The slice and the address depend on the buffer.\<close>

lemma slice_Done:
  assumes "shape w f fl n s" and "unat (state_offset w) \<le> 1048576"
  obtains data where "fb_buffer_data pf (ps_buf s) = Done data" and "length (snd data) \<le> 1048576"
proof -
  let ?k = "round_up (unat (state_offset w)) 4096"
  have "?k \<le> 1048576" using assms(2) by (intro round_up_le_multiple) simp_all
  then have "fb_buffer_data pf (ps_buf s) = Done (buf_ptr (fb_buf (ps_buf s)), take ?k (buf_mem (fb_buf (ps_buf s))))"
    using assms(1) by (simp add: shape_def fb_buffer_data_eq Let_def)
  then show thesis using that \<open>?k \<le> 1048576\<close> by simp
qed

lemma entry_exists: "\<exists>e. entry_for b len at e"
  by (rule exI [of _ "\<lparr>sqe_opcode = WriteOp (buf_ptr (fb_buf b)) (word_of_nat len), sqe_fd = 0, sqe_offset = at,
      sqe_io_link = False, sqe_io_drain = False, sqe_user_data = fb_user_data b,
      sqe_bytes = take (unat (word_of_nat len :: u32)) (take len (buf_mem (fb_buf b)))\<rparr>"]) (simp add: entry_for_def)

lemma shape_mark:
  assumes "shape w f fl n s" and "f t = Owner"
  shows "\<exists>s'. pstep Debug calm N s s' \<and> shape (w OR FLUSH_IN_PROGRESS_BIT) (f(t := Marked)) fl n s'"
proof -
  have "ps_thread s t = Owner" using assms by (simp add: shape_def)
  from pstep.mark [OF this set_flush_in_progress_def] show ?thesis
    using assms(1) by (intro exI conjI) (assumption | simp add: shape_def)+
qed

lemma shape_slice:
  assumes "shape w f fl n s" and "f t = Marked" and "unat (state_offset w) \<le> 1048576"
  shows "\<exists>s' len. pstep Debug calm N s s' \<and> shape w (f(t := Sliced len)) fl n s'"
proof -
  obtain data where "fb_buffer_data Debug (ps_buf s) = Done data" using assms(1,3) by (rule slice_Done)
  moreover have "ps_thread s t = Marked" using assms by (simp add: shape_def)
  ultimately have "pstep Debug calm N s (goto t (Sliced (length (snd data))) s)" by (intro pstep.slice)
  then show ?thesis using assms(1) by (intro exI conjI) (assumption | simp add: shape_def)+
qed

lemma shape_address:
  assumes "shape w f fl n s" and "f t = Sliced len"
  shows "\<exists>s' at. pstep Debug calm N s s' \<and> shape w (f(t := Addressed len at)) fl n s'"
proof -
  have "ps_thread s t = Sliced len" using assms by (simp add: shape_def)
  from pstep.address [OF this] show ?thesis
    using assms(1) by (intro exI conjI) (assumption | simp add: shape_def)+
qed

lemma shape_push:
  assumes "shape w f fl n s" and "f t = Addressed len at"
  shows "\<exists>s'. pstep Debug calm N s s' \<and> shape w (f(t := Idle)) True n s'"
proof -
  obtain e where "entry_for (ps_buf s) len at e" using entry_exists by blast
  moreover have "ps_thread s t = Addressed len at" using assms by (simp add: shape_def)
  ultimately have "pstep Debug calm N s ((goto t Idle s)\<lparr>ps_buf := fb_submit_entry e (ps_buf s), ps_inflight := True\<rparr>)"
    by (intro pstep.push)
  then show ?thesis
    using assms(1) by (intro exI conjI) (assumption | simp add: shape_def fb_submit_entry_def)+
qed

lemma can_complete:
  assumes "t < N" and "f t = Idle" and "calm \<longrightarrow> (\<forall>u. \<not> decides (f u))"
  shows "can_move calm N w f True n t Clearing 0 False 0"
  by (rule can_moveI [where move = "\<lambda>s. (goto t Clearing s)
      \<lparr>ps_buf := (ps_buf s)\<lparr>fb_state := 0\<rparr>, ps_inflight := False, ps_log := []\<rparr>"],
      rule pstep.complete)
    (use assms in \<open>simp_all add: shape_def settled_def\<close>)

lemma can_clear:
  assumes "f t = Clearing"
  shows "can_move calm N w f fl n t Idle w fl n"
  by (rule can_moveI [where move = "\<lambda>s. (goto t Idle s)\<lparr>ps_buf := (ps_buf s)\<lparr>fb_local_address := 0\<rparr>\<rparr>"],
      rule pstep.clear_slot)
    (use assms in \<open>simp_all add: shape_def\<close>)

section \<open>Runs\<close>

text \<open>Some reachable state has the shape; a run of the protocol is a chain of moves.\<close>

definition stands :: "bool \<Rightarrow> nat \<Rightarrow> usize \<Rightarrow> (nat \<Rightarrow> thread) \<Rightarrow> bool \<Rightarrow> nat \<Rightarrow> bool" where
  "stands calm N w f fl n \<longleftrightarrow> (\<exists>s. reachable Debug calm N s \<and> shape w f fl n s)"

lemma stands_move:
  "stands calm N w f fl n \<Longrightarrow> can_move calm N w f fl n t l w' fl' n' \<Longrightarrow> stands calm N w' (f(t := l)) fl' n'"
  unfolding stands_def can_move_def by (blast intro: reachable.step)

lemma stands_start: "stands calm N 0 (\<lambda>_. Idle) False 0"
proof -
  have "reachable Debug calm N (start_state (demo_buffer 0 1048576))"
    by (intro reachable.start) simp_all
  then show ?thesis
    unfolding stands_def shape_def by (intro exI conjI) (assumption | simp add: start_state_def)+
qed

lemmas stands_copy = stands_move [OF _ can_copy]
lemmas stands_leave = stands_move [OF _ can_leave]
lemmas stands_full = stands_move [OF _ can_full]
lemmas stands_seal = stands_move [OF _ can_seal]
lemmas stands_slot = stands_move [OF _ can_slot]
lemmas stands_look = stands_move [OF _ can_look]
lemmas stands_flag = stands_move [OF _ can_flag]
lemmas stands_complete = stands_move [OF _ can_complete]
lemmas stands_clear = stands_move [OF _ can_clear]

lemma stands_submit:
  assumes "stands calm N w f fl n" and "f t = Owner" and "unat (state_offset (w OR FLUSH_IN_PROGRESS_BIT)) \<le> 1048576"
  shows "stands calm N (w OR FLUSH_IN_PROGRESS_BIT) (f(t := Idle)) True n"
proof -
  obtain s where s: "reachable Debug calm N s" "shape w f fl n s" using assms(1) by (auto simp: stands_def)
  obtain s1 where s1: "pstep Debug calm N s s1" "shape (w OR FLUSH_IN_PROGRESS_BIT) (f(t := Marked)) fl n s1"
    using shape_mark [OF s(2) assms(2)] by blast
  obtain s2 len where s2: "pstep Debug calm N s1 s2" "shape (w OR FLUSH_IN_PROGRESS_BIT) (f(t := Sliced len)) fl n s2"
    using shape_slice [OF s1(2) _ assms(3), of t calm N] by auto
  obtain s3 at where s3: "pstep Debug calm N s2 s3" "shape (w OR FLUSH_IN_PROGRESS_BIT) (f(t := Addressed len at)) fl n s3"
    using shape_address [OF s2(2), of t len calm N] by auto
  obtain s4 where "pstep Debug calm N s3 s4" "shape (w OR FLUSH_IN_PROGRESS_BIT) (f(t := Idle)) True n s4"
    using shape_push [OF s3(2), of t len at calm N] by auto
  then show ?thesis
    using reachable.step [OF reachable.step [OF reachable.step [OF s(1) s1(1)] s2(1)] s3(1)]
    unfolding stands_def by (blast intro: reachable.step)
qed

lemma stands_grant:
  assumes "stands calm N w f fl n" and "t < N" and "f t = Idle" and "open_word w"
    and "unat (state_offset w) + length p \<le> 1048576"
  shows "stands calm N (w + word_of_nat (length p) * OFFSET_ONE + WRITER_ONE)
    (f(t := Holding (state_offset w) p n)) fl (Suc n)"
  using stands_move [OF stands_move [OF assms(1) can_load [of t N f w p, OF assms(2-5)]] can_exchange, of t p] assms(4,5)
  by simp

text \<open>The runs below have two threads at work, \<open>0\<close> and \<open>1\<close>.\<close>

definition two :: "thread \<Rightarrow> thread \<Rightarrow> nat \<Rightarrow> thread" where
  "two a b = (\<lambda>t. if t = 0 then a else if t = 1 then b else Idle)"

lemma two_simps [simp]:
  "two a b 0 = a" "two a b (Suc 0) = b" "(two a b)(0 := c) = two c b" "(two a b)(Suc 0 := c) = two a c"
  by (auto simp: two_def)

lemma idle_two: "(\<lambda>_. Idle) = two Idle Idle"
  by (auto simp: two_def)

lemmas word_eval = layout_consts state_offset_def state_writers_def state_sealed_def state_flush_in_progress_def

text \<open>
  A first life of the buffer: thread 0 reserves a byte and copies it, thread 1 finds the
  buffer full, seals it and stores its slot, and thread 0 leaves as the last writer.
\<close>

lemma run_closing:
  "stands calm 2 0x100000001 (two LastOut Slotted) False 1"
  "stands calm 2 0x100000001 (two LastOut Sealer) False 1"
proof -
  have "stands calm 2 0 (two Idle Idle) False 0" using stands_start by (simp add: idle_two)
  from stands_grant [OF this, where t = 0 and p = "[7]"]
  have "stands calm 2 0x100000100 (two (Holding 0 [7] 0) Idle) False 1"
    by (simp add: word_eval)
  from stands_copy [OF this, where t = 0 and off = 0 and p = "[7]" and k = 0]
  have "stands calm 2 0x100000100 (two (Copied 0 [7] 0) Idle) False 1"
    by simp
  from stands_full [OF this, where t = 1]
  have "stands calm 2 0x100000100 (two (Copied 0 [7] 0) Full) False 1"
    by (simp add: word_eval)
  from stands_seal [OF this, where t = 1]
  have s: "stands calm 2 0x100000101 (two (Copied 0 [7] 0) Sealer) False 1"
    by (simp add: word_eval)
  from stands_leave [OF this, where t = 0 and off = 0 and p = "[7]" and k = 0]
  show "stands calm 2 0x100000001 (two LastOut Sealer) False 1"
    by (simp add: word_eval)
  from stands_slot [OF this, where t = 1]
  show "stands calm 2 0x100000001 (two LastOut Slotted) False 1"
    by simp
qed

text \<open>
  The second life, when the first one was flushed and reset while thread 1 still had its
  decision to make.
\<close>

lemma run_overtaken:
  "stands False 2 0x100000102 (two (Holding 0 [8] 0) Idle) True 1"
proof -
  from stands_look [OF run_closing(1), where t = 1]
  have "stands False 2 0x100000001 (two LastOut SawIdle) False 1"
    by (simp add: word_eval)
  from stands_flag [OF this, where t = 0]
  have "stands False 2 0x100000003 (two Owner SawIdle) False 1"
    by (simp add: word_eval)
  from stands_submit [OF this, where t = 0]
  have "stands False 2 0x100000003 (two Idle SawIdle) True 1"
    by (simp add: word_eval)
  from stands_complete [OF this, where t = 0]
  have "stands False 2 0 (two Clearing SawIdle) False 0"
    by simp
  from stands_clear [OF this, where t = 0]
  have "stands False 2 0 (two Idle SawIdle) False 0"
    by simp
  from stands_grant [OF this, where t = 0 and p = "[8]"]
  have "stands False 2 0x100000100 (two (Holding 0 [8] 0) SawIdle) False 1"
    by (simp add: word_eval)
  from stands_flag [OF this, where t = 1]
  have "stands False 2 0x100000102 (two (Holding 0 [8] 0) Owner) False 1"
    by (simp add: word_eval)
  from stands_submit [OF this, where t = 1] show ?thesis
    by (simp add: word_eval)
qed

lemma run_corrupt: "stands False 2 (- 256) (two Idle Idle) False 0"
proof -
  from stands_complete [OF run_overtaken, where t = 1]
  have "stands False 2 0 (two (Holding 0 [8] 0) Clearing) False 0"
    by simp
  from stands_clear [OF this, where t = 1]
  have "stands False 2 0 (two (Holding 0 [8] 0) Idle) False 0"
    by simp
  from stands_copy [OF this, where t = 0 and off = 0 and p = "[8]" and k = 0]
  have "stands False 2 0 (two (Copied 0 [8] 0) Idle) False 0"
    by simp
  from stands_leave [OF this, where t = 0 and off = 0 and p = "[8]" and k = 0] show ?thesis
    by (simp add: word_eval)
qed

end
