(* ===== verification/Protocol_Properties.thy ===== *)
theory Protocol_Properties
  imports Protocol_Runs
begin

text \<open>
  The properties of the flush protocol: what holds under every schedule, what holds as long
  as no reset overtakes a thread that is deciding about a flush, and the schedules of the
  program on which it fails.
\<close>

section \<open>Draining\<close>

text \<open>How many steps a thread may need to be done with a buffer; the number falls with each step.\<close>

fun rank :: "thread \<Rightarrow> nat" where
  "rank Idle = 0"
| "rank (Loaded w payload) = 8"
| "rank (Holding off payload k) = 7"
| "rank (Copied off payload k) = 6"
| "rank LastOut = 5"
| "rank Full = 8"
| "rank Sealer = 7"
| "rank Slotted = 6"
| "rank SawIdle = 5"
| "rank Owner = 4"
| "rank Marked = 3"
| "rank (Sliced len) = 2"
| "rank (Addressed len at) = 1"
| "rank Clearing = 1"

lemma rank_zero [simp]: "rank l = 0 \<longleftrightarrow> l = Idle"
  by (cases l) simp_all

lemma holder_can_copy:
  assumes "calm_inv N s" and "grant_of (ps_thread s t) = Some (off, p, k)"
  shows "unat off + length p \<le> 1048576"
    and "\<exists>b. write_buffer off p (ps_buf s) = Done b \<and> fb_state b = word_of s"
proof -
  have "k < length (ps_log s)" "ps_log s ! k = p" "unat off = start_of (ps_log s) k"
    "length (concat (ps_log s)) \<le> 1048576" "1048576 \<le> length (buf_mem (fb_buf (ps_buf s)))"
    using assms unfolding calm_inv_def logged_def stored_def by blast+
  then show "unat off + length p \<le> 1048576"
    "\<exists>b. write_buffer off p (ps_buf s) = Done b \<and> fb_state b = word_of s"
    using start_of_bound [of k "ps_log s"] by (auto simp: write_buffer_Done)
qed

lemma slice_can_load:
  assumes "calm_inv N s"
  shows "\<exists>data. fb_buffer_data pf (ps_buf s) = Done data"
proof -
  have "unat (state_offset (word_of s)) \<le> 1048576" "1048576 \<le> length (buf_mem (fb_buf (ps_buf s)))"
    using assms by (auto simp: calm_inv_def logged_def stored_def)
  moreover have "round_up (unat (state_offset (word_of s))) 4096 \<le> 1048576"
    using calculation(1) by (intro round_up_le_multiple) simp_all
  ultimately show ?thesis by (simp add: fb_buffer_data_eq Let_def)
qed

text \<open>\<open>t\<close> can step on, and the step leaves a sealed buffer sealed and drops nothing.\<close>

definition can_step :: "profile \<Rightarrow> nat \<Rightarrow> protocol \<Rightarrow> nat \<Rightarrow> bool" where
  "can_step pf N s t \<longleftrightarrow> (\<exists>s' l. pstep pf True N s s' \<and> ps_thread s' = (ps_thread s)(t := l)
     \<and> rank l < rank (ps_thread s t) \<and> (state_sealed (word_of s) \<longrightarrow> state_sealed (word_of s'))
     \<and> ps_dropped s' = ps_dropped s)"

lemma can_stepI:
  "pstep pf True N s s' \<Longrightarrow> ps_thread s' = (ps_thread s)(t := ps_thread s' t) \<Longrightarrow>
    rank (ps_thread s' t) < rank (ps_thread s t) \<Longrightarrow> (state_sealed (word_of s) \<Longrightarrow> state_sealed (word_of s')) \<Longrightarrow>
    ps_dropped s' = ps_dropped s \<Longrightarrow> can_step pf N s t"
  unfolding can_step_def by blast

text \<open>Every thread that is not idle can step.\<close>

lemma busy_can_step:
  assumes "calm_inv N s" and "loaded_checked pf s" and "ps_thread s t \<noteq> Idle"
  shows "can_step pf N s t"
proof (cases "ps_thread s t")
  case (Loaded w p)
  show ?thesis
  proof (cases "word_of s = w")
    case True
    obtain off new where g: "reserve_check pf (word_of_nat (length p)) w = Done (Inr (off, new))"
      using assms(2) Loaded unfolding loaded_checked_def by (metis surj_pair)
    have "\<not> state_sealed (word_of s)" using reserve_check_grant(1) [OF g] True by simp
    then show ?thesis
      by (intro can_stepI [OF pstep.exchange [OF Loaded g], where t = t])
        (simp_all add: cas_state_def True Loaded)
  next
    case False
    have "pstep pf True N s ((goto t Idle s)\<lparr>ps_buf := ps_buf s\<rparr>)"
      by (intro pstep.exchange_fails [OF Loaded, of 0]) (use False in \<open>simp add: cas_state_def\<close>)
    then show ?thesis by (rule can_stepI [where t = t]) (use Loaded in simp_all)
  qed
next
  case (Holding off p k)
  then obtain b where b: "write_buffer off p (ps_buf s) = Done b" "fb_state b = word_of s"
    using holder_can_copy(2) [OF assms(1), of t off p k] by auto
  show ?thesis
    by (rule can_stepI [OF pstep.copy [OF Holding b(1)], where t = t]) (use Holding b(2) in simp_all)
next
  case (Copied off p k)
  show ?thesis
    by (rule can_stepI [OF pstep.leave [OF Copied decrement_writers_def], where t = t])
      (use Copied drop_writer_flags in auto)
next
  case LastOut
  then have "ps_thread s t \<in> {LastOut, SawIdle}" by simp
  from pstep.flag [OF this set_flush_in_progress_def] show ?thesis
    by (rule can_stepI [where t = t]) (use LastOut in auto)
next
  case SawIdle
  then have "ps_thread s t \<in> {LastOut, SawIdle}" by simp
  from pstep.flag [OF this set_flush_in_progress_def] show ?thesis
    by (rule can_stepI [where t = t]) (use SawIdle in auto)
next
  case Full
  show ?thesis by (rule can_stepI [OF pstep.seal_full [OF Full], where t = t]) (use Full in auto)
next
  case Sealer
  show ?thesis by (rule can_stepI [OF pstep.claim_slot [OF Sealer], where t = t]) (use Sealer in auto)
next
  case Slotted
  show ?thesis by (rule can_stepI [OF pstep.look [OF Slotted], where t = t]) (use Slotted in auto)
next
  case Owner
  show ?thesis
    by (rule can_stepI [OF pstep.mark [OF Owner set_flush_in_progress_def], where t = t]) (use Owner in auto)
next
  case Marked
  obtain data where "fb_buffer_data pf (ps_buf s) = Done data" using slice_can_load [OF assms(1)] by blast
  from can_stepI [OF pstep.slice [OF Marked this], where t = t] show ?thesis using Marked by simp
next
  case (Sliced len)
  show ?thesis by (rule can_stepI [OF pstep.address [OF Sliced], where t = t]) (use Sliced in auto)
next
  case (Addressed len at)
  obtain e where "entry_for (ps_buf s) len at e" using entry_exists by blast
  from can_stepI [OF pstep.push [OF Addressed this], where t = t] show ?thesis
    using Addressed by (simp add: fb_submit_entry_def)
next
  case Clearing
  show ?thesis by (rule can_stepI [OF pstep.clear_slot [OF Clearing], where t = t]) (use Clearing in auto)
qed (use assms(3) in simp_all)

text \<open>One term of a sum falls.\<close>

lemma sum_move_less:
  fixes N :: nat and m :: "'a \<Rightarrow> nat"
  assumes "f' = f(t := l)" and "m l < m (f t)" and "t < N"
  shows "(\<Sum>u < N. m (f' u)) < (\<Sum>u < N. m (f u))"
proof (rule sum_strict_mono_ex1)
  show "finite {..<N}" by simp
  show "\<forall>u \<in> {..<N}. m (f' u) \<le> m (f u)" using assms(1,2) by simp
  show "\<exists>u \<in> {..<N}. m (f' u) < m (f u)" using assms by (intro bexI [of _ t]) simp_all
qed

text \<open>With every thread outside and no push refused, a sealed buffer is with the kernel.\<close>

lemma quiet_in_flight:
  assumes "calm_inv N s" and "state_sealed (word_of s)" and "\<forall>t. ps_thread s t = Idle" and "\<not> ps_dropped s"
  shows "ps_inflight s" and "settled s"
proof -
  show settled: "settled s" using assms(3) by (simp add: settled_def)
  moreover have "holders s = {}" "owners s = {}" using assms(3) by (simp_all add: holders_def owners_def)
  ultimately show "ps_inflight s" using assms(1,2,4) by (auto simp: calm_inv_def closing_def one_owner_def split: if_splits)
qed

section \<open>Properties\<close>

text \<open>What the slice of a flushed buffer holds: every payload granted, in the order of the grants.\<close>

lemma flush_slice_complete:
  assumes "reachable pf True N s" and "N < 2 ^ 24" and "state_flush_in_progress (word_of s)"
  shows "holders s = {} \<and> state_sealed (word_of s)
    \<and> unat (state_offset (word_of s)) = length (concat (ps_log s))
    \<and> (\<exists>data. fb_buffer_data pf (ps_buf s) = Done (buf_ptr (fb_buf (ps_buf s)), data)
        \<and> length (concat (ps_log s)) \<le> length data
        \<and> take (length (concat (ps_log s))) data = concat (ps_log s))"
proof -
  let ?log = "ps_log s" and ?mem = "buf_mem (fb_buf (ps_buf s))"
  have inv: "calm_inv N s" using assms(1,2) by (rule reachable_calm)
  have empty: "holders s = {}" "state_sealed (word_of s)"
    using inv assms(3) by (simp_all add: calm_inv_def closing_def)
  have off: "unat (state_offset (word_of s)) = length (concat ?log)" "length (concat ?log) \<le> 1048576"
    and len: "1048576 \<le> length ?mem"
    using inv unfolding calm_inv_def logged_def stored_def by blast+
  have "stored s" using inv by (simp add: calm_inv_def)
  from whole_log [OF this empty(1)] have mem: "take (length (concat ?log)) ?mem = concat ?log" .
  let ?k = "round_up (length (concat ?log)) 4096"
  have "?k \<le> 1048576" using off(2) by (intro round_up_le_multiple) simp_all
  moreover have "length (concat ?log) \<le> ?k" by (rule round_up_ge)
  ultimately have "fb_buffer_data pf (ps_buf s) = Done (buf_ptr (fb_buf (ps_buf s)), take ?k ?mem)"
    "take (length (concat ?log)) (take ?k ?mem) = concat ?log" "length (concat ?log) \<le> length (take ?k ?mem)"
    using len mem by (simp_all add: fb_buffer_data_eq off(1) Let_def min_def)
  then show ?thesis using empty off(1) by blast
qed

lemma run_flushing: "stands True 2 0x100000003 (two Owner SawIdle) False 1"
proof -
  from stands_look [OF run_closing(1), where t = 1]
  have "stands True 2 0x100000001 (two LastOut SawIdle) False 1"
    by (simp add: word_eval)
  from stands_flag [OF this, where t = 0] show ?thesis by (simp add: word_eval)
qed

text \<open>
  C8: Reservations are exclusive. On every such schedule the byte ranges held by two
  threads do not overlap, whatever the threads are doing, and the copy into a held range is
  always inside the allocation.
\<close>
theorem reservations_exclusive:
  assumes "reachable pf True N s" and "N < 2 ^ 24" and "t \<noteq> t'"
    and "grant_of (ps_thread s t) = Some (off, p, k)" and "grant_of (ps_thread s t') = Some (off', p', k')"
  shows "(unat off + length p \<le> unat off' \<or> unat off' + length p' \<le> unat off)
    \<and> write_buffer off p (ps_buf s) \<noteq> Undefined"
proof -
  have inv: "calm_inv N s" using assms(1,2) by (rule reachable_calm)
  have g: "k < length (ps_log s)" "ps_log s ! k = p" "unat off = start_of (ps_log s) k"
    "k' < length (ps_log s)" "ps_log s ! k' = p'" "unat off' = start_of (ps_log s) k'"
    using inv assms(4,5) unfolding calm_inv_def logged_def by blast+
  have "k \<noteq> k'" using inv assms(3-5) unfolding calm_inv_def logged_def by blast
  then show ?thesis
    using log_disjoint [of k k' "ps_log s"] g holder_can_copy(2) [OF inv assms(4)] by auto
qed

lemma run_two_holders:
  "stands calm 2 0x300000200 (two (Holding 0 [1, 2] 0) (Holding 2 [3] 1)) False (Suc 1)"
proof -
  have "stands calm 2 0 (two Idle Idle) False 0" using stands_start by (simp add: idle_two)
  from stands_grant [OF this, where t = 0 and p = "[1, 2]"]
  have "stands calm 2 0x200000100 (two (Holding 0 [1, 2] 0) Idle) False 1"
    by (simp add: word_eval)
  from stands_grant [OF this, where t = 1 and p = "[3]"] show ?thesis
    by (simp add: word_eval)
qed

theorem reservations_exclusive_witness:
  "\<exists>(s :: protocol) off p k off' p' k'. grant_of (ps_thread s 0) = Some (off, p, k)
     \<and> grant_of (ps_thread s 1) = Some (off', p', k')
     \<and> (unat off + length p \<le> unat off' \<or> unat off' + length p' \<le> unat off)"
proof -
  obtain s where s: "reachable Debug True 2 s" "ps_thread s = two (Holding 0 [1, 2] 0) (Holding 2 [3] 1)"
    using run_two_holders unfolding stands_def shape_def by blast
  have "grant_of (ps_thread s 0) = Some (0, [1, 2], 0)" "grant_of (ps_thread s 1) = Some (2, [3], 1)"
    by (simp_all add: s(2))
  moreover from reservations_exclusive [OF s(1) _ _ this] have
    "unat (0 :: usize) + length [1, 2 :: u8] \<le> unat (2 :: usize) \<or> unat (2 :: usize) + length [3 :: u8] \<le> unat (0 :: usize)"
    by simp
  ultimately show ?thesis by blast
qed

text \<open>
  C16: The writer count is exact. On every such schedule the count packed in the word is the
  number of threads that have reserved space and not yet left, so it never underflows, and
  a thread that sees zero knows that every copy has finished.
\<close>
theorem writer_count_exact:
  assumes "reachable pf True N s" and "N < 2 ^ 24"
  shows "unat (state_writers (word_of s)) = card (holders s)
    \<and> (state_writers (word_of s) = 0 \<longrightarrow> take (length (concat (ps_log s))) (buf_mem (fb_buf (ps_buf s))) = concat (ps_log s))"
proof -
  have inv: "calm_inv N s" using assms by (rule reachable_calm)
  then have card: "unat (state_writers (word_of s)) = card (holders s)" by (simp add: calm_inv_def counted_def)
  have "take (length (concat (ps_log s))) (buf_mem (fb_buf (ps_buf s))) = concat (ps_log s)"
    if "state_writers (word_of s) = 0"
  proof (rule whole_log)
    show "holders s = {}" using card that inv holders_finite [of N s] by (simp add: calm_inv_def)
  qed (use inv in \<open>simp add: calm_inv_def\<close>)
  then show ?thesis using card by blast
qed

theorem writer_count_exact_witness:
  "\<exists>s. reachable Debug True 2 s \<and> card (holders s) = 2"
proof -
  obtain s where s: "reachable Debug True 2 s" "word_of s = 0x300000200"
    using run_two_holders unfolding stands_def shape_def by blast
  have "unat (state_writers (word_of s)) = 2" by (simp add: s(2) word_eval)
  then show ?thesis using writer_count_exact [OF s(1)] s(1) by auto
qed

text \<open>
  C15: The flush of a buffer has one owner, or none any more. On every schedule, calm or not, the
  flush-in-progress bit is set exactly while some thread has won the flush and not yet
  pushed the entry, or the write is in flight, or the submission queue refused the entry;
  never two threads at once, and never two of the three.
\<close>
theorem one_flush_owner:
  assumes "reachable pf calm N s"
  shows "(state_flush_in_progress (word_of s) \<longleftrightarrow> ps_inflight s \<or> ps_dropped s \<or> (\<exists>t. owns (ps_thread s t)))
    \<and> (\<forall>t t'. owns (ps_thread s t) \<longrightarrow> owns (ps_thread s t') \<longrightarrow> t = t')
    \<and> (\<forall>t. ps_inflight s \<or> ps_dropped s \<longrightarrow> \<not> owns (ps_thread s t)) \<and> \<not> (ps_inflight s \<and> ps_dropped s)"
  using reachable_one_owner [OF assms]
  by (auto simp: one_owner_def owners_def set_eq_iff split: if_splits)

theorem one_flush_owner_witness:
  "\<exists>s :: protocol. ps_thread s 0 = Owner \<and> state_flush_in_progress (word_of s) \<and> \<not> ps_inflight s \<and> \<not> ps_dropped s"
proof -
  obtain s where s: "reachable Debug True 2 s" "ps_thread s = two Owner SawIdle"
    using run_flushing unfolding stands_def shape_def by blast
  then have "ps_thread s 0 = Owner" "owns (ps_thread s 0)" by simp_all
  then show ?thesis using one_flush_owner [OF s(1)] by blast
qed

text \<open>
  Nothing in the program keeps a schedule calm. With two threads, the last writer of a
  sealed buffer can flush it and have it reset while the sealer, which saw the writer count
  at zero, has yet to set the flush bit; the sealer then takes the new, open buffer for its
  own and submits it, while a writer of that new life has reserved space and not copied its
  payload. The kernel is handed a buffer with an unwritten reservation.
\<close>
lemma flush_overtakes_writer:
  "\<exists>s off k. reachable Debug False 2 s \<and> ps_inflight s \<and> \<not> state_sealed (word_of s)
     \<and> ps_thread s 0 = Holding off [8] k"
proof -
  obtain s where s: "reachable Debug False 2 s" "ps_inflight s" "word_of s = 0x100000102"
      "ps_thread s = two (Holding 0 [8] 0) Idle"
    using run_overtaken unfolding stands_def shape_def by blast
  moreover have "\<not> state_sealed (word_of s)" by (simp add: s(3) word_eval)
  moreover have "ps_thread s 0 = Holding 0 [8] 0" by (simp add: s(4))
  ultimately show ?thesis by blast
qed

text \<open>
  C33: The same race destroys the buffer. When the write of the previous property completes
  and the buffer is reset, the late writer's decrement takes the count below zero and
  borrows from the offset. In the state that remains every thread is outside, no write is
  in flight, and the word claims the maximal writer count and offset: every later
  reservation, of any size up to a megabyte, is refused as \<open>InsufficientSpace\<close>, and no
  thread is left whose exit could ever start a flush of the buffer.
\<close>
theorem overtaken_writer_corrupts:
  "\<exists>s. reachable Debug False 2 s \<and> (\<forall>t. ps_thread s t = Idle) \<and> \<not> ps_inflight s
     \<and> unat (state_writers (word_of s)) = 2 ^ 24 - 1 \<and> unat (state_offset (word_of s)) = 2 ^ 32 - 1
     \<and> (\<forall>n. unat n \<le> 1048576 \<longrightarrow>
          reserve_space Debug (\<lambda>b. b) n (ps_buf s) = Done (Inl InsufficientSpace, ps_buf s))"
proof -
  obtain s where s: "reachable Debug False 2 s" "\<not> ps_inflight s" "word_of s = - 256"
      "ps_thread s = two Idle Idle"
    using run_corrupt unfolding stands_def shape_def by blast
  have w: "unat (state_writers (word_of s)) = 2 ^ 24 - 1" "unat (state_offset (word_of s)) = 2 ^ 32 - 1"
    "\<not> state_sealed (word_of s)" "\<not> state_flush_in_progress (word_of s)"
    using fields_of_drop_writer_cases [of 0] s(3)
    by (simp_all add: fields_of_def WRITER_ONE_def WRITER_SHIFT_def)
  have "ps_thread s t = Idle" for t by (simp add: s(4) two_def)
  moreover have "reserve_space Debug (\<lambda>b. b) n (ps_buf s) = Done (Inl InsufficientSpace, ps_buf s)"
    if "unat n \<le> 1048576" for n
    using that w by (simp add: reserve_space_def reserve_check_eq)
  ultimately show ?thesis using s(1,2) w by blast
qed

theorem overtaken_writer_corrupts_witness:
  "\<exists>s :: protocol. unat (state_offset (word_of s)) = 2 ^ 32 - 1
     \<and> reserve_space Debug (\<lambda>b. b) 1 (ps_buf s) = Done (Inl InsufficientSpace, ps_buf s)"
  using overtaken_writer_corrupts by fastforce

text \<open>
  The address can come too late. Even on a calm schedule the last writer may submit the
  sealed buffer before the sealer has stored the address slot it claimed: the kernel writes
  to the address the buffer had before, and the slot stored afterwards, which is the one
  the completion will report, is a different one.
\<close>
lemma submitted_before_slot:
  "\<exists>s s'. reachable Debug True 2 s \<and> ps_inflight s \<and> ps_thread s 1 = Sealer
     \<and> pstep Debug True 2 s s' \<and> ps_inflight s' \<and> fb_offset (ps_buf s') \<noteq> fb_offset (ps_buf s)"
proof -
  from stands_flag [OF run_closing(2), where t = 0]
  have "stands True 2 0x100000003 (two Owner Sealer) False 1" by (simp add: word_eval)
  from stands_submit [OF this, where t = 0]
  obtain s where s: "reachable Debug True 2 s" "ps_inflight s" "ps_thread s = two Idle Sealer"
    unfolding stands_def shape_def by (auto simp: word_eval)
  let ?s = "(goto 1 Slotted s)\<lparr>ps_buf := (ps_buf s)\<lparr>fb_local_address := fb_local_address (ps_buf s) + 4096\<rparr>\<rparr>"
  have one: "ps_thread s 1 = Sealer" by (simp add: s(3))
  have "pstep Debug True 2 s ?s" by (rule pstep.claim_slot [OF one])
  moreover have "fb_offset (ps_buf ?s) \<noteq> fb_offset (ps_buf s)" by (simp add: fb_offset_def)
  ultimately show ?thesis using s(1,2) one by (intro exI [of _ s] exI [of _ ?s]) simp
qed

end
