(* ===== verification/Put_Protocol.thy ===== *)
theory Put_Protocol
  imports Ring_Properties Protocol_Properties
begin

text \<open>
  The link between the two views of \<open>put\<close>: the method as a function on the ring (theory
  \<open>Buffer_Ring\<close>) and the method as a sequence of accesses to one buffer (theory
  \<open>Buffer_Protocol\<close>). Every call of the method is a run of the protocol by its thread, so
  the protocol's schedules cover the method, and the protocol takes no step \<open>put\<close> does not
  take.
\<close>

abbreviation runs :: "profile \<Rightarrow> nat \<Rightarrow> protocol \<Rightarrow> protocol \<Rightarrow> bool" where
  "runs pf N \<equiv> (pstep pf False N)\<^sup>*\<^sup>*"

text \<open>
  \<open>reaches pf N s t b\<close>: thread \<open>t\<close>, running alone from \<open>s\<close>, comes back to idle and leaves
  the buffer as \<open>b\<close>.
\<close>

definition reaches :: "profile \<Rightarrow> nat \<Rightarrow> protocol \<Rightarrow> nat \<Rightarrow> FlushBuffer \<Rightarrow> bool" where
  "reaches pf N s t b \<longleftrightarrow> (\<exists>s'. runs pf N s s' \<and> ps_buf s' = b \<and> ps_thread s' = (ps_thread s)(t := Idle))"

lemma reaches_step:
  assumes "pstep pf False N s s1" and "reaches pf N s1 t b" and "ps_thread s1 = (ps_thread s)(t := l)"
  shows "reaches pf N s t b"
  using assms unfolding reaches_def
  by (metis converse_rtranclp_into_rtranclp fun_upd_upd)

lemma reaches_here: "ps_thread s t = Idle \<Longrightarrow> reaches pf N s t (ps_buf s)"
  unfolding reaches_def by (metis fun_upd_triv rtranclp.rtrancl_refl)

text \<open>What \<open>submit_buffer\<close> does to the buffer: it records the entry, or nothing if the queue is full.\<close>

lemma submit_buffer_effect:
  assumes "submit_buffer U (flush_buffer_methods pf) fb q = Done (q', fb')"
  obtains data where "fb_buffer_data pf fb = Done data"
    and "fb' = fb \<or> (\<exists>e. entry_for fb (length (snd data)) (fb_offset fb) e \<and> fb' = fb_submit_entry e fb)"
proof -
  obtain data where d: "fb_buffer_data pf fb = Done data"
    using assms by (auto simp: submit_buffer_def)
  then have "fst data = buf_ptr (fb_buf fb)" "take (length (snd data)) (buf_mem (fb_buf fb)) = snd data"
    by (auto simp: fb_buffer_data_eq Let_def min_def split: if_splits)
  then have "entry_for fb (length (snd data)) (fb_offset fb) (write_entry data (fb_local_address fb) (fb_addr fb) bs)" for bs :: "'a BackingStore"
    by (simp add: entry_for_def write_entry_def fb_user_data_def fb_offset_def del: take_take)
  moreover have "fb' = fb \<or> fb' = fb_submit_entry (write_entry data (fb_local_address fb) (fb_addr fb) (get_backing_store q)) fb"
    using assms d by (auto simp: submit_buffer_def submit_buffer_raw_eq fb_submit_entry_def Let_def split: option.splits)
  ultimately show thesis using that [OF d] by blast
qed

text \<open>The tail: the owner submits the buffer or resets it.\<close>

lemma owner_reaches:
  assumes "ring_ok r" and "i < length (br_ring r)"
    and "dispatch pf U i r = Done r'" and "ps_thread s t = Owner" and "ps_buf s = br_ring r ! i"
  shows "reaches pf N s t (br_ring r' ! i)"
proof (cases "br_store r \<noteq> None \<and> br_auto_flush r")
  case True
  then obtain q where q: "br_store r = Some q" and fl: "flush pf U i r = Done r'"
    using assms(3) by (auto simp: dispatch_pos [OF assms(1,2)])
  obtain q' b where b: "submit_buffer U (flush_buffer_methods pf) (snd (set_flush_in_progress (br_ring r ! i))) q = Done (q', b)"
    and r': "br_ring r' ! i = b"
    using fl q assms(2) by (auto simp: flush_def Let_def)
  let ?b1 = "snd (set_flush_in_progress (br_ring r ! i))"
  obtain data where d: "fb_buffer_data pf ?b1 = Done data"
    and e: "b = ?b1 \<or> (\<exists>e. entry_for ?b1 (length (snd data)) (fb_offset ?b1) e \<and> b = fb_submit_entry e ?b1)"
    using submit_buffer_effect [OF b] by blast
  let ?s1 = "(goto t Marked s)\<lparr>ps_buf := ?b1\<rparr>"
  let ?s2 = "goto t (Sliced (length (snd data))) ?s1"
  let ?s3 = "goto t (Addressed (length (snd data)) (fb_offset (ps_buf ?s2))) ?s2"
  have 1: "pstep pf False N s ?s1"
    using pstep.mark [OF assms(4), of "fst (set_flush_in_progress (ps_buf s))" ?b1] by (simp add: assms(5))
  have 2: "pstep pf False N ?s1 ?s2" using d by (intro pstep.slice) simp_all
  have 3: "pstep pf False N ?s2 ?s3" by (intro pstep.address) simp
  have "reaches pf N ?s3 t b"
    using e
  proof (elim disjE exE conjE)
    assume "b = ?b1"
    let ?s4 = "(goto t Idle ?s3)\<lparr>ps_dropped := True\<rparr>"
    have 4: "pstep pf False N ?s3 ?s4" by (rule pstep.push_full) simp
    have "reaches pf N ?s4 t b" using reaches_here [of ?s4 t pf N] \<open>b = ?b1\<close> by simp
    then show ?thesis by (rule reaches_step [OF 4, where l = Idle]) simp
  next
    fix e
    assume "entry_for ?b1 (length (snd data)) (fb_offset ?b1) e" "b = fb_submit_entry e ?b1"
    let ?s4 = "(goto t Idle ?s3)\<lparr>ps_buf := fb_submit_entry e (ps_buf ?s3), ps_inflight := True\<rparr>"
    have 4: "pstep pf False N ?s3 ?s4"
      by (rule pstep.push [where at = "fb_offset ?b1"]) (use \<open>entry_for _ _ _ _\<close> in simp_all)
    have "reaches pf N ?s4 t b" using reaches_here [of ?s4 t pf N] \<open>b = fb_submit_entry e ?b1\<close> by simp
    then show ?thesis by (rule reaches_step [OF 4, where l = Idle]) simp
  qed
  then have "reaches pf N ?s2 t b" by (rule reaches_step [OF 3]) simp
  then have "reaches pf N ?s1 t b" by (rule reaches_step [OF 2]) simp
  then show ?thesis unfolding r' by (rule reaches_step [OF 1, where l = Marked]) simp
next
  case False
  then have r': "r' = reset_buffer i r" using assms(3) by (auto simp: dispatch_pos [OF assms(1,2)])
  let ?s1 = "(goto t Clearing s)\<lparr>ps_buf := (ps_buf s)\<lparr>fb_state := 0\<rparr>, ps_log := []\<rparr>"
  let ?s2 = "(goto t Idle ?s1)\<lparr>ps_buf := (ps_buf ?s1)\<lparr>fb_local_address := 0\<rparr>\<rparr>"
  have 1: "pstep pf False N s ?s1" using assms(4) by (rule pstep.release) simp
  have 2: "pstep pf False N ?s1 ?s2" by (rule pstep.clear_slot) simp
  have "reaches pf N ?s2 t (br_ring r' ! i)"
    using reaches_here [of ?s2 t pf N] assms(2,5) by (simp add: r' reset_buffer_eq)
  then have "reaches pf N ?s1 t (br_ring r' ! i)" by (rule reaches_step [OF 2, where l = Idle]) simp
  then show ?thesis by (rule reaches_step [OF 1, where l = Clearing]) simp
qed

text \<open>The step before it: setting the flag, and going on only as its first setter.\<close>

lemma flag_reaches:
  assumes "ring_ok r" and "i < length (br_ring r)"
    and "ps_thread s t \<in> {LastOut, SawIdle}" and "ps_buf s = br_ring r ! i"
    and "if state_flush_in_progress (fb_state (br_ring r ! i)) then r' = flag_flush i r
         else dispatch pf U i (flag_flush i r) = Done r'"
  shows "reaches pf N s t (br_ring r' ! i)"
proof -
  let ?l = "if state_flush_in_progress (word_of s) then Idle else Owner"
  let ?s = "(goto t ?l s)\<lparr>ps_buf := (ps_buf s)\<lparr>fb_state := word_of s OR FLUSH_IN_PROGRESS_BIT\<rparr>\<rparr>"
  have st: "pstep pf False N s ?s"
    using pstep.flag [OF assms(3) set_flush_in_progress_def, of pf False N]
    by (cases "state_flush_in_progress (word_of s)") simp_all
  have "reaches pf N ?s t (br_ring r' ! i)"
  proof (cases "state_flush_in_progress (word_of s)")
    case True
    then show ?thesis
      using reaches_here [of ?s t pf N] assms(2,4,5) by simp
  next
    case False
    then show ?thesis
      using assms(2,4,5) by (intro owner_reaches [OF ring_ok_flag_flush [OF assms(1), of i]]) simp_all
  qed
  then show ?thesis by (rule reaches_step [OF st, where l = ?l]) simp
qed

text \<open>
  C17: The writing call of \<open>put\<close> is a run of the protocol. Take a thread that holds a
  reservation of the buffer, in any state of the protocol, and a ring whose buffer \<open>i\<close> is the
  protocol's buffer. If the sequential \<open>put\<close> with that offset and payload returns, the
  thread, stepping on its own, comes back to idle and leaves exactly the buffer \<open>put\<close>
  leaves in the ring: word, memory, address slot and recorded entry. The submission queue
  may take the entry or refuse it, and there may be no dispatcher.
\<close>
theorem put_write_is_protocol_run:
  assumes "ring_ok r" and "i < length (br_ring r)"
    and "ps_buf s = br_ring r ! i" and "ps_thread s t = Holding offset payload k"
    and "put pf U i (Inr offset) payload r = Done (x, r')"
  shows "\<exists>s'. (pstep pf False N)\<^sup>*\<^sup>* s s' \<and> ps_buf s' = br_ring r' ! i
    \<and> ps_thread s' = (ps_thread s)(t := Idle)"
proof -
  let ?w = "fb_state (br_ring r ! i)"
  obtain b1 where b1: "write_buffer offset payload (br_ring r ! i) = Done b1"
    using assms(5) by (auto simp: put_offset [OF assms(2)] Let_def)
  have w1: "fb_state b1 = ?w" using b1 by (auto simp: write_buffer_Done)
  let ?b2 = "b1\<lparr>fb_state := ?w - WRITER_ONE\<rparr>"
  let ?r1 = "on_buffer i (\<lambda>_. ?b2) r"
  let ?last = "state_writers ?w = 1 \<and> state_sealed ?w"
  let ?s1 = "(goto t (Copied offset payload k) s)\<lparr>ps_buf := b1\<rparr>"
  let ?s2 = "(goto t (if ?last then LastOut else Idle) ?s1)\<lparr>ps_buf := ?b2\<rparr>"
  have 1: "pstep pf False N s ?s1" using assms(4) b1 by (intro pstep.copy) (simp_all add: assms(3))
  have 2: "pstep pf False N ?s1 ?s2"
    using pstep.leave [of ?s1 t offset payload k ?w ?b2 pf False N] by (simp add: decrement_writers_def w1)
  have "buffer_wf (fb_buf (br_ring r ! i))" "fb_pos (br_ring r ! i) = word_of_nat i"
    using assms(1,2) by (simp_all add: ring_ok_def buffer_ok_def)
  then have "buffer_ok i ?b2"
    using b1 copy_into_wf [of "fb_buf (br_ring r ! i)" offset payload] by (auto simp: write_buffer_def buffer_ok_def)
  then have r1: "ring_ok ?r1" using assms(1) by auto
  have "reaches pf N ?s2 t (br_ring r' ! i)"
  proof (cases ?last)
    case True
    have fl: "state_flush_in_progress (?w - WRITER_ONE) = state_flush_in_progress ?w" by (rule drop_writer_flags)
    have "if state_flush_in_progress (fb_state (br_ring ?r1 ! i)) then r' = flag_flush i ?r1
         else dispatch pf U i (flag_flush i ?r1) = Done r'"
      using assms(2,5) True b1 fl by (auto simp: put_offset [OF assms(2)] Let_def)
    then show ?thesis
      using True assms(2) by (intro flag_reaches [OF r1]) simp_all
  next
    case False
    then have "r' = ?r1" using assms(5) b1 by (auto simp: put_offset [OF assms(2)] Let_def split: if_splits)
    then show ?thesis
      unfolding if_not_P [OF False]
      using reaches_here [of "(goto t Idle ?s1)\<lparr>ps_buf := ?b2\<rparr>" t pf N] assms(2) by simp
  qed
  then have "reaches pf N ?s1 t (br_ring r' ! i)" by (rule reaches_step [OF 2]) simp
  then have "reaches pf N s t (br_ring r' ! i)" by (rule reaches_step [OF 1]) simp
  then show ?thesis by (simp add: reaches_def)
qed

text \<open>A rotation does not touch a buffer that is not available.\<close>

lemma rotate_keeps_closed:
  assumes "i < length (br_ring r)" and "\<not> is_available (br_ring r ! i)"
  shows "br_ring (snd (rotate_after_seal p r)) ! i = br_ring r ! i"
proof -
  have "br_ring (snd (rotate_scan m c sz r)) ! i = br_ring r ! i" for m c sz
  proof (cases "find (\<lambda>k. is_available (br_ring r ! candidate r k)) [0..<m]")
    case (Some k)
    then have "candidate r k \<noteq> i" using assms(2) by (auto simp: find_upt_Some_iff)
    then show ?thesis using Some assms(1) by (simp add: rotate_scan_eq reserve_buf_addr_nth)
  qed (simp add: rotate_scan_eq)
  then show ?thesis by (simp add: rotate_after_seal_def Let_def split: option.splits)
qed

lemma sealed_ring_at:
  assumes "i < length (br_ring r)"
  shows "br_ring (sealed_ring i r) ! i = (br_ring r ! i)
    \<lparr>fb_state := fb_state (br_ring r ! i) OR SEALED_BIT, fb_local_address := br_next_address_range r\<rparr>"
  using assms by (simp add: sealed_ring_def Let_def rotate_keeps_closed not_available_sealed)

text \<open>
  C18: The sealing call of \<open>put\<close> is a run of the protocol, too: from \<open>Full\<close>, through the
  sealing bit, the address slot, the rotation, the look at the writer count and, if it saw
  none, the flush. In between the rotation leaves the sealed buffer alone.
\<close>
theorem put_seal_is_protocol_run:
  assumes "ring_ok r" and "i < length (br_ring r)"
    and "ps_buf s = br_ring r ! i" and "ps_thread s t = Full"
    and "put pf U i (Inl InsufficientSpace) payload r = Done (x, r')"
  shows "\<exists>s'. (pstep pf False N)\<^sup>*\<^sup>* s s' \<and> ps_buf s' = br_ring r' ! i
    \<and> ps_thread s' = (ps_thread s)(t := Idle)"
proof -
  let ?b = "br_ring r ! i" and ?w = "fb_state (br_ring r ! i)" and ?r4 = "sealed_ring i r"
  let ?b1 = "?b\<lparr>fb_state := ?w OR SEALED_BIT\<rparr>"
  let ?b2 = "?b1\<lparr>fb_local_address := br_next_address_range r\<rparr>"
  have at: "br_ring ?r4 ! i = ?b2" using sealed_ring_at [OF assms(2)] by simp
  have r4: "ring_ok ?r4" using assms(1) by (rule ring_ok_sealed_ring)
  have "reaches pf N s t (br_ring r' ! i)"
  proof (cases "state_sealed ?w")
    case True
    let ?s1 = "(goto t Idle s)\<lparr>ps_buf := ?b1\<rparr>"
    have "pstep pf False N s ?s1"
      using pstep.seal_full [OF assms(4), of pf False N] True by (simp add: assms(3))
    moreover have "br_ring r' ! i = ?b1"
      using assms(2,5) True by (auto simp: put_insufficient [OF assms(2)] Let_def)
    then have "reaches pf N ?s1 t (br_ring r' ! i)" using reaches_here [of ?s1 t pf N] by simp
    ultimately show ?thesis by (rule reaches_step) simp
  next
    case False
    let ?s1 = "(goto t Sealer s)\<lparr>ps_buf := ?b1\<rparr>"
    let ?s2 = "(goto t Slotted ?s1)\<lparr>ps_buf := ?b2\<rparr>"
    have 1: "pstep pf False N s ?s1"
      using pstep.seal_full [OF assms(4), of pf False N] False by (simp add: assms(3))
    have 2: "pstep pf False N ?s1 ?s2"
      using pstep.claim_slot [of ?s1 t pf False N "br_next_address_range r"] by simp
    have "reaches pf N ?s2 t (br_ring r' ! i)"
    proof (cases "state_writers ?w = 0")
      case True
      let ?s3 = "goto t SawIdle ?s2"
      have 3: "pstep pf False N ?s2 ?s3" using pstep.look [of ?s2 t pf False N] True by simp
      have "if state_flush_in_progress (fb_state (br_ring ?r4 ! i)) then r' = flag_flush i ?r4
         else dispatch pf U i (flag_flush i ?r4) = Done r'"
        using assms(5) False True by (auto simp: put_insufficient [OF assms(2)] Let_def at split: if_splits)
      then have "reaches pf N ?s3 t (br_ring r' ! i)"
        using assms(2) at by (intro flag_reaches [OF r4]) simp_all
      then show ?thesis by (rule reaches_step [OF 3]) simp
    next
      case nz: False
      let ?s3 = "goto t Idle ?s2"
      have 3: "pstep pf False N ?s2 ?s3" using pstep.look [of ?s2 t pf False N] nz by simp
      have "r' = ?r4" using assms(5) False nz by (simp add: put_insufficient [OF assms(2)] Let_def)
      then have "reaches pf N ?s3 t (br_ring r' ! i)" using reaches_here [of ?s3 t pf N] at by simp
      then show ?thesis by (rule reaches_step [OF 3]) simp
    qed
    then have "reaches pf N ?s1 t (br_ring r' ! i)" by (rule reaches_step [OF 2]) simp
    then show ?thesis by (rule reaches_step [OF 1]) simp
  qed
  then show ?thesis by (simp add: reaches_def)
qed

definition demo_at :: "sim BufferRing \<Rightarrow> thread \<Rightarrow> protocol" where
  "demo_at r l = \<lparr>ps_buf = br_ring r ! 0, ps_thread = (\<lambda>_. Idle)(0 := l), ps_inflight = False, ps_dropped = False,
     ps_log = [[1, 2]]\<rparr>"

lemma demo_at_sel [simp]: "ps_buf (demo_at r l) = br_ring r ! 0" "ps_thread (demo_at r l) 0 = l"
  by (simp_all add: demo_at_def)

text \<open>A dispatcher whose submission queue is full.\<close>

definition full_quik :: "sim QuikIO" where
  "full_quik = Searalized \<lparr>bs_store = 3, bs_flusher = (sim_init 1 [])\<lparr>sim_sq := [demo_entry]\<rparr>, bs_mode = SerializedWrites\<rparr>"

lemma dispatch_Done:
  assumes "ring_ok r" and "i < length (br_ring r)" and "br_store r = Some q" and "submittable (br_ring r ! i)"
  shows "\<exists>r'. dispatch pf U i r = Done r'"
proof -
  obtain e where "flush pf U i r = Done (submitted U q i e (flag_flush i r))"
    using flush_submits [OF assms(2,3,4)] by metis
  then show ?thesis by (simp add: dispatch_pos [OF assms(1,2)])
qed

theorem put_write_is_protocol_run_witness:
  "\<exists>r' s'. put Debug sim_api 0 (Inr 0) [1, 2] (demo_ring [0x200000101, 0] 4096 (Some full_quik) True)
      = Done (Inr SuccessfullWriteFlush, r')
    \<and> (pstep Debug False 1)\<^sup>*\<^sup>* (demo_at (demo_ring [0x200000101, 0] 4096 (Some full_quik) True) (Holding 0 [1, 2] 0)) s'
    \<and> ps_buf s' = br_ring r' ! 0"
proof -
  let ?r = "demo_ring [0x200000101, 0] 4096 (Some full_quik) True"
  let ?r1 = "on_buffer 0 (written 0 [1, 2]) ?r"
  have ok: "ring_ok ?r" by (rule demo_ring_ok) simp_all
  have len: "0 < length (br_ring ?r)" by simp
  have w: "state_sealed 0x200000101" "state_writers (0x200000101 :: usize) = 1" "\<not> state_flush_in_progress 0x200000101"
    by (simp_all add: state_sealed_def state_writers_def state_flush_in_progress_def layout_consts)
  have "ring_ok ?r1" by (rule ring_ok_written [OF ok len]) simp
  moreover have "submittable (br_ring (flag_flush 0 ?r1) ! 0)"
    by (simp add: submittable_def buffer_wf_def state_offset_def layout_consts demo_buffer_def)
  ultimately obtain r' where "dispatch Debug sim_api 0 (flag_flush 0 ?r1) = Done r'"
    using dispatch_Done [of "flag_flush 0 ?r1" 0 full_quik Debug sim_api] ring_ok_flag_flush [of ?r1 0] by auto
  then have p: "put Debug sim_api 0 (Inr 0) [1, 2] ?r = Done (Inr SuccessfullWriteFlush, r')"
    using w by (simp add: put_writes Let_def)
  show ?thesis
    using put_write_is_protocol_run [OF ok len demo_at_sel(1) demo_at_sel(2) p, of 1] p by blast
qed

theorem put_seal_is_protocol_run_witness:
  "\<exists>r' s'. put Debug sim_api 0 (Inl InsufficientSpace) [1, 2] (demo_ring [0x200000000, 0] 4096 (Some demo_quik) True)
      = Done (Inr SuccessfullWriteFlush, r')
    \<and> (pstep Debug False 1)\<^sup>*\<^sup>* (demo_at (demo_ring [0x200000000, 0] 4096 (Some demo_quik) True) Full) s'
    \<and> ps_buf s' = br_ring r' ! 0"
proof -
  let ?r = "demo_ring [0x200000000, 0] 4096 (Some demo_quik) True"
  let ?r1 = "sealed_ring 0 ?r"
  have ok: "ring_ok ?r" by (rule demo_ring_ok) simp_all
  have len: "0 < length (br_ring ?r)" "0 < length (br_ring ?r1)" by (simp_all add: sealed_ring_def Let_def)
  have w: "\<not> state_sealed 0x200000000" "state_writers (0x200000000 :: usize) = 0" "\<not> state_flush_in_progress 0x200000000"
    by (simp_all add: state_sealed_def state_writers_def state_flush_in_progress_def layout_consts)
  have "submittable (br_ring (flag_flush 0 ?r1) ! 0)" using len(2)
    by (simp add: sealed_ring_at submittable_def buffer_wf_def state_offset_def layout_consts demo_buffer_def)
  moreover have "br_store (flag_flush 0 ?r1) = Some demo_quik" by (simp add: sealed_ring_def Let_def)
  ultimately obtain r2 where "dispatch Debug sim_api 0 (flag_flush 0 ?r1) = Done r2"
    using dispatch_Done [of "flag_flush 0 ?r1" 0 demo_quik Debug sim_api] ring_ok_flag_flush [OF ring_ok_sealed_ring [OF ok, of 0], of 0]
      len(2) by auto
  then have p: "put Debug sim_api 0 (Inl InsufficientSpace) [1, 2] ?r = Done (Inr SuccessfullWriteFlush, r2)"
    using w by (simp add: put_insufficient Let_def)
  show ?thesis
    using put_seal_is_protocol_run [OF ok len(1) demo_at_sel(1) demo_at_sel(2) p, of 1] p by blast
qed

end
