(* ===== verification/Ring_Protocol.thy ===== *)
theory Ring_Protocol
  imports Buffer_Protocol
begin

text \<open>
  The ring under interleaving: the threads of theory \<open>Buffer_Protocol\<close> on all the buffers of
  a ring, with what ties the buffers together in \<^verbatim>\<open>src/src/ring.rs\<close>: the current
  pointer, the search of \<^verbatim>\<open>rotate_after_seal\<close> for the next buffer, and the address counter.
  One step is one access to shared memory. A client loops as in \<^verbatim>\<open>log_message\<close> of
  \<^verbatim>\<open>src/examples/log.rs\<close>: it loads the current pointer, reserves, and calls \<open>put\<close>, and now and
  then it reaps a completion. \<open>auto_rotate\<close> is set.
\<close>

section \<open>States\<close>

text \<open>
  Where a client stands:
  \<^item> \<open>Away\<close>: outside;
  \<^item> \<open>At i l\<close>: in buffer \<open>i\<close>, at \<open>l\<close> of the buffer's protocol; \<open>At i Idle\<close> is a client that
    has loaded the current pointer when it was \<open>i\<close>;
  \<^item> \<open>Sized i sz\<close>, \<open>Claimed i slot\<close>: sealed \<open>i\<close>, has loaded its size; has claimed its slot;
  \<^item> \<open>Turning i\<close>: slot stored, in \<open>rotate_after_seal\<close>; \<open>Seen i c\<close>: has loaded the current
    pointer \<open>c\<close>, the load of that buffer's size to come;
  \<^item> \<open>Scan i n sz\<close>: at most \<open>n\<close> more candidates; \<open>Try i n sz k\<close>: candidate \<open>k\<close> drawn, its
    state to be loaded; \<open>Swing i sz k\<close>: \<open>k\<close> was available, the exchange of the pointer to come;
  \<^item> \<open>Book i sz k\<close>, \<open>Assign i slot k\<close>: in \<open>reserve_buf_addr\<close> for \<open>k\<close>, before and after the claim.
\<close>

datatype client =
    Away
  | At nat thread
  | Sized nat usize
  | Claimed nat usize
  | Turning nat
  | Seen nat nat
  | Scan nat nat usize
  | Try nat nat usize nat
  | Swing nat usize nat
  | Book nat usize nat
  | Assign nat usize nat

record ring_protocol =
  rp_bufs :: "FlushBuffer list"
  rp_current :: nat
  rp_next_index :: usize
  rp_next_address :: usize
  rp_client :: "nat \<Rightarrow> client"
  rp_inflight :: "nat \<Rightarrow> bool"
  rp_dropped :: "nat \<Rightarrow> bool"
  rp_log :: "nat \<Rightarrow> u8 list list"

text \<open>What buffer \<open>i\<close> sees of a client, and of the ring.\<close>

primrec pc_in :: "nat \<Rightarrow> client \<Rightarrow> thread" where
  "pc_in i Away = Idle"
| "pc_in i (At j l) = (if j = i then l else Idle)"
| "pc_in i (Sized j sz) = (if j = i then Sealer else Idle)"
| "pc_in i (Claimed j slot) = (if j = i then Sealer else Idle)"
| "pc_in i (Turning j) = (if j = i then Slotted else Idle)"
| "pc_in i (Seen j c) = (if j = i then Slotted else Idle)"
| "pc_in i (Scan j n sz) = (if j = i then Slotted else Idle)"
| "pc_in i (Try j n sz k) = (if j = i then Slotted else Idle)"
| "pc_in i (Swing j sz k) = (if j = i then Slotted else Idle)"
| "pc_in i (Book j sz k) = (if j = i then Slotted else Idle)"
| "pc_in i (Assign j slot k) = (if j = i then Slotted else Idle)"

definition view :: "nat \<Rightarrow> ring_protocol \<Rightarrow> protocol" where
  "view i s = \<lparr>ps_buf = rp_bufs s ! i, ps_thread = (\<lambda>t. pc_in i (rp_client s t)),
     ps_inflight = rp_inflight s i, ps_dropped = rp_dropped s i, ps_log = rp_log s i\<rparr>"

abbreviation go :: "nat \<Rightarrow> client \<Rightarrow> ring_protocol \<Rightarrow> ring_protocol" where
  "go t c s \<equiv> s\<lparr>rp_client := (rp_client s)(t := c)\<rparr>"

text \<open>The ring after a step of buffer \<open>i\<close> to \<open>p\<close>; a client that is done there is away.\<close>

definition put_view :: "nat \<Rightarrow> protocol \<Rightarrow> ring_protocol \<Rightarrow> ring_protocol" where
  "put_view i p s = s\<lparr>rp_bufs := (rp_bufs s)[i := ps_buf p],
     rp_inflight := (rp_inflight s)(i := ps_inflight p),
     rp_dropped := (rp_dropped s)(i := ps_dropped p), rp_log := (rp_log s)(i := ps_log p)\<rparr>"

definition inside :: "nat \<Rightarrow> thread \<Rightarrow> client" where
  "inside i l = (if l = Idle then Away else At i l)"

abbreviation set_slot :: "nat \<Rightarrow> usize \<Rightarrow> ring_protocol \<Rightarrow> ring_protocol" where
  "set_slot i slot s \<equiv> s\<lparr>rp_bufs := (rp_bufs s)[i := (rp_bufs s ! i)\<lparr>fb_local_address := slot\<rparr>]\<rparr>"

section \<open>Steps\<close>

text \<open>
  The submission queue of the instance has room for \<open>cap\<close> entries. It can refuse an entry of
  buffer \<open>i\<close> only while it holds that many others, all of them writes of other buffers
  that are in flight (a buffer has at most one).
\<close>

definition queue_full :: "nat \<Rightarrow> nat \<Rightarrow> ring_protocol \<Rightarrow> bool" where
  "queue_full cap i s \<longleftrightarrow> cap \<le> card {j. j < length (rp_bufs s) \<and> j \<noteq> i \<and> rp_inflight s j}"

text \<open>
  \<open>calm\<close> is as for one buffer. With \<open>fresh\<close>, a reservation is only granted in the buffer that is
  current at that moment; the program does not check it. Rule \<open>act\<close> is a step of the
  buffer's protocol by the client that is in the buffer, other than the sealer's claim of a slot
  and the handling of completions, which have rules of their own: \<open>reap\<close> for a write that
  succeeded, \<open>retry\<close> and \<open>retry_full\<close> for one that failed.
\<close>

inductive ring_step :: "profile \<Rightarrow> bool \<Rightarrow> bool \<Rightarrow> nat \<Rightarrow> nat \<Rightarrow> ring_protocol \<Rightarrow> ring_protocol \<Rightarrow> bool"
  for pf :: profile and calm :: bool and fresh :: bool and cap :: nat and N :: nat where
  enter: "t < N \<Longrightarrow> rp_client s t = Away \<Longrightarrow>
    ring_step pf calm fresh cap N s (go t (At (rp_current s) Idle) s)"
| turn_back: "rp_client s t = At i Idle \<Longrightarrow>
    ring_step pf calm fresh cap N s (go t Away s)"
| act: "rp_client s t = At i l \<Longrightarrow> l \<noteq> Sealer \<Longrightarrow> l' \<noteq> l \<Longrightarrow> \<not> (l = Idle \<and> l' = Clearing) \<Longrightarrow>
    pstep pf calm N (view i s) p \<Longrightarrow> ps_thread p = (ps_thread (view i s))(t := l') \<Longrightarrow>
    (fresh \<and> \<not> holds l \<and> holds l' \<longrightarrow> rp_current s = i) \<Longrightarrow>
    (ps_dropped p \<and> \<not> rp_dropped s i \<longrightarrow> queue_full cap i s) \<Longrightarrow>
    ring_step pf calm fresh cap N s (put_view i p (go t (inside i l') s))"
| reap: "t < N \<Longrightarrow> rp_client s t = Away \<Longrightarrow> i < length (rp_bufs s) \<Longrightarrow>
    pstep pf calm N (view i s) p \<Longrightarrow> ps_thread p = (ps_thread (view i s))(t := Clearing) \<Longrightarrow>
    ring_step pf calm fresh cap N s (put_view i p (go t (At i Clearing) s))"
| retry: "i < length (rp_bufs s) \<Longrightarrow> rp_inflight s i \<Longrightarrow> fb_sqe (rp_bufs s ! i) = Some e \<Longrightarrow>
    ring_step pf calm fresh cap N s s"
| retry_full: "i < length (rp_bufs s) \<Longrightarrow> rp_inflight s i \<Longrightarrow> queue_full cap i s \<Longrightarrow>
    ring_step pf calm fresh cap N s
      (s\<lparr>rp_inflight := (rp_inflight s)(i := False), rp_dropped := (rp_dropped s)(i := True)\<rparr>)"
| size_sealed: "rp_client s t = At i Sealer \<Longrightarrow>
    ring_step pf calm fresh cap N s (go t (Sized i (buffer_len (rp_bufs s ! i))) s)"
| claim: "rp_client s t = Sized i sz \<Longrightarrow> next_multiple_of pf sz FOUR_KB_BLOCK = Done padded \<Longrightarrow>
    ring_step pf calm fresh cap N s
      ((go t (Claimed i (rp_next_address s)) s)\<lparr>rp_next_address := rp_next_address s + padded\<rparr>)"
| store_slot: "rp_client s t = Claimed i slot \<Longrightarrow>
    ring_step pf calm fresh cap N s (set_slot i slot (go t (Turning i) s))"
| load_current: "rp_client s t = Turning i \<Longrightarrow>
    ring_step pf calm fresh cap N s (go t (Seen i (rp_current s)) s)"
| load_size: "rp_client s t = Seen i c \<Longrightarrow>
    ring_step pf calm fresh cap N s (go t (if c = i then Scan i (length (rp_bufs s)) (buffer_len (rp_bufs s ! c))
      else At i Slotted) s)"
| exhausted: "rp_client s t = Scan i 0 sz \<Longrightarrow>
    ring_step pf calm fresh cap N s (go t (At i Slotted) s)"
| draw: "rp_client s t = Scan i (Suc n) sz \<Longrightarrow>
    ring_step pf calm fresh cap N s
      ((go t (Try i n sz (unat (rp_next_index s mod word_of_nat (length (rp_bufs s))))) s)
        \<lparr>rp_next_index := rp_next_index s + 1\<rparr>)"
| probe: "rp_client s t = Try i n sz k \<Longrightarrow>
    ring_step pf calm fresh cap N s
      (go t (if is_available (rp_bufs s ! k) then Swing i sz k else Scan i n sz) s)"
| swing: "rp_client s t = Swing i sz k \<Longrightarrow>
    ring_step pf calm fresh cap N s
      ((go t (Book i sz k) s)\<lparr>rp_current := (if rp_current s = i then k else rp_current s)\<rparr>)"
| book: "rp_client s t = Book i sz k \<Longrightarrow>
    ring_step pf calm fresh cap N s
      ((go t (Assign i (rp_next_address s) k) s)\<lparr>rp_next_address := rp_next_address s + sz\<rparr>)"
| assign_slot: "rp_client s t = Assign i slot k \<Longrightarrow>
    ring_step pf calm fresh cap N s
      (let s' = go t (At i Slotted) s in
       if fb_local_address (rp_bufs s ! k) = 0 then set_slot k slot s' else s')"

text \<open>A ring of \<open>K\<close> buffers, a \<open>Vec\<close>, as \<open>with_options\<close> makes it.\<close>

definition ring_start :: "FlushBuffer list \<Rightarrow> ring_protocol" where
  "ring_start bs = \<lparr>rp_bufs = bs, rp_current = 0, rp_next_index = 1, rp_next_address = 0,
     rp_client = (\<lambda>_. Away), rp_inflight = (\<lambda>_. False),
     rp_dropped = (\<lambda>_. False), rp_log = (\<lambda>_. [])\<rparr>"

definition fresh_buffers :: "nat \<Rightarrow> FlushBuffer list \<Rightarrow> bool" where
  "fresh_buffers K bs \<longleftrightarrow> length bs = K \<and> 0 < K \<and> K < 2 ^ 64
     \<and> (\<forall>b \<in> set bs. fb_state b = 0 \<and> 1048576 \<le> length (buf_mem (fb_buf b)))"

inductive ring_reach :: "profile \<Rightarrow> bool \<Rightarrow> bool \<Rightarrow> nat \<Rightarrow> nat \<Rightarrow> nat \<Rightarrow> ring_protocol \<Rightarrow> bool"
  for pf :: profile and calm :: bool and fresh :: bool and cap :: nat and N :: nat and K :: nat where
  start: "fresh_buffers K bs \<Longrightarrow> ring_reach pf calm fresh cap N K (ring_start bs)"
| step: "ring_reach pf calm fresh cap N K s \<Longrightarrow> ring_step pf calm fresh cap N s s' \<Longrightarrow>
    ring_reach pf calm fresh cap N K s'"

section \<open>The view of one buffer\<close>

lemma view_sel [simp]:
  "ps_buf (view i s) = rp_bufs s ! i" "ps_thread (view i s) t = pc_in i (rp_client s t)"
  "ps_inflight (view i s) = rp_inflight s i" "ps_dropped (view i s) = rp_dropped s i" "ps_log (view i s) = rp_log s i"
  by (simp_all add: view_def)

lemma view_go: "view i (go t c s) = goto t (pc_in i c) (view i s)"
  by (auto simp: view_def)

lemma goto_same: "ps_thread p t = l \<Longrightarrow> goto t l p = p"
  by (cases p) auto

lemma view_still: "pc_in i c = pc_in i (rp_client s t) \<Longrightarrow> view i (go t c s) = view i s"
  by (simp add: view_go goto_same)

lemma view_counters [simp]:
  "view i (s\<lparr>rp_current := c\<rparr>) = view i s" "view i (s\<lparr>rp_next_index := n\<rparr>) = view i s"
  "view i (s\<lparr>rp_next_address := a\<rparr>) = view i s"
  by (simp_all add: view_def)

lemma view_put_view:
  assumes "i < length (rp_bufs s)" and "ps_thread p = (\<lambda>t. pc_in i (rp_client s t))"
  shows "view i (put_view i p s) = p"
  using assms by (cases p) (simp add: view_def put_view_def)

lemma view_put_other: "j \<noteq> i \<Longrightarrow> view j (put_view i p s) = view j s"
  by (simp add: view_def put_view_def)

lemma view_set_slot:
  "i < length (rp_bufs s) \<Longrightarrow> view j (set_slot i slot s)
     = (if j = i then (view j s)\<lparr>ps_buf := (ps_buf (view j s))\<lparr>fb_local_address := slot\<rparr>\<rparr> else view j s)"
  by (simp add: view_def)

lemma pc_in_inside [simp]: "pc_in i (inside j l) = (if j = i then l else Idle)"
  by (simp add: inside_def)

lemma put_view_sel [simp]:
  "length (rp_bufs (put_view i p s)) = length (rp_bufs s)" "rp_current (put_view i p s) = rp_current s"
  "rp_client (put_view i p s) = rp_client s" "rp_next_index (put_view i p s) = rp_next_index s"
  "rp_next_address (put_view i p s) = rp_next_address s"
  by (simp_all add: put_view_def)

lemma ring_step_length: "ring_step pf calm fresh cap N s s' \<Longrightarrow> length (rp_bufs s') = length (rp_bufs s)"
  by (induction rule: ring_step.induct) (simp_all add: Let_def)

text \<open>A client that acts in one buffer moves there as its thread does, and nowhere else.\<close>

lemma view_act:
  assumes "pstep pf calm N (view i s) p" and "j < length (rp_bufs s)" and "pc_in i c = l"
    and "ps_thread p = (ps_thread (view i s))(t := l)" and "j \<noteq> i \<Longrightarrow> pc_in j c = pc_in j (rp_client s t)"
  shows "view j (put_view i p (go t c s)) = view j s \<or> pstep pf calm N (view j s) (view j (put_view i p (go t c s)))"
proof (cases "j = i")
  case True
  have "ps_thread p = (\<lambda>u. pc_in i (rp_client (go t c s) u))" using assms(3,4) by auto
  then have "view i (put_view i p (go t c s)) = p" using assms(2) True by (intro view_put_view) simp_all
  then show ?thesis using assms(1) True by simp
next
  case False
  then show ?thesis using view_still [OF assms(5) [OF False]] by (simp add: view_put_other)
qed

text \<open>Every step of the ring is a step of each buffer's protocol, or none.\<close>

lemma ring_step_projects:
  assumes "ring_step pf calm fresh cap N s s'" and "j < length (rp_bufs s)"
  shows "view j s' = view j s \<or> pstep pf calm N (view j s) (view j s')"
  using assms
proof (induction rule: ring_step.induct)
  case (act s t i l l' p)
  show ?case using act(5) by (rule view_act) (use act in simp_all)
next
  case (reap t s i p)
  show ?case using reap(4) by (rule view_act) (use reap in simp_all)
next
  case (retry_full i s)
  show ?case
  proof (cases "j = i")
    case True
    then have "pstep pf calm N (view j s) ((view j s)\<lparr>ps_inflight := False, ps_dropped := True\<rparr>)"
      using retry_full(2) by (intro pstep.retry_full) simp
    then show ?thesis using True by (simp add: view_def)
  qed (simp add: view_def)
next
  case (store_slot s t i slot)
  show ?case
  proof (cases "j = i")
    case True
    have "view i (set_slot i slot (go t (Turning i) s))
        = (goto t Slotted (view i s))\<lparr>ps_buf := (ps_buf (view i s))\<lparr>fb_local_address := slot\<rparr>\<rparr>"
      using store_slot(2) True by (auto simp: view_def)
    moreover have "ps_thread (view i s) t = Sealer" using store_slot(1) by simp
    ultimately show ?thesis using True pstep.claim_slot [of "view i s" t pf calm N slot] by simp
  next
    case False
    then have "view j (go t (Turning i) s) = view j s" using store_slot(1) by (intro view_still) simp
    then show ?thesis using False by (simp add: view_def)
  qed
next
  case (assign_slot s t i slot k)
  have still: "view j (go t (At i Slotted) s) = view j s"
    using assign_slot(1) by (intro view_still) simp
  show ?case
  proof (cases "j = k \<and> fb_local_address (rp_bufs s ! k) = 0")
    case True
    then have "pstep pf calm N (view j s) ((view j s)\<lparr>ps_buf := (ps_buf (view j s))\<lparr>fb_local_address := slot\<rparr>\<rparr>)"
      by (intro pstep.assign) simp
    moreover have "view k (set_slot k slot (go t (At i Slotted) s))
        = (view k (go t (At i Slotted) s))\<lparr>ps_buf := (rp_bufs s ! k)\<lparr>fb_local_address := slot\<rparr>\<rparr>"
      using True assign_slot(2) by (simp add: view_def)
    ultimately show ?thesis using True still by simp
  next
    case False
    then show ?thesis using still by (auto simp: Let_def view_def)
  qed
qed (simp_all add: view_still)

lemma ring_reach_length: "ring_reach pf calm fresh cap N K s \<Longrightarrow> length (rp_bufs s) = K \<and> 0 < K \<and> K < 2 ^ 64"
  by (induction rule: ring_reach.induct) (auto simp: ring_start_def fresh_buffers_def dest: ring_step_length)

lemma ring_reach_projects:
  assumes "ring_reach pf calm fresh cap N K s" and "i < K"
  shows "reachable pf calm N (view i s)"
  using assms(1)
proof (induction rule: ring_reach.induct)
  case (start bs)
  then have "fb_state (bs ! i) = 0" "1048576 \<le> length (buf_mem (fb_buf (bs ! i)))"
    using assms(2) by (auto simp: fresh_buffers_def)
  moreover have "view i (ring_start bs) = start_state (bs ! i)"
    by (simp add: view_def ring_start_def start_state_def)
  ultimately show ?case by (simp add: reachable.start)
next
  case (step s s')
  have "i < length (rp_bufs s)" using ring_reach_length [OF step(1)] assms(2) by simp
  then show ?case using ring_step_projects [OF step(2)] step(3) by (metis reachable.step)
qed

end
