(* ===== verification/Ring_Runs.thy ===== *)
theory Ring_Runs
  imports Ring_Protocol Protocol_Runs
begin

text \<open>
  Concrete runs of a ring: the moves of theory \<open>Protocol_Runs\<close> on the buffers of a ring, and the
  steps between buffers, on states of which only the outline is known.
\<close>

section \<open>Outlines\<close>

text \<open>
  Of each buffer: its word, whether its write is in flight, and the number of reservations. No
  entry of it was refused.
\<close>

type_synonym life = "usize \<times> bool \<times> nat"

definition outline :: "life list \<Rightarrow> nat \<Rightarrow> usize \<Rightarrow> (nat \<Rightarrow> client) \<Rightarrow> ring_protocol \<Rightarrow> bool" where
  "outline lives cur ni cl s \<longleftrightarrow> length (rp_bufs s) = length lives \<and> rp_current s = cur \<and> rp_next_index s = ni
     \<and> rp_client s = cl
     \<and> (\<forall>i < length lives. (fb_state (rp_bufs s ! i), rp_inflight s i, length (rp_log s i)) = lives ! i
          \<and> \<not> rp_dropped s i \<and> 1048576 \<le> length (buf_mem (fb_buf (rp_bufs s ! i))))"

definition ring_stands :: "bool \<Rightarrow> bool \<Rightarrow> nat \<Rightarrow> nat \<Rightarrow> life list \<Rightarrow> nat \<Rightarrow> usize \<Rightarrow> (nat \<Rightarrow> client) \<Rightarrow> bool" where
  "ring_stands calm fresh cap N lives cur ni cl \<longleftrightarrow>
     (\<exists>s. ring_reach Debug calm fresh cap N (length lives) s \<and> outline lives cur ni cl s)"

lemma outline_shape:
  assumes "outline lives cur ni cl s" and "i < length lives" and "lives ! i = (w, fl, n)"
  shows "shape w (\<lambda>t. pc_in i (cl t)) fl n (view i s)"
  using assms by (auto simp: outline_def shape_def view_def)

lemma outline_sel:
  assumes "outline lives cur ni cl s"
  shows "rp_current s = cur" "rp_next_index s = ni" "rp_client s = cl" "length (rp_bufs s) = length lives"
    "i < length lives \<Longrightarrow> fb_state (rp_bufs s ! i) = fst (lives ! i)"
  using assms by (auto simp: outline_def dest!: spec [of _ i] dest: sym)

lemma ring_reach_run:
  "(ring_step pf calm fresh cap N)\<^sup>*\<^sup>* s s' \<Longrightarrow> ring_reach pf calm fresh cap N K s \<Longrightarrow> ring_reach pf calm fresh cap N K s'"
  by (induction rule: rtranclp_induct) (auto intro: ring_reach.step)

lemma ring_stands_run:
  assumes "ring_stands calm fresh cap N lives cur ni cl" and "length lives' = length lives"
    and "\<And>s. outline lives cur ni cl s \<Longrightarrow>
      \<exists>s'. (ring_step Debug calm fresh cap N)\<^sup>*\<^sup>* s s' \<and> outline lives' cur' ni' cl' s'"
  shows "ring_stands calm fresh cap N lives' cur' ni' cl'"
  using assms unfolding ring_stands_def by (metis ring_reach_run)

lemma ring_stands_step:
  assumes "ring_stands calm fresh cap N lives cur ni cl" and "length lives' = length lives"
    and "\<And>s. outline lives cur ni cl s \<Longrightarrow> \<exists>s'. ring_step Debug calm fresh cap N s s' \<and> outline lives' cur' ni' cl' s'"
  shows "ring_stands calm fresh cap N lives' cur' ni' cl'"
  by (rule ring_stands_run [OF assms(1,2)]) (use assms(3) in blast)

text \<open>A step that leaves the buffers alone.\<close>

lemma ring_stands_go:
  assumes "ring_stands calm fresh cap N lives cur ni cl"
    and "\<And>s. outline lives cur ni cl s \<Longrightarrow> ring_step Debug calm fresh cap N s
      ((go t c s)\<lparr>rp_current := cur', rp_next_index := ni', rp_next_address := a s\<rparr>)"
  shows "ring_stands calm fresh cap N lives cur' ni' (cl(t := c))"
  using assms(1)
proof (rule ring_stands_step)
  fix s
  assume s: "outline lives cur ni cl s"
  then have "outline lives cur' ni' (cl(t := c))
      ((go t c s)\<lparr>rp_current := cur', rp_next_index := ni', rp_next_address := a s\<rparr>)"
    by (simp add: outline_def)
  with assms(2) [OF s] show "\<exists>s'. ring_step Debug calm fresh cap N s s' \<and> outline lives cur' ni' (cl(t := c)) s'"
    by blast
qed simp

lemma ring_stands_start:
  assumes "0 < K" and "K < 2 ^ 64"
  shows "ring_stands calm fresh cap N (replicate K (0, False, 0)) 0 1 (\<lambda>_. Away)"
proof -
  let ?bs = "replicate K (demo_buffer 0 1048576)"
  have "ring_reach Debug calm fresh cap N K (ring_start ?bs)"
    using assms by (intro ring_reach.start) (simp add: fresh_buffers_def)
  moreover have "outline (replicate K (0, False, 0)) 0 1 (\<lambda>_. Away) (ring_start ?bs)"
    by (simp add: outline_def ring_start_def)
  ultimately show ?thesis unfolding ring_stands_def by auto
qed

lemma ring_stands_enter:
  assumes "ring_stands calm fresh cap N lives cur ni cl" and "t < N" and "cl t = Away"
  shows "ring_stands calm fresh cap N lives cur ni (cl(t := At cur Idle))"
  by (rule ring_stands_go [OF assms(1), where a = rp_next_address])
    (use assms(2,3) in \<open>auto simp: outline_def intro: ring_step.enter\<close>)

text \<open>A move in one buffer, and one that leads where the outline alone does not tell.\<close>

lemma outline_put_view:
  assumes "outline lives cur ni cl s" and "i < length lives" and "shape w' f fl' n' p"
  shows "outline (lives[i := (w', fl', n')]) cur ni (cl(t := c)) (put_view i p (go t c s))"
  using assms by (auto simp: outline_def put_view_def shape_def nth_list_update)

lemma outline_act:
  assumes "outline lives cur ni cl s" and "cl t = At i l" and "i < length lives"
    and "pstep Debug calm N (view i s) p" and "shape w' ((\<lambda>u. pc_in i (cl u))(t := l')) fl' n' p"
    and "l \<noteq> Sealer" and "l' \<noteq> l" and "\<not> (l = Idle \<and> l' = Clearing)"
    and "fresh \<and> \<not> holds l \<and> holds l' \<longrightarrow> cur = i"
  shows "\<exists>s'. ring_step Debug calm fresh cap N s s'
    \<and> outline (lives[i := (w', fl', n')]) cur ni (cl(t := inside i l')) s'"
proof -
  have cl: "rp_client s = cl" "rp_current s = cur" using assms(1) by (simp_all add: outline_def)
  have "ps_thread p = (ps_thread (view i s))(t := l')" "\<not> ps_dropped p"
    using assms(5) cl by (auto simp: shape_def view_def)
  then have "ring_step Debug calm fresh cap N s (put_view i p (go t (inside i l') s))"
    using assms(2,4,6-9) cl by (intro ring_step.act) auto
  moreover have "outline (lives[i := (w', fl', n')]) cur ni (cl(t := inside i l')) (put_view i p (go t (inside i l') s))"
    by (rule outline_put_view [OF assms(1,3,5)])
  ultimately show ?thesis by blast
qed

lemma ring_stands_act:
  assumes "ring_stands calm fresh cap N lives cur ni cl" and "cl t = At i l" and "i < length lives"
    and "lives ! i = (w, fl, n)" and "can_move calm N w (\<lambda>u. pc_in i (cl u)) fl n t l' w' fl' n'"
    and "l \<noteq> Sealer" and "l' \<noteq> l" and "\<not> (l = Idle \<and> l' = Clearing)"
    and "fresh \<and> \<not> holds l \<and> holds l' \<longrightarrow> cur = i"
  shows "ring_stands calm fresh cap N (lives[i := (w', fl', n')]) cur ni (cl(t := inside i l'))"
  using assms(1)
proof (rule ring_stands_step)
  fix s
  assume s: "outline lives cur ni cl s"
  then have "shape w (\<lambda>u. pc_in i (cl u)) fl n (view i s)"
    using assms(3,4) by (rule outline_shape)
  then obtain p where "pstep Debug calm N (view i s) p" "shape w' ((\<lambda>u. pc_in i (cl u))(t := l')) fl' n' p"
    using assms(5) unfolding can_move_def by blast
  from outline_act [OF s assms(2,3) this assms(6-9)]
  show "\<exists>s'. ring_step Debug calm fresh cap N s s' \<and> outline (lives[i := (w', fl', n')]) cur ni (cl(t := inside i l')) s'" .
qed simp

text \<open>The submission, whose slice and address the outline does not tell.\<close>

lemma ring_addressed:
  assumes "outline lives cur ni cl s" and "cl t = At i Owner" and "i < length lives" and "lives ! i = (w, fl, n)"
    and "unat (state_offset (w OR FLUSH_IN_PROGRESS_BIT)) \<le> 1048576"
  shows "\<exists>s' len at. (ring_step Debug calm fresh cap N)\<^sup>*\<^sup>* s s'
    \<and> outline (lives[i := (w OR FLUSH_IN_PROGRESS_BIT, fl, n)]) cur ni (cl(t := At i (Addressed len at))) s'"
proof -
  let ?w = "w OR FLUSH_IN_PROGRESS_BIT" and ?f = "\<lambda>c u. pc_in i ((cl(t := c)) u)"
  let ?lives = "lives[i := (?w, fl, n)]"
  have upd: "?lives[i := (?w, fl, n)] = ?lives" "i < length ?lives" "?lives ! i = (?w, fl, n)" using assms(3) by simp_all
  obtain p1 where "pstep Debug calm N (view i s) p1" "shape ?w ((\<lambda>u. pc_in i (cl u))(t := Marked)) fl n p1"
    using shape_mark [OF outline_shape [OF assms(1,3,4)], of t calm N] assms(2) by auto
  from outline_act [OF assms(1-3) this, of fresh cap] obtain s1 where
    s1: "ring_step Debug calm fresh cap N s s1" "outline ?lives cur ni (cl(t := At i Marked)) s1"
    by (auto simp: inside_def fun_upd_def [symmetric])
  obtain p2 len where "pstep Debug calm N (view i s1) p2" "shape ?w ((?f (At i Marked))(t := Sliced len)) fl n p2"
    using shape_slice [OF outline_shape [OF s1(2) upd(2,3)], of t calm N] assms(5) by auto
  from outline_act [OF s1(2) _ upd(2) this, of Marked fresh cap] upd(1) obtain s2 where
    s2: "ring_step Debug calm fresh cap N s1 s2" "outline ?lives cur ni (cl(t := At i (Sliced len))) s2"
    by (auto simp: inside_def fun_upd_def [symmetric])
  obtain p3 at where "pstep Debug calm N (view i s2) p3" "shape ?w ((?f (At i (Sliced len)))(t := Addressed len at)) fl n p3"
    using shape_address [OF outline_shape [OF s2(2) upd(2,3)], of t len calm N] by auto
  from outline_act [OF s2(2) _ upd(2) this, of "Sliced len" fresh cap] upd(1) obtain s3 where
    "ring_step Debug calm fresh cap N s2 s3" "outline ?lives cur ni (cl(t := At i (Addressed len at))) s3"
    by (auto simp: inside_def fun_upd_def [symmetric])
  then show ?thesis using s1(1) s2(1) by (meson converse_rtranclp_into_rtranclp rtranclp.rtrancl_refl)
qed

lemma ring_stands_submit:
  assumes "ring_stands calm fresh cap N lives cur ni cl" and "cl t = At i Owner" and "i < length lives"
    and "lives ! i = (w, fl, n)" and "unat (state_offset (w OR FLUSH_IN_PROGRESS_BIT)) \<le> 1048576"
  shows "ring_stands calm fresh cap N (lives[i := (w OR FLUSH_IN_PROGRESS_BIT, True, n)]) cur ni (cl(t := Away))"
  using assms(1)
proof (rule ring_stands_run)
  fix s
  assume s: "outline lives cur ni cl s"
  let ?w = "w OR FLUSH_IN_PROGRESS_BIT"
  obtain s1 len at where s1: "(ring_step Debug calm fresh cap N)\<^sup>*\<^sup>* s s1"
    "outline (lives[i := (?w, fl, n)]) cur ni (cl(t := At i (Addressed len at))) s1"
    using ring_addressed [OF s assms(2-5)] by blast
  obtain p where "pstep Debug calm N (view i s1) p"
    "shape ?w ((\<lambda>u. pc_in i ((cl(t := At i (Addressed len at))) u))(t := Idle)) True n p"
    using shape_push [OF outline_shape [OF s1(2)], of i ?w fl n t len at calm N] assms(3) by auto
  from outline_act [OF s1(2) _ _ this, of "Addressed len at" fresh cap] assms(3)
  obtain s2 where "ring_step Debug calm fresh cap N s1 s2" "outline (lives[i := (?w, True, n)]) cur ni (cl(t := Away)) s2"
    by (auto simp: inside_def fun_upd_def [symmetric])
  with s1(1) show "\<exists>s'. (ring_step Debug calm fresh cap N)\<^sup>*\<^sup>* s s' \<and> outline (lives[i := (?w, True, n)]) cur ni (cl(t := Away)) s'"
    by (blast intro: rtranclp.rtrancl_into_rtrancl)
qed simp

lemma ring_stands_reap:
  assumes "ring_stands calm fresh cap N lives cur ni cl" and "t < N" and "cl t = Away" and "i < length lives"
    and "lives ! i = (w, True, n)" and "calm \<longrightarrow> (\<forall>u. \<not> decides (pc_in i (cl u)))"
  shows "ring_stands calm fresh cap N (lives[i := (0, False, 0)]) cur ni (cl(t := At i Clearing))"
  using assms(1)
proof (rule ring_stands_step)
  fix s
  assume s: "outline lives cur ni cl s"
  then have "shape w (\<lambda>u. pc_in i (cl u)) True n (view i s)"
    using assms(4,5) by (rule outline_shape)
  moreover have "can_move calm N w (\<lambda>u. pc_in i (cl u)) True n t Clearing 0 False 0"
    using assms(2,3,6) by (intro can_complete) simp_all
  ultimately obtain p where p: "pstep Debug calm N (view i s) p" "shape 0 ((\<lambda>u. pc_in i (cl u))(t := Clearing)) False 0 p"
    unfolding can_move_def by blast
  have cl: "rp_client s = cl" and len: "length (rp_bufs s) = length lives" using s by (simp_all add: outline_def)
  have "ps_thread p = (ps_thread (view i s))(t := Clearing)"
    using p(2) cl by (auto simp: shape_def view_def)
  then have "ring_step Debug calm fresh cap N s (put_view i p (go t (At i Clearing) s))"
    using assms(2-4) p(1) cl len by (intro ring_step.reap) auto
  moreover have "outline (lives[i := (0, False, 0)]) cur ni (cl(t := At i Clearing)) (put_view i p (go t (At i Clearing) s))"
    by (rule outline_put_view [OF s assms(4) p(2)])
  ultimately show "\<exists>s'. ring_step Debug calm fresh cap N s s' \<and> outline (lives[i := (0, False, 0)]) cur ni (cl(t := At i Clearing)) s'"
    by blast
qed simp

section \<open>Sealing and rotating\<close>

lemma outline_set_slot: "outline lives cur ni cl s \<Longrightarrow> outline lives cur ni cl (set_slot i slot s)"
  by (cases "i < length lives") (auto simp: outline_def nth_list_update list_update_beyond)

lemma outline_go: "outline lives cur ni cl s \<Longrightarrow> outline lives cur ni (cl(t := c)) (go t c s)"
  by (simp add: outline_def)

lemma outline_counters [simp]:
  "outline lives cur ni cl (s\<lparr>rp_next_address := a\<rparr>) = outline lives cur ni cl s"
  by (simp add: outline_def)

text \<open>The sealer of \<open>i\<close> up to the store of its slot.\<close>

lemma ring_stands_slot:
  assumes "ring_stands calm fresh cap N lives cur ni cl" and "cl t = At i Sealer" and "i < length lives"
  shows "ring_stands calm fresh cap N lives cur ni (cl(t := Turning i))"
  using assms(1)
proof (rule ring_stands_run)
  fix s
  assume s: "outline lives cur ni cl s"
  let ?sz = "buffer_len (rp_bufs s ! i)"
  let ?padded = "word_of_nat (round_up (unat ?sz) (unat FOUR_KB_BLOCK)) :: usize"
  let ?s1 = "go t (Sized i ?sz) s"
  let ?s2 = "(go t (Claimed i (rp_next_address ?s1)) ?s1)\<lparr>rp_next_address := rp_next_address ?s1 + ?padded\<rparr>"
  let ?s3 = "set_slot i (rp_next_address s) (go t (Turning i) ?s2)"
  have "ring_step Debug calm fresh cap N s ?s1"
    using assms(2) outline_sel(3) [OF s] by (intro ring_step.size_sealed) simp
  moreover have "ring_step Debug calm fresh cap N ?s1 ?s2"
    using offset_bound [of "fb_state (rp_bufs s ! i)"]
    by (intro ring_step.claim [where sz = ?sz] next_multiple_of_no_overflow)
      (simp_all add: FOUR_KB_BLOCK_def buffer_len_def)
  moreover have "ring_step Debug calm fresh cap N ?s2 ?s3"
    by (rule ring_step.store_slot) simp
  moreover have "outline lives cur ni (cl(t := Turning i)) ?s3"
    using outline_set_slot [OF outline_go [OF s, of t "Turning i"], of i "rp_next_address s"]
    by (simp add: outline_def)
  ultimately show "\<exists>s'. (ring_step Debug calm fresh cap N)\<^sup>*\<^sup>* s s' \<and> outline lives cur ni (cl(t := Turning i)) s'"
    by (meson converse_rtranclp_into_rtranclp rtranclp.rtrancl_refl)
qed simp

text \<open>The search for the next buffer, when the first candidate is available.\<close>

lemma ring_stands_search:
  assumes "ring_stands calm fresh cap N lives i ni cl" and "cl t = Turning i" and "i < length lives"
    and "k = unat (ni mod word_of_nat (length lives))" and "k < length lives" and "fst (lives ! k) = 0"
  shows "ring_stands calm fresh cap N lives i (ni + 1) (cl(t := Swing i (state_offset (fst (lives ! i))) k))"
  using assms(1)
proof (rule ring_stands_run)
  fix s
  assume s: "outline lives i ni cl s"
  let ?sz = "buffer_len (rp_bufs s ! i)" and ?n = "length lives - 1"
  let ?s1 = "go t (Seen i (rp_current s)) s"
  let ?s2 = "go t (Scan i (length (rp_bufs s)) ?sz) ?s1"
  let ?s3 = "(go t (Try i ?n ?sz k) ?s2)\<lparr>rp_next_index := rp_next_index s + 1\<rparr>"
  let ?s4 = "go t (Swing i ?sz k) ?s3"
  note sel = outline_sel [OF s]
  have "ring_step Debug calm fresh cap N s ?s1"
    using assms(2) sel(3) by (intro ring_step.load_current) simp
  moreover have "ring_step Debug calm fresh cap N ?s1 ?s2"
    using ring_step.load_size [of ?s1 t i i Debug calm fresh cap N] sel(1) by simp
  moreover have "ring_step Debug calm fresh cap N ?s2 ?s3"
    using ring_step.draw [of ?s2 t i ?n ?sz Debug calm fresh cap N] sel(2,4) assms(3,4) by simp
  moreover have "is_available (rp_bufs s ! k)"
    using sel(5) [OF assms(5)] assms(6) by (simp add: is_available_def state_offset_def)
  then have "ring_step Debug calm fresh cap N ?s3 ?s4"
    using ring_step.probe [of ?s3 t i ?n ?sz k Debug calm fresh cap N] by simp
  moreover have "?sz = state_offset (fst (lives ! i))"
    using sel(5) [OF assms(3)] by (simp add: buffer_len_def)
  then have "outline lives i (ni + 1) (cl(t := Swing i (state_offset (fst (lives ! i))) k)) ?s4"
    using s by (simp add: outline_def)
  ultimately show "\<exists>s'. (ring_step Debug calm fresh cap N)\<^sup>*\<^sup>* s s'
      \<and> outline lives i (ni + 1) (cl(t := Swing i (state_offset (fst (lives ! i))) k)) s'"
    by (meson converse_rtranclp_into_rtranclp rtranclp.rtrancl_refl)
qed simp

text \<open>The exchange of the pointer, and the address of the new current buffer.\<close>

lemma ring_stands_swing:
  assumes "ring_stands calm fresh cap N lives i ni cl" and "cl t = Swing i sz k"
  shows "ring_stands calm fresh cap N lives k ni (cl(t := At i Slotted))"
  using assms(1)
proof (rule ring_stands_run)
  fix s
  assume s: "outline lives i ni cl s"
  let ?s1 = "(go t (Book i sz k) s)\<lparr>rp_current := k\<rparr>"
  let ?s2 = "(go t (Assign i (rp_next_address s) k) ?s1)\<lparr>rp_next_address := rp_next_address s + sz\<rparr>"
  let ?s3 = "go t (At i Slotted) ?s2"
  let ?s4 = "if fb_local_address (rp_bufs s ! k) = 0 then set_slot k (rp_next_address s) ?s3 else ?s3"
  have "ring_step Debug calm fresh cap N s ?s1"
    using ring_step.swing [of s t i sz k Debug calm fresh cap N] assms(2) outline_sel(1,3) [OF s] by simp
  moreover have "ring_step Debug calm fresh cap N ?s1 ?s2"
    using ring_step.book [of ?s1 t i sz k Debug calm fresh cap N] by simp
  moreover have "ring_step Debug calm fresh cap N ?s2 ?s4"
    using ring_step.assign_slot [of ?s2 t i "rp_next_address s" k Debug calm fresh cap N]
    by (cases "fb_local_address (rp_bufs s ! k) = 0") (simp_all add: Let_def)
  moreover have "outline lives k ni (cl(t := At i Slotted)) ?s3" using s by (simp add: outline_def)
  then have "outline lives k ni (cl(t := At i Slotted)) ?s4"
    using outline_set_slot [of lives k ni "cl(t := At i Slotted)" ?s3 k "rp_next_address s"] by simp
  ultimately show "\<exists>s'. (ring_step Debug calm fresh cap N)\<^sup>*\<^sup>* s s' \<and> outline lives k ni (cl(t := At i Slotted)) s'"
    by (meson converse_rtranclp_into_rtranclp rtranclp.rtrancl_refl)
qed simp

lemmas ring_stands_load = ring_stands_act [OF _ _ _ _ can_load]
lemmas ring_stands_exchange = ring_stands_act [OF _ _ _ _ can_exchange]
lemmas ring_stands_copy = ring_stands_act [OF _ _ _ _ can_copy]
lemmas ring_stands_leave = ring_stands_act [OF _ _ _ _ can_leave]
lemmas ring_stands_full = ring_stands_act [OF _ _ _ _ can_full]
lemmas ring_stands_seal = ring_stands_act [OF _ _ _ _ can_seal]
lemmas ring_stands_look = ring_stands_act [OF _ _ _ _ can_look]
lemmas ring_stands_flag = ring_stands_act [OF _ _ _ _ can_flag]
lemmas ring_stands_clear = ring_stands_act [OF _ _ _ _ can_clear]

section \<open>Two clients on two buffers\<close>

definition duo :: "client \<Rightarrow> client \<Rightarrow> nat \<Rightarrow> client" where
  "duo a b = (\<lambda>t. if t = 0 then a else if t = 1 then b else Away)"

lemma duo_simps [simp]:
  "duo a b 0 = a" "duo a b (Suc 0) = b" "(duo a b)(0 := c) = duo c b" "(duo a b)(Suc 0 := c) = duo a c"
  by (auto simp: duo_def)

lemma away_duo: "(\<lambda>_. Away) = duo Away Away"
  by (auto simp: duo_def)

lemma settled_duo [simp]:
  "(\<forall>u. \<not> decides (pc_in i (duo a b u))) \<longleftrightarrow> \<not> decides (pc_in i a) \<and> \<not> decides (pc_in i b)"
  by (auto simp: duo_def dest: spec [of _ 0] spec [of _ 1])

lemma ring_start_two: "ring_stands calm fresh cap 2 [(0, False, 0), (0, False, 0)] 0 1 (duo Away Away)"
proof -
  have "replicate 2 x = [x, x]" for x :: life by (simp add: numeral_2_eq_2)
  then show ?thesis using ring_stands_start [of 2 calm fresh cap 2] by (simp add: away_duo)
qed

lemma ring_stands_two:
  assumes "ring_stands calm fresh cap N [l, l'] cur ni cl"
  obtains s where "ring_reach Debug calm fresh cap N 2 s" and "outline [l, l'] cur ni cl s"
proof -
  have "length [l, l'] = 2" by simp
  then show thesis using assms that unfolding ring_stands_def by metis
qed

text \<open>A client writes a byte, reserved in the buffer that is current, or in any when \<open>fresh\<close> is off.\<close>

lemma run_write:
  assumes "ring_stands calm fresh cap N lives cur ni cl" and "cl t = At i Idle" and "t < N" and "i < length lives"
    and "lives ! i = (w, fl, n)" and "open_word w" and "unat (state_offset w) < 1048576" and "fresh \<longrightarrow> cur = i"
  shows "ring_stands calm fresh cap N (lives[i := (w + OFFSET_ONE + WRITER_ONE, fl, Suc n)]) cur ni
    (cl(t := At i (Copied (state_offset w) [v] n)))"
proof -
  from ring_stands_load [OF assms(1,2,4,5) assms(3), of "[v]"]
  have "ring_stands calm fresh cap N lives cur ni (cl(t := At i (Loaded w [v])))"
    using assms(2-7) list_update_id [of lives i] by (simp add: inside_def)
  from ring_stands_exchange [OF this, where t = t and i = i and w = w and p = "[v]" and l = "Loaded w [v]"]
  have "ring_stands calm fresh cap N (lives[i := (w + OFFSET_ONE + WRITER_ONE, fl, Suc n)]) cur ni
    (cl(t := At i (Holding (state_offset w) [v] n)))"
    using assms(4-8) by (simp add: inside_def)
  from ring_stands_copy [OF this, where t = t and i = i and l = "Holding (state_offset w) [v] n"]
  show ?thesis using assms(4-7) by (simp add: inside_def)
qed

text \<open>Client 0 writes into buffer 0, leaves, comes back, finds it full and seals it.\<close>

lemma run_sealed:
  assumes "ring_stands calm fresh cap 2 [(0, False, 0), (0, False, 0)] 0 1 (duo Away c)"
  shows "ring_stands calm fresh cap 2 [(0x100000001, False, 1), (0, False, 0)] 0 1 (duo (At 0 Sealer) c)"
proof -
  from ring_stands_enter [OF assms, of 0]
  have "ring_stands calm fresh cap 2 [(0, False, 0), (0, False, 0)] 0 1 (duo (At 0 Idle) c)" by simp
  from run_write [OF this, where t = 0 and i = 0 and w = 0 and fl = False and n = 0 and v = 7]
  have "ring_stands calm fresh cap 2 [(0x100000100, False, 1), (0, False, 0)] 0 1 (duo (At 0 (Copied 0 [7] 0)) c)"
    by (simp add: word_eval)
  from ring_stands_leave [OF this, where t = 0 and i = 0 and w = "0x100000100" and l = "Copied 0 [7] 0"
      and off = 0 and p = "[7]" and k = 0 and fl = False and n = 1]
  have "ring_stands calm fresh cap 2 [(0x100000000, False, 1), (0, False, 0)] 0 1 (duo Away c)"
    by (simp add: word_eval inside_def)
  from ring_stands_enter [OF this, of 0]
  have "ring_stands calm fresh cap 2 [(0x100000000, False, 1), (0, False, 0)] 0 1 (duo (At 0 Idle) c)" by simp
  from ring_stands_full [OF this, where t = 0 and i = 0 and w = "0x100000000" and l = Idle and fl = False and n = 1]
  have "ring_stands calm fresh cap 2 [(0x100000000, False, 1), (0, False, 0)] 0 1 (duo (At 0 Full) c)"
    by (simp add: word_eval inside_def)
  from ring_stands_seal [OF this, where t = 0 and i = 0 and w = "0x100000000" and l = Full and fl = False and n = 1]
  show ?thesis by (simp add: word_eval inside_def)
qed

text \<open>It finds the other buffer free, moves the pointer to it, and hands the sealed buffer to the kernel.\<close>

lemma run_in_flight:
  assumes "ring_stands True fresh cap 2 [(0, False, 0), (0, False, 0)] 0 1 (duo Away c)"
  shows "ring_stands True fresh cap 2 [(0x100000003, True, 1), (0, False, 0)] 1 2 (duo Away c)"
proof -
  let ?free = "(0, False, 0) :: life" and ?R = "ring_stands True fresh cap 2"
  from run_sealed [OF assms]
  have "?R [(0x100000001, False, 1), ?free] 0 1 (duo (At 0 Sealer) c)" .
  from ring_stands_slot [OF this, where t = 0 and i = 0]
  have "?R [(0x100000001, False, 1), ?free] 0 1 (duo (Turning 0) c)" by simp
  from ring_stands_search [OF this, where t = 0 and k = 1]
  have "?R [(0x100000001, False, 1), ?free] 0 2 (duo (Swing 0 (state_offset 0x100000001) 1) c)" by simp
  from ring_stands_swing [OF this, where t = 0 and k = 1 and sz = "state_offset 0x100000001"]
  have "?R [(0x100000001, False, 1), ?free] 1 2 (duo (At 0 Slotted) c)" by simp
  from ring_stands_look [OF this, where t = 0 and i = 0 and l = Slotted and w = "0x100000001" and fl = False and n = 1]
  have "?R [(0x100000001, False, 1), ?free] 1 2 (duo (At 0 SawIdle) c)" by (simp add: word_eval inside_def)
  from ring_stands_flag [OF this, where t = 0 and i = 0 and l = SawIdle and w = "0x100000001" and fl = False and n = 1]
  have "?R [(0x100000003, False, 1), ?free] 1 2 (duo (At 0 Owner) c)" by (simp add: word_eval inside_def)
  from ring_stands_submit [OF this, where t = 0 and i = 0 and w = "0x100000003" and fl = False and n = 1]
  show ?thesis by (simp add: word_eval inside_def)
qed

end
