(* ===== verification/Ring_Progress.thy ===== *)
theory Ring_Progress
  imports Ring_Runs Protocol_Properties
begin

text \<open>
  Progress of the clients of a ring: a call is over after a bounded number of its own steps,
  and no client waits for another. If the submission queue has an entry for each buffer, no
  submission is lost, and a sealed buffer can always be flushed and reset.
\<close>

section \<open>Indices in range\<close>

text \<open>The buffers a client refers to.\<close>

primrec places :: "client \<Rightarrow> nat set" where
  "places Away = {}"
| "places (At i l) = {i}"
| "places (Sized i sz) = {i}"
| "places (Claimed i slot) = {i}"
| "places (Turning i) = {i}"
| "places (Seen i c) = {i, c}"
| "places (Scan i n sz) = {i}"
| "places (Try i n sz k) = {i, k}"
| "places (Swing i sz k) = {i, k}"
| "places (Book i sz k) = {i, k}"
| "places (Assign i slot k) = {i, k}"

definition in_range :: "nat \<Rightarrow> nat \<Rightarrow> ring_protocol \<Rightarrow> bool" where
  "in_range N K s \<longleftrightarrow> rp_current s < K
     \<and> (\<forall>t. places (rp_client s t) \<subseteq> {..<K} \<and> (rp_client s t \<noteq> Away \<longrightarrow> t < N)
          \<and> (\<forall>i sz. rp_client s t = Sized i sz \<longrightarrow> unat sz < 2 ^ 32))"

lemma places_inside: "places (inside i l) \<subseteq> {i}"
  by (simp add: inside_def)

lemma unat_mod_length: "0 < K \<Longrightarrow> K < 2 ^ 64 \<Longrightarrow> unat (w mod word_of_nat K :: usize) < K"
  by (simp add: unat_mod unat_word_of_nat_usize)

lemma in_range_go:
  assumes "in_range N K s" and "places c \<subseteq> {..<K}" and "c \<noteq> Away \<longrightarrow> t < N"
    and "\<forall>i sz. c = Sized i sz \<longrightarrow> unat sz < 2 ^ 32"
  shows "in_range N K (go t c s)"
  using assms by (auto simp: in_range_def)

lemma in_range_frame [simp]:
  "in_range N K (s\<lparr>rp_next_index := n\<rparr>) = in_range N K s"
  "in_range N K (s\<lparr>rp_next_address := a\<rparr>) = in_range N K s"
  "in_range N K (s\<lparr>rp_bufs := bs\<rparr>) = in_range N K s"
  "in_range N K (s\<lparr>rp_inflight := f, rp_dropped := d\<rparr>) = in_range N K s"
  "in_range N K (put_view i p s) = in_range N K s"
  by (simp_all add: in_range_def)

lemma in_range_step:
  assumes "ring_step pf calm fresh cap N s s'" and "in_range N K s" and "length (rp_bufs s) = K" and "0 < K" and "K < 2 ^ 64"
  shows "in_range N K s'"
proof -
  have place: "places (rp_client s t) \<subseteq> {..<K}" and now: "rp_current s < K" for t
    using assms(2) by (simp_all add: in_range_def)
  have client: "rp_client s t \<noteq> Away \<Longrightarrow> t < N" for t using assms(2) by (simp add: in_range_def)
  have keep: "in_range N K (go t c s)"
    if "rp_client s t \<noteq> Away" "places c \<subseteq> insert (rp_current s) (places (rp_client s t))" "\<forall>i sz. c \<noteq> Sized i sz" for t c
    using that now place [of t] client [of t] by (intro in_range_go [OF assms(2)]) auto
  show ?thesis
    using assms(1)
  proof cases
    case (enter t)
    then show ?thesis using assms(2) now by (auto intro: in_range_go)
  next
    case (act t i l l' p)
    then show ?thesis by (auto simp: inside_def intro!: keep)
  next
    case (reap t i p)
    then show ?thesis using assms(2,3) by (auto intro!: in_range_go)
  next
    case (size_sealed t i)
    then show ?thesis
      using assms(2) place [of t] client [of t] offset_bound by (auto simp: buffer_len_def intro!: in_range_go)
  next
    case (draw t i n sz)
    have "unat (rp_next_index s mod word_of_nat (length (rp_bufs s))) < K"
      using assms(3-5) by (simp add: unat_mod_length)
    then show ?thesis using draw assms(2) place [of t] client [of t] by (auto intro!: in_range_go)
  next
    case (swing t i sz k)
    then show ?thesis using assms(2) place [of t] client [of t] by (auto simp: in_range_def)
  next
    case (assign_slot t i slot k)
    then have "in_range N K (go t (At i Slotted) s)" by (intro keep) simp_all
    then show ?thesis by (simp add: assign_slot(1) Let_def)
  qed (use assms(2) in \<open>auto intro!: keep\<close>)
qed

lemma ring_reach_in_range:
  assumes "ring_reach pf calm fresh cap N K s"
  shows "in_range N K s"
  using assms
proof (induction rule: ring_reach.induct)
  case (start bs)
  then show ?case by (simp add: in_range_def ring_start_def fresh_buffers_def)
next
  case (step s s')
  then show ?case using ring_reach_length [OF step(1)] by (blast intro: in_range_step)
qed

section \<open>Own steps\<close>

text \<open>A bound on the number of steps until the client is outside again.\<close>

primrec client_rank :: "nat \<Rightarrow> client \<Rightarrow> nat" where
  "client_rank K Away = 0"
| "client_rank K (At i l) = (if l = Idle then 3 * K + 17 else if l = Full then 3 * K + 16
     else if l = Sealer then 3 * K + 15 else rank l)"
| "client_rank K (Sized i sz) = 3 * K + 14"
| "client_rank K (Claimed i slot) = 3 * K + 13"
| "client_rank K (Turning i) = 3 * K + 12"
| "client_rank K (Seen i c) = 3 * K + 11"
| "client_rank K (Scan i n sz) = 3 * n + 10"
| "client_rank K (Try i n sz k) = 3 * n + 12"
| "client_rank K (Swing i sz k) = 9"
| "client_rank K (Book i sz k) = 8"
| "client_rank K (Assign i slot k) = 7"

text \<open>A step of a buffer's protocol brings its thread closer to the end, but for a thread that starts.\<close>

lemma pstep_rank:
  assumes "pstep pf calm N v p" and "ps_thread p t \<noteq> ps_thread v t"
    and "\<not> (ps_thread v t = Idle \<and> ps_thread p t = Clearing)" and "ps_thread v t \<noteq> Sealer"
  shows "client_rank K (inside i (ps_thread p t)) < client_rank K (At i (ps_thread v t))"
  using assms(1)
proof cases
  case (flag u before b)
  then show ?thesis using assms(2-4) by (auto simp: inside_def split: if_splits)
qed (use assms(2-4) in \<open>simp_all add: inside_def split: if_splits\<close>)

lemma client_step_rank:
  assumes "ring_step pf calm fresh cap N s s'" and "length (rp_bufs s) = K" and "rp_client s' t \<noteq> rp_client s t"
  shows "if rp_client s t = Away then client_rank K (rp_client s' t) \<le> 3 * K + 17
    else client_rank K (rp_client s' t) < client_rank K (rp_client s t)"
  using assms(1)
proof cases
  case (act u i l l' p)
  have "u = t" using assms(3) act(1) by (auto split: if_splits)
  then have at: "ps_thread p t = l'" "ps_thread (view i s) t = l" using act(2,7) by simp_all
  have "client_rank K (inside i l') < client_rank K (At i l)"
    using pstep_rank [OF act(6), of t K i] act(3-5) unfolding at by blast
  then show ?thesis using act(1,2) \<open>u = t\<close> by simp
next
  case (load_size u i c)
  then show ?thesis using assms(2,3) by (auto split: if_splits)
next
  case (assign_slot u i slot k)
  then show ?thesis using assms(3) by (auto simp: Let_def split: if_splits)
qed (use assms(3) in \<open>auto split: if_splits\<close>)

section \<open>No client waits\<close>

text \<open>
  With \<open>fresh\<close> off, a client that is inside can take its next step, and a sealed buffer
  stays sealed meanwhile.
\<close>

definition client_can_step :: "profile \<Rightarrow> nat \<Rightarrow> nat \<Rightarrow> nat \<Rightarrow> ring_protocol \<Rightarrow> nat \<Rightarrow> bool" where
  "client_can_step pf cap N K s t \<longleftrightarrow> (\<exists>s' c. ring_step pf True False cap N s s' \<and> rp_client s' = (rp_client s)(t := c)
     \<and> c \<noteq> rp_client s t \<and> (\<forall>i < K. state_sealed (fb_state (rp_bufs s ! i)) \<longrightarrow> state_sealed (fb_state (rp_bufs s' ! i))))"

lemma client_can_stepI:
  assumes "ring_step pf True False cap N s s'" and "rp_client s' = (rp_client s)(t := rp_client s' t)"
    and "rp_client s' t \<noteq> rp_client s t"
    and "\<And>i. i < K \<Longrightarrow> state_sealed (fb_state (rp_bufs s ! i)) \<Longrightarrow> state_sealed (fb_state (rp_bufs s' ! i))"
  shows "client_can_step pf cap N K s t"
  using assms unfolding client_can_step_def by blast

lemma rank_not_complete: "rank l' < rank l \<Longrightarrow> l' \<noteq> l \<and> \<not> (l = Idle \<and> l' = Clearing)"
  by (cases l) auto

lemma At_can_step:
  assumes "reachable pf True N (view i s)" and "N < 2 ^ 24" and "rp_client s t = At i l" and "l \<noteq> Sealer"
    and "i < length (rp_bufs s)"
  shows "client_can_step pf cap N K s t"
proof (cases "l = Idle")
  case True
  show ?thesis
    by (rule client_can_stepI [OF ring_step.turn_back [where t = t and i = i], where t = t])
      (use assms(3) True in simp_all)
next
  case False
  have at: "ps_thread (view i s) t = l" using assms(3) by simp
  obtain p l' where p: "pstep pf True N (view i s) p" "ps_thread p = (ps_thread (view i s))(t := l')"
    "rank l' < rank l" "state_sealed (word_of (view i s)) \<longrightarrow> state_sealed (word_of p)"
    "ps_dropped p = ps_dropped (view i s)"
    using busy_can_step [OF reachable_calm [OF assms(1,2)] reachable_loaded_checked [OF assms(1)], of t] False at
    unfolding can_step_def by auto
  have "ring_step pf True False cap N s (put_view i p (go t (inside i l') s))"
    using rank_not_complete [OF p(3)] assms(3,4) p(1,2,5) by (intro ring_step.act) auto
  then show ?thesis
  proof (rule client_can_stepI)
    show "rp_client (put_view i p (go t (inside i l') s)) t \<noteq> rp_client s t"
      using rank_not_complete [OF p(3)] assms(3) by (simp add: inside_def)
    fix j
    assume "state_sealed (fb_state (rp_bufs s ! j))"
    then show "state_sealed (fb_state (rp_bufs (put_view i p (go t (inside i l') s)) ! j))"
      using p(4) assms(5) by (cases "j = i") (simp_all add: put_view_def)
  qed simp
qed

lemma inside_can_step:
  assumes "ring_reach pf True False cap N K s" and "N < 2 ^ 24" and "rp_client s t \<noteq> Away"
  shows "client_can_step pf cap N K s t"
proof -
  have len: "length (rp_bufs s) = K" using ring_reach_length [OF assms(1)] by simp
  have range: "places (rp_client s t) \<subseteq> {..<K}" "rp_client s t = Sized i sz \<Longrightarrow> unat sz < 2 ^ 32" for i sz
    using ring_reach_in_range [OF assms(1)] by (simp_all add: in_range_def)
  note go_on = client_can_stepI [where t = t]
  show ?thesis
  proof (cases "rp_client s t")
    case (At i l)
    show ?thesis
    proof (cases "l = Sealer")
      case True
      show ?thesis
        by (rule go_on [OF ring_step.size_sealed [where t = t and i = i]]) (use At True in simp_all)
    next
      case False
      have "i < K" using range(1) At by simp
      then show ?thesis using At_can_step [OF ring_reach_projects [OF assms(1)] assms(2) At False] len by simp
    qed
  next
    case (Sized i sz)
    have "next_multiple_of pf sz FOUR_KB_BLOCK = Done (word_of_nat (round_up (unat sz) (unat FOUR_KB_BLOCK)))"
      using range(2) [OF Sized] by (intro next_multiple_of_no_overflow) (simp_all add: FOUR_KB_BLOCK_def)
    from ring_step.claim [OF Sized this] show ?thesis by (rule go_on) (use Sized in simp_all)
  next
    case (Claimed i slot)
    show ?thesis
      by (rule go_on [OF ring_step.store_slot [OF Claimed]])
        (use Claimed range(1) len in \<open>auto simp: nth_list_update\<close>)
  next
    case (Turning i)
    show ?thesis by (rule go_on [OF ring_step.load_current [OF Turning]]) (use Turning in simp_all)
  next
    case (Seen i c)
    show ?thesis by (rule go_on [OF ring_step.load_size [OF Seen]]) (use Seen in simp_all)
  next
    case (Scan i n sz)
    show ?thesis
    proof (cases n)
      case 0
      then have "rp_client s t = Scan i 0 sz" using Scan by simp
      from ring_step.exhausted [OF this] show ?thesis by (rule go_on) (use Scan in simp_all)
    next
      case (Suc m)
      then have "rp_client s t = Scan i (Suc m) sz" using Scan by simp
      from ring_step.draw [OF this] show ?thesis by (rule go_on) (use Scan in simp_all)
    qed
  next
    case (Try i n sz k)
    show ?thesis by (rule go_on [OF ring_step.probe [OF Try]]) (use Try in simp_all)
  next
    case (Swing i sz k)
    show ?thesis by (rule go_on [OF ring_step.swing [OF Swing]]) (use Swing in simp_all)
  next
    case (Book i sz k)
    show ?thesis by (rule go_on [OF ring_step.book [OF Book]]) (use Book in simp_all)
  next
    case (Assign i slot k)
    show ?thesis
      by (rule go_on [OF ring_step.assign_slot [OF Assign]])
        (use Assign range(1) len in \<open>auto simp: Let_def nth_list_update\<close>)
  qed (use assms(3) in simp)
qed

text \<open>Nothing is dropped but by a full queue, and a queue with an entry for each buffer is never full.\<close>

lemma dropped_by_full:
  assumes "ring_step pf calm fresh cap N s s'" and "rp_dropped s' j" and "\<not> rp_dropped s j"
  shows "queue_full cap j s"
  using assms(1)
proof cases
  case (reap t i p)
  have "ps_dropped p = rp_dropped s i"
    using reap(5) by (cases rule: pstep_effects) (use reap(3,6) in \<open>auto dest: fun_cong [of _ _ t] split: if_splits\<close>)
  then show ?thesis using assms(2,3) reap(1) by (auto simp: put_view_def split: if_splits)
qed (use assms(2,3) in \<open>auto simp: put_view_def Let_def split: if_splits\<close>)

lemma queue_full_bound:
  assumes "queue_full cap i s" and "i < length (rp_bufs s)"
  shows "cap < length (rp_bufs s)"
proof -
  have "{j. j < length (rp_bufs s) \<and> j \<noteq> i \<and> rp_inflight s j} \<subseteq> {..<length (rp_bufs s)} - {i}" by auto
  then have "card {j. j < length (rp_bufs s) \<and> j \<noteq> i \<and> rp_inflight s j} \<le> card ({..<length (rp_bufs s)} - {i})"
    by (intro card_mono) simp_all
  then show ?thesis using assms by (simp add: queue_full_def card_Diff_singleton)
qed

lemma ring_never_dropped:
  assumes "ring_reach pf calm fresh cap N K s" and "K \<le> cap" and "i < K"
  shows "\<not> rp_dropped s i"
  using assms(1)
proof (induction rule: ring_reach.induct)
  case (step s s')
  have "length (rp_bufs s) = K" using ring_reach_length [OF step(1)] by simp
  then have "\<not> queue_full cap i s" using queue_full_bound [of cap i s] assms(2,3) by auto
  then show ?case using dropped_by_full [OF step(2)] step(3) by blast
qed (simp add: ring_start_def)

text \<open>So the clients can all get out, one after the other.\<close>

lemma ring_quiet:
  assumes "ring_reach pf True False cap N K s" and "N < 2 ^ 24" and "i < K" and "state_sealed (fb_state (rp_bufs s ! i))"
  shows "\<exists>q. (ring_step pf True False cap N)\<^sup>*\<^sup>* s q \<and> ring_reach pf True False cap N K q
    \<and> state_sealed (fb_state (rp_bufs q ! i)) \<and> (\<forall>t. rp_client q t = Away)"
  using assms(1,4)
proof (induction "\<Sum>u < N. client_rank K (rp_client s u)" arbitrary: s rule: less_induct)
  case less
  show ?case
  proof (cases "\<forall>t. rp_client s t = Away")
    case True
    then show ?thesis using less.prems by blast
  next
    case False
    then obtain t where t: "rp_client s t \<noteq> Away" by blast
    then have "t < N" using ring_reach_in_range [OF less.prems(1)] by (simp add: in_range_def)
    obtain s1 c where s1: "ring_step pf True False cap N s s1" "rp_client s1 = (rp_client s)(t := c)"
      "c \<noteq> rp_client s t" "state_sealed (fb_state (rp_bufs s1 ! i))"
      using inside_can_step [OF less.prems(1) assms(2) t] less.prems(2) assms(3)
      unfolding client_can_step_def by blast
    have len: "length (rp_bufs s) = K" using ring_reach_length [OF less.prems(1)] by simp
    have falls: "client_rank K c < client_rank K (rp_client s t)"
      using client_step_rank [OF s1(1) len, of t] s1(2,3) t by simp
    have r1: "ring_reach pf True False cap N K s1" using less.prems(1) s1(1) by (rule ring_reach.step)
    from less.hyps [OF sum_move_less [where m = "client_rank K", OF s1(2) falls \<open>t < N\<close>] r1 s1(4)]
    show ?thesis using s1(1) by (blast intro: converse_rtranclp_into_rtranclp)
  qed
qed

section \<open>Properties\<close>

text \<open>
  C7: A call is over after a bounded number of its own steps, under every schedule. A client
  that enters a ring of \<open>K\<close> buffers, or starts to reap, has at most \<open>3 * K + 17\<close> accesses to shared
  memory ahead, and each one it makes brings the number down, whatever the other
  threads have done in between: reserving, copying, sealing, the search for the next
  buffer, submitting and resetting are wait-free.
\<close>
theorem attempt_bounded:
  assumes "ring_step pf calm fresh cap N s s'" and "length (rp_bufs s) = K" and "rp_client s' t \<noteq> rp_client s t"
  shows "if rp_client s t = Away then client_rank K (rp_client s' t) \<le> 3 * K + 17
    else client_rank K (rp_client s' t) < client_rank K (rp_client s t)"
  using assms by (rule client_step_rank)

theorem attempt_bounded_witness:
  "client_rank 4 (Turning 2) < client_rank 4 (Claimed 2 0)"
proof -
  let ?b = "demo_buffer 0 4096"
  let ?s = "(ring_start [?b, ?b, ?b, ?b])\<lparr>rp_client := (\<lambda>_. Away)(1 := Claimed 2 0)\<rparr>"
  have "ring_step Debug False False cap 2 ?s (set_slot 2 0 (go 1 (Turning 2) ?s))"
    by (rule ring_step.store_slot) (simp add: ring_start_def)
  from attempt_bounded [OF this, of 4 1] show ?thesis by (simp add: ring_start_def)
qed

text \<open>
  C3: A sealed buffer can always be drained, if the submission queue has an entry for each buffer
  of the ring, as for the four buffers and the eight entries of \<^verbatim>\<open>src/examples/log.rs\<close>. From
  every state of the ring that calm clients reach, with some buffer sealed, and however the
  clients are spread over the buffers and the search for the next one, the clients can run on,
  none waiting for another, until the write of that buffer is with the kernel and its
  successful completion resets it.
\<close>
theorem ring_drains:
  assumes "ring_reach pf True False cap N K s" and "K \<le> cap" and "N < 2 ^ 24" and "0 < N" and "i < K"
    and "state_sealed (fb_state (rp_bufs s ! i))"
  shows "\<exists>q q'. (ring_step pf True False cap N)\<^sup>*\<^sup>* s q \<and> rp_inflight q i
    \<and> ring_step pf True False cap N q q' \<and> fb_state (rp_bufs q' ! i) = 0 \<and> \<not> rp_inflight q' i"
proof -
  obtain q where q: "(ring_step pf True False cap N)\<^sup>*\<^sup>* s q" "ring_reach pf True False cap N K q"
    "state_sealed (fb_state (rp_bufs q ! i))" and away: "\<forall>t. rp_client q t = Away"
    using ring_quiet [OF assms(1,3,5,6)] by blast
  have idle: "\<forall>t. ps_thread (view i q) t = Idle" using away by simp
  have "state_sealed (word_of (view i q))" "\<not> ps_dropped (view i q)"
    using q(3) ring_never_dropped [OF q(2) assms(2,5)] by simp_all
  note fl = quiet_in_flight [OF reachable_calm [OF ring_reach_projects [OF q(2) assms(5)] assms(3)] this(1) idle this(2)]
  let ?p = "(goto 0 Clearing (view i q))
    \<lparr>ps_buf := (ps_buf (view i q))\<lparr>fb_state := 0\<rparr>, ps_inflight := False, ps_log := []\<rparr>"
  have i: "i < length (rp_bufs q)" using ring_reach_length [OF q(2)] assms(5) by simp
  have "pstep pf True N (view i q) ?p"
    by (rule pstep.complete [OF assms(4)]) (use idle fl in simp_all)
  then have "ring_step pf True False cap N q (put_view i ?p (go 0 (At i Clearing) q))"
    using away i assms(4) by (intro ring_step.reap) simp_all
  moreover have "fb_state (rp_bufs (put_view i ?p (go 0 (At i Clearing) q)) ! i) = 0"
    "\<not> rp_inflight (put_view i ?p (go 0 (At i Clearing) q)) i" using i by (simp_all add: put_view_def)
  ultimately show ?thesis using q(1) fl(1) by auto
qed

theorem ring_drains_witness:
  "\<exists>s q q'. fb_state (rp_bufs s ! 0) = 0x100000001 \<and> (ring_step Debug True False 8 2)\<^sup>*\<^sup>* s q \<and> rp_inflight q 0
     \<and> ring_step Debug True False 8 2 q q' \<and> fb_state (rp_bufs q' ! 0) = 0"
proof -
  obtain s where s: "ring_reach Debug True False 8 2 2 s"
    and o: "outline [(0x100000001, False, 1), (0, False, 0)] 0 1 (duo (At 0 Sealer) Away) s"
    by (rule ring_stands_two [OF run_sealed [OF ring_start_two]])
  have w: "fb_state (rp_bufs s ! 0) = 0x100000001" using outline_sel(5) [OF o, of 0] by simp
  have "state_sealed (fb_state (rp_bufs s ! 0))" by (simp add: w word_eval)
  from ring_drains [OF s _ _ _ _ this] show ?thesis using w by auto
qed

text \<open>
  C6: No submission is lost, on any schedule, if the submission queue has an entry for each
  buffer of the ring: the flush-in-progress bit of a buffer is set exactly while some client
  has won its flush and not yet pushed the entry, or its write is in flight; never two
  clients at once, and never a client besides the kernel.
\<close>
theorem no_submission_lost:
  assumes "ring_reach pf calm fresh cap N K s" and "K \<le> cap" and "i < K"
  shows "(state_flush_in_progress (fb_state (rp_bufs s ! i))
      \<longleftrightarrow> rp_inflight s i \<or> (\<exists>t. owns (pc_in i (rp_client s t))))
    \<and> (\<forall>t t'. owns (pc_in i (rp_client s t)) \<longrightarrow> owns (pc_in i (rp_client s t')) \<longrightarrow> t = t')
    \<and> (\<forall>t. rp_inflight s i \<longrightarrow> \<not> owns (pc_in i (rp_client s t)))"
  using reachable_one_owner [OF ring_reach_projects [OF assms(1,3)]] ring_never_dropped [OF assms]
  by (auto simp: one_owner_def owners_def set_eq_iff split: if_splits)

theorem no_submission_lost_witness:
  "\<exists>s. ring_reach Debug True False 8 2 2 s \<and> state_flush_in_progress (fb_state (rp_bufs s ! 0))
     \<and> (\<forall>t. \<not> owns (pc_in 0 (rp_client s t)))"
proof -
  obtain s where s: "ring_reach Debug True False 8 2 2 s"
    and o: "outline [(0x100000003, True, 1), (0, False, 0)] 1 2 (duo Away Away) s"
    by (rule ring_stands_two [OF run_in_flight [OF ring_start_two]])
  have "rp_inflight s 0" using o by (auto simp: outline_def dest: spec [of _ 0])
  with no_submission_lost [OF s, of 0] s show ?thesis by auto
qed

end
