(* ===== verification/Ring_Stranding.thy ===== *)
theory Ring_Stranding
  imports Ring_Progress
begin

text \<open>
  Where the bytes of a ring are. When calls are granted space only in the buffer that is
  current, every buffer with bytes is the current one or on its way to a flush. The
  program does not see to that, and a run of it leaves bytes in a buffer that will never be
  flushed. The entry in flight of a buffer carries all of its bytes; a refused one loses them.
\<close>

section \<open>Every buffer with bytes is current or sealed\<close>

definition bytes_in :: "nat \<Rightarrow> ring_protocol \<Rightarrow> bool" where
  "bytes_in i s \<longleftrightarrow> state_offset (fb_state (rp_bufs s ! i)) \<noteq> 0"

definition open_in :: "nat \<Rightarrow> ring_protocol \<Rightarrow> bool" where
  "open_in i s \<longleftrightarrow> \<not> state_sealed (fb_state (rp_bufs s ! i))"

text \<open>A step of one buffer that grants nothing leaves it without new bytes, or sealed.\<close>

lemma pstep_bytes:
  assumes "pstep pf True N v p" and "calm_inv N v" and "\<not> state_sealed (word_of p)" and "state_offset (word_of p) \<noteq> 0"
    and "\<forall>t. holds (ps_thread p t) \<longrightarrow> holds (ps_thread v t)"
  shows "\<not> state_sealed (word_of v) \<and> state_offset (word_of v) \<noteq> 0"
  using assms(1)
proof (cases rule: pstep_effects)
  case (exchange t payload)
  then show ?thesis using assms(5) by (auto dest: spec [of _ t])
next
  case (leave t off payload k)
  then have "t \<in> holders v" by (simp add: holders_iff)
  then have "0 < unat (state_writers (word_of v))"
    using assms(2) holders_finite [of N v] by (simp add: calm_inv_def counted_def card_gt_0_iff) blast
  then have "state_offset (word_of p) = state_offset (word_of v)" 
    by (simp add: leave(2) drop_writer_sel word_unat_eq_iff)
  then show ?thesis using assms(3,4) drop_writer_flags by (simp add: leave(2))
qed (use assms(3,4) in auto)

lemma bytes_set_slot [simp]:
  "bytes_in j (u\<lparr>rp_bufs := (rp_bufs s)[i := (rp_bufs s ! i)\<lparr>fb_local_address := slot\<rparr>]\<rparr>) = bytes_in j s"
  "open_in j (u\<lparr>rp_bufs := (rp_bufs s)[i := (rp_bufs s ! i)\<lparr>fb_local_address := slot\<rparr>]\<rparr>) = open_in j s"
  by (cases "i = j"; cases "i < length (rp_bufs s)"; simp add: bytes_in_def open_in_def list_update_beyond)+

lemma bytes_frame [simp]:
  "bytes_in j (s\<lparr>rp_client := c\<rparr>) = bytes_in j s" "open_in j (s\<lparr>rp_client := c\<rparr>) = open_in j s"
  "bytes_in j (s\<lparr>rp_current := u\<rparr>) = bytes_in j s" "open_in j (s\<lparr>rp_current := u\<rparr>) = open_in j s"
  "bytes_in j (s\<lparr>rp_next_index := x\<rparr>) = bytes_in j s" "open_in j (s\<lparr>rp_next_index := x\<rparr>) = open_in j s"
  "bytes_in j (s\<lparr>rp_inflight := f\<rparr>) = bytes_in j s" "open_in j (s\<lparr>rp_inflight := f\<rparr>) = open_in j s"
  "bytes_in j (s\<lparr>rp_dropped := f\<rparr>) = bytes_in j s" "open_in j (s\<lparr>rp_dropped := f\<rparr>) = open_in j s"
  "bytes_in j (s\<lparr>rp_next_address := x\<rparr>) = bytes_in j s" "open_in j (s\<lparr>rp_next_address := x\<rparr>) = open_in j s"
  by (simp_all add: bytes_in_def open_in_def)

lemma bytes_put_view:
  "i < length (rp_bufs s) \<Longrightarrow> bytes_in j (put_view i p s)
     = (if j = i then state_offset (word_of p) \<noteq> 0 else bytes_in j s)"
  "i < length (rp_bufs s) \<Longrightarrow> open_in j (put_view i p s)
     = (if j = i then \<not> state_sealed (word_of p) else open_in j s)"
  by (auto simp: bytes_in_def open_in_def put_view_def)

definition none_stranded :: "ring_protocol \<Rightarrow> bool" where
  "none_stranded s \<longleftrightarrow> (\<forall>i < length (rp_bufs s). open_in i s \<and> bytes_in i s \<longrightarrow> i = rp_current s)"

lemma none_stranded_step:
  assumes "ring_step pf True True cap N s s'" and "none_stranded s"
    and inv: "\<And>i. i < length (rp_bufs s) \<Longrightarrow> calm_inv N (view i s)"
    and range: "\<And>t. places (rp_client s t) \<subseteq> {..<length (rp_bufs s)}"
  shows "none_stranded s'"
proof -
  have old: "j = rp_current s" if "j < length (rp_bufs s)" "open_in j s" "bytes_in j s" for j
    using assms(2) that by (simp add: none_stranded_def)
  have move: "none_stranded (put_view i p (go t c s))"
    if i: "i < length (rp_bufs s)" and p: "pstep pf True N (view i s) p" "ps_thread p = (ps_thread (view i s))(t := l')"
      and grant: "holds l' \<longrightarrow> holds (ps_thread (view i s) t) \<or> rp_current s = i" for i p t c l'
  proof -
    have "i = rp_current s" if now: "\<not> state_sealed (word_of p)" "state_offset (word_of p) \<noteq> 0"
    proof (cases "holds l' \<and> \<not> holds (ps_thread (view i s) t)")
      case False
      then have "\<forall>u. holds (ps_thread p u) \<longrightarrow> holds (ps_thread (view i s) u)" using p(2) by auto
      from pstep_bytes [OF p(1) inv [OF i] now this] show ?thesis
        using old [OF i] by (simp add: open_in_def bytes_in_def)
    qed (use grant in auto)
    then show ?thesis using i old by (auto simp: none_stranded_def bytes_put_view)
  qed
  show ?thesis
    using assms(1)
  proof cases
    case (act t i l l' p)
    then have "i < length (rp_bufs s)" using range [of t] by simp
    then show ?thesis unfolding act(1) using act(2,6-8) by (intro move [OF _ act(6,7)]) auto
  next
    case (reap t i p)
    then show ?thesis by (auto intro!: move)
  next
    case (swing t i sz k)
    have i: "i < length (rp_bufs s)" using range [of t] swing(2) by simp
    have "state_sealed (word_of (view i s))"
      using closing_sealed [of "view i s" t] inv [OF i] swing(2) by (simp add: calm_inv_def)
    then have "\<not> open_in i s" by (simp add: open_in_def)
    then show ?thesis using old by (auto simp: none_stranded_def swing(1))
  next
    case (store_slot t i slot)
    then show ?thesis using old by (auto simp: none_stranded_def)
  next
    case (assign_slot t i slot k)
    then show ?thesis using old by (auto simp: none_stranded_def Let_def)
  qed (use old in \<open>auto simp: none_stranded_def\<close>)
qed

lemma ring_reach_none_stranded:
  assumes "ring_reach pf True True cap N K s" and "N < 2 ^ 24"
  shows "none_stranded s"
  using assms(1)
proof (induction rule: ring_reach.induct)
  case (start bs)
  then show ?case
    by (auto simp: none_stranded_def ring_start_def bytes_in_def fresh_buffers_def state_offset_def)
next
  case (step s s')
  have len: "length (rp_bufs s) = K" using ring_reach_length [OF step(1)] by simp
  have "calm_inv N (view i s)" if "i < K" for i
    using reachable_calm [OF ring_reach_projects [OF step(1) that] assms(2)] .
  then show ?case
    using none_stranded_step [OF step(2,3)] ring_reach_in_range [OF step(1)] len by (simp add: in_range_def)
qed

section \<open>Abandoned buffers\<close>

text \<open>
  An abandoned buffer is open and has bytes, but is not current and not with the kernel, and
  no client refers to it, except one that is about to find that it is not available.
\<close>

definition abandoned :: "nat \<Rightarrow> ring_protocol \<Rightarrow> bool" where
  "abandoned i s \<longleftrightarrow> i < length (rp_bufs s) \<and> open_in i s \<and> bytes_in i s \<and> rp_current s \<noteq> i \<and> \<not> rp_inflight s i
     \<and> (\<forall>t. i \<in> places (rp_client s t) \<longrightarrow> (\<exists>j n sz. j \<noteq> i \<and> rp_client s t = Try j n sz i))"

lemma abandoned_unavailable: "abandoned i s \<Longrightarrow> \<not> is_available (rp_bufs s ! i)"
  by (simp add: abandoned_def bytes_in_def is_available_def)

lemma pstep_reap: "pstep pf calm N v p \<Longrightarrow> ps_thread v t = Idle \<Longrightarrow> ps_thread p t = Clearing \<Longrightarrow> ps_inflight v"
  by (erule pstep.cases) (auto split: if_splits)

lemma abandoned_refs:
  assumes "abandoned i s"
  shows "pc_in i (rp_client s t) = Idle"
    and "(\<forall>j n sz k. rp_client s t \<noteq> Try j n sz k) \<Longrightarrow> i \<notin> places (rp_client s t)"
    and "rp_client s t = Try j n sz k \<Longrightarrow> j \<noteq> i"
  using assms by (cases "rp_client s t"; auto simp: abandoned_def dest: spec [of _ t])+

lemma abandoned_same:
  assumes "abandoned i s" and "view i s' = view i s" and "length (rp_bufs s') = length (rp_bufs s)" and "rp_current s' \<noteq> i"
    and "\<forall>t. i \<in> places (rp_client s' t) \<longrightarrow> (\<exists>j n sz. j \<noteq> i \<and> rp_client s' t = Try j n sz i)"
  shows "view i s' = view i s \<and> abandoned i s'"
  using assms by (simp add: abandoned_def open_in_def bytes_in_def view_def)

lemma abandoned_go:
  assumes "abandoned i s" and "i \<in> places c \<longrightarrow> (\<exists>j n sz. j \<noteq> i \<and> c = Try j n sz i)"
  shows "view i (go t c s) = view i s \<and> abandoned i (go t c s)"
proof (rule abandoned_same [OF assms(1)])
  have "pc_in i c = Idle" using assms(2) by (cases c) auto
  then show "view i (go t c s) = view i s" using abandoned_refs(1) [OF assms(1)] by (intro view_still) simp
qed (use assms in \<open>auto simp: abandoned_def\<close>)

lemma abandoned_frame:
  "abandoned i (s\<lparr>rp_next_index := x\<rparr>) = abandoned i s" "abandoned i (s\<lparr>rp_next_address := x\<rparr>) = abandoned i s"
  by (simp_all add: abandoned_def open_in_def bytes_in_def)

lemma abandoned_put:
  assumes "abandoned i s" and "j \<noteq> i"
  shows "view i (put_view j p s) = view i s \<and> abandoned i (put_view j p s)"
  by (rule abandoned_same [OF assms(1)]) (use assms in \<open>auto simp: abandoned_def view_put_other\<close>)

lemma abandoned_slot:
  assumes "abandoned i s" and "j \<noteq> i"
  shows "view i (s\<lparr>rp_bufs := (rp_bufs s)[j := b]\<rparr>) = view i s \<and> abandoned i (s\<lparr>rp_bufs := (rp_bufs s)[j := b]\<rparr>)"
  by (rule abandoned_same [OF assms(1)]) (use assms in \<open>auto simp: abandoned_def view_def\<close>)

lemma abandoned_step:
  assumes "ring_step pf calm fresh cap N s s'" and "abandoned i s"
  shows "view i s' = view i s \<and> abandoned i s'"
proof -
  note refs = abandoned_refs [OF assms(2)] and walk = abandoned_go [OF assms(2)]
  have current: "rp_current s \<noteq> i" using assms(2) by (simp add: abandoned_def)
  have stay: "view i (go t c s) = view i s \<and> abandoned i (go t c s)"
    if "\<forall>j n sz k. rp_client s t \<noteq> Try j n sz k" "places c \<subseteq> insert (rp_current s) (places (rp_client s t))" for t c
    by (rule walk) (use refs(2) [OF that(1)] that(2) current in auto)
  show ?thesis
    using assms(1)
  proof cases
    case (act t j l l' p)
    then have j: "j \<noteq> i" using refs(2) [of t] by auto
    then show ?thesis
      using abandoned_put [of i "go t (inside j l') s" j p] walk [of "inside j l'" t] by (simp add: act(1) inside_def)
  next
    case (reap t j p)
    have "j \<noteq> i"
      using pstep_reap [OF reap(5), of t] refs(1) [of t] reap(6) assms(2) by (auto simp: abandoned_def)
    then show ?thesis
      using abandoned_put [of i "go t (At j Clearing) s" j p] walk [of "At j Clearing" t] by (simp add: reap(1))
  next
    case (retry j e)
    then show ?thesis using assms(2) by simp
  next
    case (retry_full j)
    then have "j \<noteq> i" using assms(2) by (auto simp: abandoned_def)
    then show ?thesis
      using assms(2) by (simp add: retry_full(1) view_def abandoned_def open_in_def bytes_in_def)
  next
    case (store_slot t j slot)
    then have "j \<noteq> i" using refs(2) [of t] by auto
    then show ?thesis
      using abandoned_slot [of i "go t (Turning j) s" j] walk [of "Turning j" t] by (simp add: store_slot(1))
  next
    case (assign_slot t j slot k)
    then have "j \<noteq> i" "k \<noteq> i" using refs(2) [of t] by auto
    then show ?thesis
      using abandoned_slot [of i "go t (At j Slotted) s" k] walk [of "At j Slotted" t]
      by (simp add: assign_slot(1) Let_def)
  next
    case (swing t j sz k)
    then have "j \<noteq> i" "k \<noteq> i" using refs(2) [of t] by auto
    then show ?thesis
      using walk [of "Book j sz k" t] current by (simp add: swing(1) abandoned_def open_in_def bytes_in_def)
  next
    case (probe t j n sz k)
    have "j \<noteq> i" using refs(3) [OF probe(2)] .
    then show ?thesis
      using walk [of "Scan j n sz" t] walk [of "Swing j sz k" t] abandoned_unavailable [OF assms(2)]
      by (auto simp: probe(1))
  next
    case (draw t j n sz)
    then have "j \<noteq> i" using refs(2) [of t] by auto
    then show ?thesis
      using walk [of "Try j n sz (unat (rp_next_index s mod word_of_nat (length (rp_bufs s))))" t]
      by (simp add: draw(1) abandoned_frame)
  next
    case (enter t)
    then show ?thesis using walk current by simp
  qed (auto simp: abandoned_frame intro!: stay)
qed

lemma abandoned_run:
  assumes "(ring_step pf calm fresh cap N)\<^sup>*\<^sup>* s s'" and "abandoned i s"
  shows "view i s' = view i s \<and> abandoned i s'"
  using assms(1)
proof (induction rule: rtranclp_induct)
  case (step u v)
  then show ?case using abandoned_step [OF step(2)] by simp
qed (use assms(2) in simp)

section \<open>Dropped submissions\<close>

text \<open>A buffer whose entry was refused keeps its reservations and is not submitted again.\<close>

lemma dropped_step:
  assumes "pstep pf calm N v v'" and "one_owner v" and "ps_dropped v"
  shows "ps_dropped v' \<and> ps_log v' = ps_log v"
proof -
  have v: "state_flush_in_progress (word_of v)" "\<not> ps_inflight v" "\<not> owns (ps_thread v t)" for t
    using assms(2,3) by (auto simp: one_owner_def owners_def split: if_splits)
  from assms(1) show ?thesis
  proof (cases rule: pstep_effects)
    case (release t)
    then show ?thesis using v(3) [of t] by simp
  qed (use assms(3) v(1,2) in simp_all)
qed

lemma dropped_run:
  assumes "(ring_step pf calm fresh cap N)\<^sup>*\<^sup>* s s'" and "ring_reach pf calm fresh cap N K s" and "i < K" and "rp_dropped s i"
  shows "ring_reach pf calm fresh cap N K s' \<and> rp_dropped s' i \<and> rp_log s' i = rp_log s i"
  using assms(1)
proof (induction rule: rtranclp_induct)
  case (step u v)
  then have u: "ring_reach pf calm fresh cap N K u" "rp_dropped u i" "rp_log u i = rp_log s i" by simp_all
  have "i < length (rp_bufs u)" using ring_reach_length [OF u(1)] assms(3) by simp
  from ring_step_projects [OF step(2) this] have "rp_dropped v i \<and> rp_log v i = rp_log u i"
  proof
    assume same: "view i v = view i u"
    have "ps_dropped (view i v) = ps_dropped (view i u)" "ps_log (view i v) = ps_log (view i u)" by (simp_all only: same)
    then show ?thesis using u(2) by simp
  next
    assume "pstep pf calm N (view i u) (view i v)"
    from dropped_step [OF this reachable_one_owner [OF ring_reach_projects [OF u(1) assms(3)]]] show ?thesis using u(2) by simp
  qed
  then show ?case using u ring_reach.step [OF u(1) step(2)] by simp
qed (use assms in simp)

section \<open>Two runs\<close>

text \<open>
  A client that has loaded the current pointer, and reserves only after another client has
  filled, sealed, flushed and reset that buffer and moved the pointer on.
\<close>

lemma run_stale:
  "ring_stands True False cap 2 [(0x100000000, False, 1), (0, False, 0)] 1 2 (duo Away Away)"
proof -
  let ?free = "(0, False, 0) :: life"
  have "ring_stands True False cap 2 [?free, ?free] 0 1 (duo Away (At 0 Idle))"
    using ring_stands_enter [OF ring_start_two, of 1 True False] by simp
  from run_in_flight [OF this]
  have "ring_stands True False cap 2 [(0x100000003, True, 1), ?free] 1 2 (duo Away (At 0 Idle))" .
  from ring_stands_reap [OF this, where t = 0 and i = 0 and w = "0x100000003" and n = 1]
  have "ring_stands True False cap 2 [?free, ?free] 1 2 (duo (At 0 Clearing) (At 0 Idle))"
    by simp
  from ring_stands_clear [OF this, where t = 0 and i = 0 and l = Clearing and w = 0 and fl = False and n = 0]
  have "ring_stands True False cap 2 [?free, ?free] 1 2 (duo Away (At 0 Idle))"
    by (simp add: inside_def)
  from run_write [OF this, where t = 1 and i = 0 and w = 0 and fl = False and n = 0 and v = 8]
  have "ring_stands True False cap 2 [(0x100000100, False, 1), ?free] 1 2 (duo Away (At 0 (Copied 0 [8] 0)))"
    by (simp add: word_eval)
  from ring_stands_leave [OF this, where t = 1 and i = 0 and w = "0x100000100" and l = "Copied 0 [8] 0"
      and off = 0 and p = "[8]" and k = 0 and fl = False and n = 1]
  show ?thesis by (simp add: word_eval inside_def)
qed

text \<open>
  A sealer that moves the pointer away from the buffer only after the buffer has been flushed,
  reset and written to again.
\<close>

lemma run_late:
  "ring_stands False True cap 2 [(0x100000000, False, 1), (0, False, 0)] 1 2 (duo Away Away)"
proof -
  let ?free = "(0, False, 0) :: life" and ?sz = "state_offset 0x100000101" and ?R = "ring_stands False True cap 2"
  have "?R [?free, ?free] 0 1 (duo Away (At 0 Idle))"
    using ring_stands_enter [OF ring_start_two, of 1 False True] by simp
  from run_write [OF this, where t = 1 and i = 0 and w = 0 and fl = False and n = 0 and v = 7]
  have "?R [(0x100000100, False, 1), ?free] 0 1 (duo Away (At 0 (Copied 0 [7] 0)))"
    by (simp add: word_eval)
  from ring_stands_enter [OF this, of 0]
  have "?R [(0x100000100, False, 1), ?free] 0 1 (duo (At 0 Idle) (At 0 (Copied 0 [7] 0)))" by simp
  from ring_stands_full [OF this, where t = 0 and i = 0 and w = "0x100000100" and l = Idle and fl = False and n = 1]
  have "?R [(0x100000100, False, 1), ?free] 0 1 (duo (At 0 Full) (At 0 (Copied 0 [7] 0)))"
    by (simp add: word_eval inside_def)
  from ring_stands_seal [OF this, where t = 0 and i = 0 and w = "0x100000100" and l = Full and fl = False and n = 1]
  have "?R [(0x100000101, False, 1), ?free] 0 1 (duo (At 0 Sealer) (At 0 (Copied 0 [7] 0)))"
    by (simp add: word_eval inside_def)
  from ring_stands_slot [OF this, where t = 0 and i = 0]
  have "?R [(0x100000101, False, 1), ?free] 0 1 (duo (Turning 0) (At 0 (Copied 0 [7] 0)))" by simp
  from ring_stands_search [OF this, where t = 0 and k = 1]
  have "?R [(0x100000101, False, 1), ?free] 0 2 (duo (Swing 0 ?sz 1) (At 0 (Copied 0 [7] 0)))" by simp
  from ring_stands_leave [OF this, where t = 1 and i = 0 and w = "0x100000101" and l = "Copied 0 [7] 0"
      and off = 0 and p = "[7]" and k = 0 and fl = False and n = 1]
  have "?R [(0x100000001, False, 1), ?free] 0 2 (duo (Swing 0 ?sz 1) (At 0 LastOut))"
    by (simp add: word_eval inside_def)
  from ring_stands_flag [OF this, where t = 1 and i = 0 and l = LastOut and w = "0x100000001" and fl = False and n = 1]
  have "?R [(0x100000003, False, 1), ?free] 0 2 (duo (Swing 0 ?sz 1) (At 0 Owner))"
    by (simp add: word_eval inside_def)
  from ring_stands_submit [OF this, where t = 1 and i = 0 and w = "0x100000003" and fl = False and n = 1]
  have "?R [(0x100000003, True, 1), ?free] 0 2 (duo (Swing 0 ?sz 1) Away)"
    by (simp add: word_eval inside_def)
  from ring_stands_reap [OF this, where t = 1 and i = 0 and w = "0x100000003" and n = 1]
  have "?R [?free, ?free] 0 2 (duo (Swing 0 ?sz 1) (At 0 Clearing))" by simp
  from ring_stands_clear [OF this, where t = 1 and i = 0 and l = Clearing and w = 0 and fl = False and n = 0]
  have "?R [?free, ?free] 0 2 (duo (Swing 0 ?sz 1) Away)" by (simp add: inside_def)
  from ring_stands_enter [OF this, of 1]
  have "?R [?free, ?free] 0 2 (duo (Swing 0 ?sz 1) (At 0 Idle))" by simp
  from run_write [OF this, where t = 1 and i = 0 and w = 0 and fl = False and n = 0 and v = 8]
  have "?R [(0x100000100, False, 1), ?free] 0 2 (duo (Swing 0 ?sz 1) (At 0 (Copied 0 [8] 0)))"
    by (simp add: word_eval)
  from ring_stands_swing [OF this, where t = 0 and k = 1 and sz = ?sz]
  have "?R [(0x100000100, False, 1), ?free] 1 2 (duo (At 0 Slotted) (At 0 (Copied 0 [8] 0)))" by simp
  from ring_stands_look [OF this, where t = 0 and i = 0 and l = Slotted and w = "0x100000100" and fl = False and n = 1]
  have "?R [(0x100000100, False, 1), ?free] 1 2 (duo Away (At 0 (Copied 0 [8] 0)))"
    by (simp add: word_eval inside_def)
  from ring_stands_leave [OF this, where t = 1 and i = 0 and w = "0x100000100" and l = "Copied 0 [8] 0"
      and off = 0 and p = "[8]" and k = 0 and fl = False and n = 1]
  show ?thesis by (simp add: word_eval inside_def)
qed

text \<open>The outline of both runs is that of an abandoned buffer.\<close>

lemma outline_abandoned:
  assumes "outline [(0x100000000, False, 1), (0, False, 0)] 1 2 (duo Away Away) s"
  shows "abandoned 0 s" and "\<forall>t. rp_client s t = Away" and "length (rp_log s 0) = 1"
proof -
  have s: "length (rp_bufs s) = 2" "rp_current s = 1" "fb_state (rp_bufs s ! 0) = 0x100000000"
    "\<not> rp_inflight s 0" "length (rp_log s 0) = 1" "rp_client s = duo Away Away"
    using assms by (auto simp: outline_def dest: spec [of _ 0])
  show away: "\<forall>t. rp_client s t = Away" using s(6) by (simp add: duo_def)
  show "length (rp_log s 0) = 1" by (rule s(5))
  show "abandoned 0 s"
    using s away by (simp add: abandoned_def open_in_def bytes_in_def word_eval)
qed

section \<open>Properties\<close>

text \<open>
  C1: A flush carries every byte that was reserved. In every ring and for every interleaving of
  its clients in which no reset overtakes a client deciding about a flush, once the
  flush-in-progress bit of a buffer is set, the buffer is sealed and nobody holds a
  reservation in it, its write offset is the total size of the payloads granted since the
  last reset, and the slice submitted to the kernel starts with exactly these payloads, in
  the order of their reservations, none missing or torn.
\<close>
theorem ring_flush_carries_all_writes:
  assumes "ring_reach pf True fresh cap N K s" and "N < 2 ^ 24" and "i < K"
    and "state_flush_in_progress (fb_state (rp_bufs s ! i))"
  shows "(\<forall>t. \<not> holds (pc_in i (rp_client s t))) \<and> state_sealed (fb_state (rp_bufs s ! i))
    \<and> unat (state_offset (fb_state (rp_bufs s ! i))) = length (concat (rp_log s i))
    \<and> (\<exists>data. fb_buffer_data pf (rp_bufs s ! i) = Done (buf_ptr (fb_buf (rp_bufs s ! i)), data)
        \<and> length (concat (rp_log s i)) \<le> length data
        \<and> take (length (concat (rp_log s i))) data = concat (rp_log s i))"
  using flush_slice_complete [OF ring_reach_projects [OF assms(1,3)] assms(2)] assms(4)
  by (auto simp: holders_def)

theorem ring_flush_carries_all_writes_witness:
  "\<exists>(s :: ring_protocol) data. fb_buffer_data Debug (rp_bufs s ! 0) = Done (buf_ptr (fb_buf (rp_bufs s ! 0)), data)
     \<and> length (rp_log s 0) = 1 \<and> take (length (concat (rp_log s 0))) data = concat (rp_log s 0)"
proof -
  obtain s where s: "ring_reach Debug True True 8 2 2 s"
    and o: "outline [(0x100000003, True, 1), (0, False, 0)] 1 2 (duo Away Away) s"
    by (rule ring_stands_two [OF run_in_flight [OF ring_start_two]])
  have w: "fb_state (rp_bufs s ! 0) = 0x100000003" "length (rp_log s 0) = 1"
    using o by (auto simp: outline_def dest: spec [of _ 0])
  have "state_flush_in_progress (fb_state (rp_bufs s ! 0))" by (simp add: w(1) word_eval)
  with ring_flush_carries_all_writes [OF s, of 0] obtain data where
    "fb_buffer_data Debug (rp_bufs s ! 0) = Done (buf_ptr (fb_buf (rp_bufs s ! 0)), data)"
    "take (length (concat (rp_log s 0))) data = concat (rp_log s 0)" by auto
  then show ?thesis using w(2) by blast
qed

text \<open>
  C2: No bytes are left behind, as long as a client is granted space only in the buffer that is
  current at that moment, and no reset overtakes a deciding client. In every reachable
  state of the ring a buffer that has bytes is the current one, or it is sealed and its
  flush-in-progress bit is set, or a writer is still in it, or some client is on its way to
  start the flush. (A set bit means a flush under way unless the queue refused the entry: C6
  and C21.)
\<close>
theorem no_bytes_stranded:
  assumes "ring_reach pf True True cap N K s" and "N < 2 ^ 24" and "i < K" and "state_offset (fb_state (rp_bufs s ! i)) \<noteq> 0"
  shows "i = rp_current s \<or> state_sealed (fb_state (rp_bufs s ! i))
    \<and> (state_flush_in_progress (fb_state (rp_bufs s ! i)) \<or> (\<exists>t. holds (pc_in i (rp_client s t)))
       \<or> (\<exists>t. decides (pc_in i (rp_client s t))))"
proof -
  have "i = rp_current s \<or> state_sealed (fb_state (rp_bufs s ! i))"
    using ring_reach_none_stranded [OF assms(1,2)] ring_reach_length [OF assms(1)] assms(3,4)
    by (auto simp: none_stranded_def open_in_def bytes_in_def)
  moreover have "closing (view i s)"
    using reachable_calm [OF ring_reach_projects [OF assms(1,3)] assms(2)] by (simp add: calm_inv_def)
  ultimately show ?thesis by (auto simp: closing_def settled_def holders_def)
qed

theorem no_bytes_stranded_witness:
  "\<exists>s. ring_reach Debug True True 8 2 2 s \<and> rp_current s = 1
     \<and> state_sealed (fb_state (rp_bufs s ! 0)) \<and> state_offset (fb_state (rp_bufs s ! 0)) \<noteq> 0"
proof -
  obtain s where s: "ring_reach Debug True True 8 2 2 s"
    and o: "outline [(0x100000003, True, 1), (0, False, 0)] 1 2 (duo Away Away) s"
    by (rule ring_stands_two [OF run_in_flight [OF ring_start_two]])
  have w: "fb_state (rp_bufs s ! 0) = 0x100000003" "rp_current s = 1"
    using o by (auto simp: outline_def dest: spec [of _ 0])
  have "state_offset (fb_state (rp_bufs s ! 0)) \<noteq> 0" by (simp add: w(1) word_eval)
  with no_bytes_stranded [OF s, of 0] show ?thesis using s w(2) by fastforce
qed

text \<open>
  C4: Either condition alone is not enough, and the program checks neither. Two clients, two
  buffers: a client that loaded the current pointer before the buffer was filled,
  flushed and reset (a calm schedule), or one that writes into the reset buffer before a
  late sealer moves the pointer away from it (every grant in the current buffer), has a
  byte accepted in buffer 0 which nobody will flush: at the end every client is outside,
  nothing is in flight, buffer 0 is open with that byte, and the current buffer is the
  other one.
\<close>
theorem accepted_byte_stranded:
  "(\<exists>s. ring_reach Debug True False cap 2 2 s \<and> (\<forall>t. rp_client s t = Away) \<and> length (rp_log s 0) = 1 \<and> abandoned 0 s)
    \<and> (\<exists>s. ring_reach Debug False True cap 2 2 s \<and> (\<forall>t. rp_client s t = Away) \<and> length (rp_log s 0) = 1 \<and> abandoned 0 s)"
proof -
  obtain s where "ring_reach Debug True False cap 2 2 s"
    and "outline [(0x100000000, False, 1), (0, False, 0)] 1 2 (duo Away Away) s"
    by (rule ring_stands_two [OF run_stale])
  moreover obtain s' where "ring_reach Debug False True cap 2 2 s'"
    and "outline [(0x100000000, False, 1), (0, False, 0)] 1 2 (duo Away Away) s'"
    by (rule ring_stands_two [OF run_late])
  ultimately show ?thesis using outline_abandoned by blast
qed

text \<open>
  C5: What is left behind stays there. In every continuation of a run, on whatever schedule,
  the word, the bytes and the address slot of an abandoned buffer are what they were, the
  buffer never becomes current and never counts as available again, and its bytes never
  go to the kernel; so the ring has lost both the bytes and the buffer.
\<close>
theorem abandoned_for_ever:
  assumes "(ring_step pf calm fresh cap N)\<^sup>*\<^sup>* s s'" and "abandoned i s"
  shows "view i s' = view i s \<and> rp_current s' \<noteq> i \<and> \<not> is_available (rp_bufs s' ! i) \<and> \<not> rp_inflight s' i"
  using abandoned_run [OF assms] abandoned_unavailable [of i s'] by (simp add: abandoned_def)

theorem abandoned_for_ever_witness:
  "\<exists>s s'. ring_step Debug True False 8 2 s s' \<and> rp_client s' 0 = At 1 Idle \<and> view 0 s' = view 0 s
     \<and> fb_state (rp_bufs s' ! 0) = 0x100000000"
proof -
  obtain s where reach: "ring_reach Debug True False 8 2 2 s"
    and o: "outline [(0x100000000, False, 1), (0, False, 0)] 1 2 (duo Away Away) s"
    by (rule ring_stands_two [OF run_stale])
  note out = outline_abandoned [OF o]
  have w: "fb_state (rp_bufs s ! 0) = 0x100000000" "rp_current s = 1"
    using o by (auto simp: outline_def dest: spec [of _ 0])
  have step: "ring_step Debug True False 8 2 s (go 0 (At (rp_current s) Idle) s)"
    using out(2) by (intro ring_step.enter) simp_all
  from abandoned_for_ever [OF r_into_rtranclp, OF step out(1)]
  have "view 0 (go 0 (At (rp_current s) Idle) s) = view 0 s" by simp
  then show ?thesis
    using step w by (intro exI [of _ s] exI [of _ "go 0 (At (rp_current s) Idle) s"]) simp
qed

text \<open>
  C21: A refused submission is lost for good. If the submission queue was full when the flush of
  a buffer was submitted, or when a failed write was submitted again, the error is dropped,
  and in every continuation by the clients, on any schedule, the buffer keeps its
  flush-in-progress bit with no client and no write that could ever reset it: it never
  counts as available again, and the payloads reserved in it stay where they are, with no
  write of them in flight.
\<close>
theorem dropped_for_ever:
  assumes "ring_reach pf calm fresh cap N K s" and "i < K" and "rp_dropped s i" and "(ring_step pf calm fresh cap N)\<^sup>*\<^sup>* s s'"
  shows "state_flush_in_progress (fb_state (rp_bufs s' ! i)) \<and> \<not> is_available (rp_bufs s' ! i)
    \<and> \<not> rp_inflight s' i \<and> (\<forall>t. \<not> owns (pc_in i (rp_client s' t))) \<and> rp_log s' i = rp_log s i"
proof -
  have s': "ring_reach pf calm fresh cap N K s'" "rp_dropped s' i" "rp_log s' i = rp_log s i"
    using dropped_run [OF assms(4,1-3)] by simp_all
  have "one_owner (view i s')" using reachable_one_owner [OF ring_reach_projects [OF s'(1) assms(2)]] .
  then have "state_flush_in_progress (fb_state (rp_bufs s' ! i))" "\<not> rp_inflight s' i" "\<not> owns (pc_in i (rp_client s' t))" for t
    using s'(2) by (auto simp: one_owner_def owners_def set_eq_iff split: if_splits)
  then show ?thesis using s'(3) by (auto simp: is_available_def flags_clear_iff)
qed

text \<open>Two buffers and a queue of one entry: the second flush comes while the first write is queued.\<close>

lemma run_second_owner:
  "ring_stands True True cap 2 [(0x100000003, True, 1), (0x100000003, False, 1)] 1 2 (duo (At 1 Owner) (At 1 Sealer))"
proof -
  let ?one = "(0x100000003, True, 1) :: life" and ?R = "ring_stands True True cap 2"
  have "?R [?one, (0, False, 0)] 1 2 (duo Away Away)" by (rule run_in_flight [OF ring_start_two])
  from ring_stands_enter [OF this, of 0]
  have "?R [?one, (0, False, 0)] 1 2 (duo (At 1 Idle) Away)" by simp
  from run_write [OF this, where t = 0 and i = 1 and w = 0 and fl = False and n = 0 and v = 9]
  have "?R [?one, (0x100000100, False, 1)] 1 2 (duo (At 1 (Copied 0 [9] 0)) Away)"
    by (simp add: word_eval)
  from ring_stands_enter [OF this, of 1]
  have "?R [?one, (0x100000100, False, 1)] 1 2 (duo (At 1 (Copied 0 [9] 0)) (At 1 Idle))" by simp
  from ring_stands_full [OF this, where t = 1 and i = 1 and w = "0x100000100" and l = Idle and fl = False and n = 1]
  have "?R [?one, (0x100000100, False, 1)] 1 2 (duo (At 1 (Copied 0 [9] 0)) (At 1 Full))"
    by (simp add: word_eval inside_def)
  from ring_stands_seal [OF this, where t = 1 and i = 1 and w = "0x100000100" and l = Full and fl = False and n = 1]
  have "?R [?one, (0x100000101, False, 1)] 1 2 (duo (At 1 (Copied 0 [9] 0)) (At 1 Sealer))"
    by (simp add: word_eval inside_def)
  from ring_stands_leave [OF this, where t = 0 and i = 1 and w = "0x100000101" and l = "Copied 0 [9] 0"
      and off = 0 and p = "[9]" and k = 0 and fl = False and n = 1]
  have "?R [?one, (0x100000001, False, 1)] 1 2 (duo (At 1 LastOut) (At 1 Sealer))"
    by (simp add: word_eval inside_def)
  from ring_stands_flag [OF this, where t = 0 and i = 1 and l = LastOut and w = "0x100000001" and fl = False and n = 1]
  show ?thesis by (simp add: word_eval inside_def)
qed

lemma run_dropped:
  "\<exists>s. ring_reach Debug True True 1 2 2 s \<and> rp_dropped s 1 \<and> length (rp_log s 1) = 1"
proof -
  let ?lives = "[(0x100000003, True, 1), (0x100000003, False, 1)] :: life list"
  obtain s where s: "ring_reach Debug True True 1 2 2 s" and o: "outline ?lives 1 2 (duo (At 1 Owner) (At 1 Sealer)) s"
    by (rule ring_stands_two [OF run_second_owner])
  obtain s1 len at where s1: "(ring_step Debug True True 1 2)\<^sup>*\<^sup>* s s1"
    "outline (?lives[1 := (0x100000003 OR FLUSH_IN_PROGRESS_BIT, False, 1)]) 1 2
       ((duo (At 1 Owner) (At 1 Sealer))(0 := At 1 (Addressed len at))) s1"
    using ring_addressed [OF o, where t = 0 and i = 1 and w = "0x100000003" and fl = False and n = 1
        and calm = True and fresh = True and cap = 1 and N = 2] by (auto simp: word_eval)
  have o1: "length (rp_bufs s1) = 2" "rp_client s1 0 = At 1 (Addressed len at)" "rp_inflight s1 0" "length (rp_log s1 1) = 1"
    using s1(2) by (auto simp: outline_def dest: spec [of _ 0] spec [of _ 1])
  have "{j. j < 2 \<and> j \<noteq> 1 \<and> rp_inflight s1 j} = {0 :: nat}" using o1(3) by auto
  then have full: "queue_full 1 1 s1" by (simp add: queue_full_def o1(1))
  let ?p = "(goto 0 Idle (view 1 s1))\<lparr>ps_dropped := True\<rparr>"
  have "pstep Debug True 2 (view 1 s1) ?p" by (rule pstep.push_full) (simp add: o1(2))
  then have "ring_step Debug True True 1 2 s1 (put_view 1 ?p (go 0 (inside 1 Idle) s1))"
    using full by (intro ring_step.act [OF o1(2)]) simp_all
  then have "ring_reach Debug True True 1 2 2 (put_view 1 ?p (go 0 (inside 1 Idle) s1))"
    using ring_reach_run [OF s1(1) s] by (blast intro: ring_reach.step)
  then show ?thesis using o1(4) by (intro exI conjI) (assumption | simp add: put_view_def)+
qed

theorem dropped_for_ever_witness:
  "\<exists>s. ring_reach Debug True True 1 2 2 s \<and> length (rp_log s 1) = 1 \<and> rp_dropped s 1
     \<and> \<not> is_available (rp_bufs s ! 1) \<and> \<not> rp_inflight s 1"
  using run_dropped dropped_for_ever [OF _ _ _ rtranclp.rtrancl_refl, of Debug True True 1 2 2 _ 1] by fastforce

text \<open>
  C36: The entry handed to the kernel carries every byte that was reserved. In every ring and
  for every interleaving in which no reset overtakes a deciding client, the entry
  recorded for a write in flight, which is also the one a failed write submits again, is a
  write of that buffer, tagged with its address, whose bytes start with all payloads granted
  since the last reset, in the order of their reservations; although the mark, the load of
  the word for the slice, the load of the address and the push are separate steps.
\<close>
theorem entry_carries_all_writes:
  assumes "ring_reach pf True fresh cap N K s" and "N < 2 ^ 24" and "i < K" and "rp_inflight s i"
  shows "\<exists>e len. fb_sqe (rp_bufs s ! i) = Some e \<and> sqe_opcode e = WriteOp (buf_ptr (fb_buf (rp_bufs s ! i))) len
    \<and> sqe_user_data e = fb_addr (rp_bufs s ! i)
    \<and> take (length (concat (rp_log s i))) (sqe_bytes e) = concat (rp_log s i)"
  using reachable_calm [OF ring_reach_projects [OF assms(1,3)] assms(2)] assms(4)
  by (auto simp: calm_inv_def carried_def carries_def)

theorem entry_carries_all_writes_witness:
  "\<exists>(s :: ring_protocol) e. rp_inflight s 0 \<and> length (rp_log s 0) = 1 \<and> fb_sqe (rp_bufs s ! 0) = Some e
     \<and> take (length (concat (rp_log s 0))) (sqe_bytes e) = concat (rp_log s 0)"
proof -
  obtain s where s: "ring_reach Debug True True 8 2 2 s"
    and o: "outline [(0x100000003, True, 1), (0, False, 0)] 1 2 (duo Away Away) s"
    by (rule ring_stands_two [OF run_in_flight [OF ring_start_two]])
  have "rp_inflight s 0" "length (rp_log s 0) = 1" using o by (auto simp: outline_def dest: spec [of _ 0])
  with entry_carries_all_writes [OF s _ _ this(1)] show ?thesis by auto
qed

end
