(* ===== verification/Uring_Kernel.thy ===== *)
theory Uring_Kernel
  imports Uring "HOL-Library.Multiset"
begin

text \<open>
  What a caller of \<open>io_uring\<close> may rely on, as documented by the crate and the kernel: a
  hypothesis of the theorems that need it, on the parameter \<open>U\<close>. A \<open>kernel_view\<close> names
  the parts of the instance's state the promises are about; \<open>demo_kernel\<close> keeps them.
\<close>

text \<open>
  \<^item> \<open>kv_waiting\<close>: the entries pushed whose completion has not been taken;
  \<^item> \<open>kv_ready\<close>: how many completions can be taken now;
  \<^item> \<open>kv_landed\<close>: the writes reported complete with all their bytes.
\<close>

record 'u kernel_view =
  kv_waiting :: "'u \<Rightarrow> sqe multiset"
  kv_ready :: "'u \<Rightarrow> nat"
  kv_landed :: "'u \<Rightarrow> sqe multiset"

section \<open>The promises\<close>

text \<open>
  A queue of \<open>cap\<close> entries has room while fewer are waiting, and an accepted entry waits
  for its completion.
\<close>

definition push_promise :: "nat \<Rightarrow> 'u uring_api \<Rightarrow> 'u kernel_view \<Rightarrow> bool" where
  "push_promise cap U K \<longleftrightarrow>
     (\<forall>e u. size (kv_waiting K u) < cap \<longrightarrow> sq_push U e u \<noteq> None)
     \<and> (\<forall>e u u'. sq_push U e u = Some u' \<longrightarrow>
          kv_waiting K u' = add_mset e (kv_waiting K u) \<and> kv_landed K u' = kv_landed K u)"

text \<open>
  The system calls take no completion and lose no entry; a successful \<open>submit_and_wait(n)\<close>
  returns with \<open>n\<close> completions ready, or all there can be.
\<close>

definition call_promise :: "'u uring_api \<Rightarrow> 'u kernel_view \<Rightarrow> bool" where
  "call_promise U K \<longleftrightarrow>
     (\<forall>u. let u' = snd (ring_submit U u) in
          kv_waiting K u' = kv_waiting K u \<and> kv_landed K u' = kv_landed K u)
     \<and> (\<forall>n u. let (r, u') = ring_submit_and_wait U n u in
          kv_waiting K u' = kv_waiting K u \<and> kv_landed K u' = kv_landed K u
          \<and> (case r of Inl _ \<Rightarrow> True | Inr _ \<Rightarrow> min n (size (kv_waiting K u)) \<le> kv_ready K u'))
     \<and> (\<forall>u. let u' = cq_sync U u in
          kv_waiting K u' = kv_waiting K u \<and> kv_landed K u' = kv_landed K u \<and> kv_ready K u \<le> kv_ready K u')"

text \<open>
  A completion taken is that of a waiting entry, named by its user data, once; the queue is
  reported empty only when nothing is ready. A write has landed when its result is its
  length.
\<close>

definition reap_promise :: "'u uring_api \<Rightarrow> 'u kernel_view \<Rightarrow> bool" where
  "reap_promise U K \<longleftrightarrow>
     (\<forall>u. case cq_next U u of
        (None, u') \<Rightarrow> kv_ready K u = 0 \<and> kv_waiting K u' = kv_waiting K u \<and> kv_landed K u' = kv_landed K u
      | (Some c, u') \<Rightarrow>
          (\<exists>e \<in># kv_waiting K u. sqe_user_data e = cqe_user_data c
             \<and> kv_waiting K u' = kv_waiting K u - {#e#} \<and> kv_ready K u \<le> Suc (kv_ready K u')
             \<and> kv_landed K u' = (if cqe_result c = int (length (sqe_bytes e))
                                 then add_mset e (kv_landed K u) else kv_landed K u)))"

definition kernel_ok :: "nat \<Rightarrow> 'u uring_api \<Rightarrow> 'u kernel_view \<Rightarrow> bool" where
  "kernel_ok cap U K \<longleftrightarrow> push_promise cap U K \<and> call_promise U K \<and> reap_promise U K"

text \<open>No write fails or is cut short: a completion taken leaves its entry landed.\<close>

definition kernel_reliable :: "'u uring_api \<Rightarrow> 'u kernel_view \<Rightarrow> bool" where
  "kernel_reliable U K \<longleftrightarrow>
     (\<forall>u. let u' = snd (cq_next U u) in
        kv_waiting K u' + kv_landed K u' = kv_waiting K u + kv_landed K u)"

text \<open>The waiting system call does not fail.\<close>

definition calls_ok :: "'u uring_api \<Rightarrow> bool" where
  "calls_ok U \<longleftrightarrow> (\<forall>n u. case fst (ring_submit_and_wait U n u) of Inl _ \<Rightarrow> False | Inr _ \<Rightarrow> True)"

lemma calls_failed: "ring_submit_and_wait U n u = (Inl e, u') \<Longrightarrow> \<not> calls_ok U"
  unfolding calls_ok_def by (metis (no_types, lifting) fst_conv sum.case(1))

text \<open>An instance nothing has been pushed to.\<close>

definition fresh :: "'u kernel_view \<Rightarrow> 'u \<Rightarrow> bool" where
  "fresh K u \<longleftrightarrow> kv_waiting K u = {#} \<and> kv_landed K u = {#}"

lemma kernel_push:
  assumes "kernel_ok cap U K" and "size (kv_waiting K u) < cap"
  obtains u' where "sq_push U e u = Some u'" and "kv_waiting K u' = add_mset e (kv_waiting K u)"
    and "kv_landed K u' = kv_landed K u"
  using assms unfolding kernel_ok_def push_promise_def by blast

lemma kernel_wait:
  assumes "kernel_ok cap U K" and "ring_submit_and_wait U n u = (r, u')"
  shows "kv_waiting K u' = kv_waiting K u" "kv_landed K u' = kv_landed K u"
    "r = Inr k \<Longrightarrow> min n (size (kv_waiting K u)) \<le> kv_ready K u'"
proof -
  have "let (r, u') = ring_submit_and_wait U n u in
      kv_waiting K u' = kv_waiting K u \<and> kv_landed K u' = kv_landed K u
      \<and> (case r of Inl _ \<Rightarrow> True | Inr _ \<Rightarrow> min n (size (kv_waiting K u)) \<le> kv_ready K u')"
    using assms(1) unfolding kernel_ok_def call_promise_def by blast
  then show "kv_waiting K u' = kv_waiting K u" "kv_landed K u' = kv_landed K u"
    "r = Inr k \<Longrightarrow> min n (size (kv_waiting K u)) \<le> kv_ready K u'"
    using assms(2) by (auto simp: Let_def split: sum.splits)
qed

lemma kernel_sync:
  assumes "kernel_ok cap U K"
  shows "kv_waiting K (cq_sync U u) = kv_waiting K u" "kv_landed K (cq_sync U u) = kv_landed K u"
    "kv_ready K u \<le> kv_ready K (cq_sync U u)"
  using assms unfolding kernel_ok_def call_promise_def Let_def by blast+

lemma kernel_none:
  assumes "kernel_ok cap U K" and "cq_next U u = (None, u')"
  shows "kv_ready K u = 0" "kv_waiting K u' = kv_waiting K u" "kv_landed K u' = kv_landed K u"
proof -
  have "case cq_next U u of
      (None, u') \<Rightarrow> kv_ready K u = 0 \<and> kv_waiting K u' = kv_waiting K u \<and> kv_landed K u' = kv_landed K u
    | (Some c, u') \<Rightarrow> True"
    using assms unfolding kernel_ok_def reap_promise_def by (auto split: option.splits prod.splits)
  then show "kv_ready K u = 0" "kv_waiting K u' = kv_waiting K u" "kv_landed K u' = kv_landed K u"
    using assms(2) by auto
qed

lemma kernel_some:
  assumes "kernel_ok cap U K" and "cq_next U u = (Some c, u')"
  obtains e where "e \<in># kv_waiting K u" and "sqe_user_data e = cqe_user_data c"
    and "kv_waiting K u' = kv_waiting K u - {#e#}" and "kv_ready K u \<le> Suc (kv_ready K u')"
proof -
  have "case cq_next U u of (None, u') \<Rightarrow> True
    | (Some c, u') \<Rightarrow> \<exists>e \<in># kv_waiting K u. sqe_user_data e = cqe_user_data c
        \<and> kv_waiting K u' = kv_waiting K u - {#e#} \<and> kv_ready K u \<le> Suc (kv_ready K u')"
    using assms unfolding kernel_ok_def reap_promise_def
    by (fastforce split: option.splits prod.splits)
  then show ?thesis using assms(2) that by auto
qed

lemma kernel_lands:
  "kernel_reliable U K \<Longrightarrow> cq_next U u = (r, u') \<Longrightarrow>
     kv_waiting K u' + kv_landed K u' = kv_waiting K u + kv_landed K u"
  by (auto simp: kernel_reliable_def Let_def dest: spec [of _ u])

section \<open>An instance that keeps the promises\<close>

text \<open>
  An executable kernel for the witnesses; no property depends on it. \<open>res\<close> is the result
  it reports for an entry; \<open>refuse\<close> makes the system calls fail. Entries complete when
  somebody waits.
\<close>

record demo_kernel =
  dk_sq :: "sqe list"
  dk_cq :: "sqe list"
  dk_landed :: "sqe list"

definition dk_init :: demo_kernel where
  "dk_init = \<lparr>dk_sq = [], dk_cq = [], dk_landed = []\<rparr>"

definition dk_api :: "nat \<Rightarrow> bool \<Rightarrow> (sqe \<Rightarrow> int) \<Rightarrow> demo_kernel uring_api" where
  "dk_api cap refuse res =
     \<lparr>sq_push = (\<lambda>e s. if length (dk_sq s) < cap then Some (s\<lparr>dk_sq := dk_sq s @ [e]\<rparr>) else None),
      ring_submit = (\<lambda>s. (if refuse then Inl (RawOs 16) else Inr (length (dk_sq s)), s)),
      ring_submit_and_wait = (\<lambda>n s.
        if refuse then (Inl (RawOs 16), s)
        else (Inr (length (dk_sq s)),
              s\<lparr>dk_cq := dk_cq s @ dk_sq s, dk_sq := []\<rparr>)),
      cq_sync = (\<lambda>s. s),
      cq_next = (\<lambda>s. case dk_cq s of
          [] \<Rightarrow> (None, s)
        | e # cs \<Rightarrow> (Some \<lparr>cqe_user_data = sqe_user_data e, cqe_result = res e\<rparr>,
            s\<lparr>dk_cq := cs, dk_landed := (if res e = int (length (sqe_bytes e)) then e # dk_landed s else dk_landed s)\<rparr>)),
      sq_len = (\<lambda>s. length (dk_sq s)),
      cq_len = (\<lambda>s. length (dk_cq s)),
      mem_at = (\<lambda>p n s. [])\<rparr>"

definition dk_view :: "demo_kernel kernel_view" where
  "dk_view =
     \<lparr>kv_waiting = (\<lambda>s. mset (dk_sq s) + mset (dk_cq s)),
      kv_ready = (\<lambda>s. length (dk_cq s)),
      kv_landed = (\<lambda>s. mset (dk_landed s))\<rparr>"

lemma dk_kernel_ok: "kernel_ok cap (dk_api cap refuse res) dk_view"
proof -
  have "push_promise cap (dk_api cap refuse res) dk_view"
    by (auto simp: push_promise_def dk_api_def dk_view_def)
  moreover have "call_promise (dk_api cap refuse res) dk_view"
    by (auto simp: call_promise_def dk_api_def dk_view_def Let_def comp_def)
  moreover have "reap_promise (dk_api cap refuse res) dk_view"
    by (auto simp: reap_promise_def dk_api_def dk_view_def split: list.splits)
  ultimately show ?thesis by (simp add: kernel_ok_def)
qed

lemma dk_kernel_reliable: "kernel_reliable (dk_api cap refuse (\<lambda>e. int (length (sqe_bytes e)))) dk_view"
  by (auto simp: kernel_reliable_def dk_api_def dk_view_def split: list.splits)

lemma dk_calls_ok: "calls_ok (dk_api cap False res)"
  by (simp add: calls_ok_def dk_api_def)

lemma dk_fresh: "fresh dk_view dk_init"
  by (simp add: fresh_def dk_view_def dk_init_def)

end
