(* ===== verification/Double_Flush.thy ===== *)
theory Double_Flush
  imports Ring_Properties Uring_Kernel
begin

text \<open>
  Two flushes of one buffer. \<open>flush\<close> sets the flush bit without looking at its previous
  value and submits, so the second of two calls submits the buffer again; the completion
  of the first write then makes the buffer available while the second is still in flight.
\<close>

section \<open>One flush that is accepted\<close>

text \<open>The entry a flush of buffer \<open>b\<close> submits depends on its slice, slot and address only.\<close>

lemma same_slice:
  "fb_buffer_data pf (b\<lparr>fb_state := fb_state b OR FLUSH_IN_PROGRESS_BIT, fb_sqe := x\<rparr>) = fb_buffer_data pf b"
  by (simp add: fb_buffer_data_eq Let_def)

lemma submittable_sqe [simp]: "submittable (b\<lparr>fb_sqe := x\<rparr>) = submittable b"
  by (simp add: submittable_def)

definition flushed :: "nat \<Rightarrow> sqe \<Rightarrow> 'u \<Rightarrow> 'u QuikIO \<Rightarrow> 'u BufferRing \<Rightarrow> 'u BufferRing" where
  "flushed i e u q r = (on_buffer i (\<lambda>b. b\<lparr>fb_state := fb_state b OR FLUSH_IN_PROGRESS_BIT, fb_sqe := Some e\<rparr>) r)
     \<lparr>br_store := Some (set_ring u q)\<rparr>"

lemma flushed_sel [simp]:
  "length (br_ring (flushed i e u q r)) = length (br_ring r)" "br_store (flushed i e u q r) = Some (set_ring u q)"
  "i < length (br_ring r) \<Longrightarrow> br_ring (flushed i e u q r) ! i
     = (br_ring r ! i)\<lparr>fb_state := fb_state (br_ring r ! i) OR FLUSH_IN_PROGRESS_BIT, fb_sqe := Some e\<rparr>"
  "map fb_addr (br_ring (flushed i e u q r)) = map fb_addr (br_ring r)"
  by (simp_all add: flushed_def map_on_buffer)

lemma flush_accepted:
  assumes K: "kernel_ok cap U K" and i: "i < length (br_ring r)" and q: "br_store r = Some q"
    and sub: "submittable (br_ring r ! i)" and room: "size (kv_waiting K (quik_ring q)) < cap"
  obtains data u e where "fb_buffer_data pf (br_ring r ! i) = Done (buf_ptr (fb_buf (br_ring r ! i)), data)"
    and "e = write_entry (buf_ptr (fb_buf (br_ring r ! i)), data) (fb_local_address (br_ring r ! i))
          (fb_addr (br_ring r ! i)) (get_backing_store q)"
    and "flush pf U i r = Done (flushed i e u q r)" and "kv_waiting K u = add_mset e (kv_waiting K (quik_ring q))"
proof -
  obtain data e where f: "fb_buffer_data pf (br_ring r ! i) = Done (buf_ptr (fb_buf (br_ring r ! i)), data)"
    "e = write_entry (buf_ptr (fb_buf (br_ring r ! i)), data) (fb_local_address (br_ring r ! i))
          (fb_addr (br_ring r ! i)) (get_backing_store q)"
    "flush pf U i r = Done (submitted U q i e (flag_flush i r))"
    by (rule flush_submits [OF i q sub])
  obtain v where v: "sq_push U e (quik_ring q) = Some v" "kv_waiting K v = add_mset e (kv_waiting K (quik_ring q))"
    by (rule kernel_push [OF K room])
  have "kv_waiting K (snd (ring_submit U v)) = kv_waiting K v"
    using K unfolding kernel_ok_def call_promise_def Let_def by blast
  moreover have "submitted U q i e (flag_flush i r) = flushed i e (snd (ring_submit U v)) q r"
    using i by (simp add: submitted_def v(1) flushed_def flag_flush_def)
  ultimately show thesis using that f v(2) by metis
qed

section \<open>Two flushes\<close>

text \<open>
  C38: Flushing a buffer twice hands it out while it is being written. The documentation of \<open>flush\<close> calls
  concurrent flushes from several threads safe. But for every buffer that can be submitted, with room in
  the queue, two calls submit two entries for the same memory, with the same address; and whichever
  completion of the two is handled first makes the buffer available to writers again, while the
  other entry is still with the kernel.
\<close>
theorem flush_twice_reuses_buffer:
  assumes "kernel_ok cap U K" and "distinct_places r" and "i < length (br_ring r)" and "br_store r = Some q"
    and "b = br_ring r ! i" and "submittable b" and "Suc (size (kv_waiting K (quik_ring q))) < cap"
    and "\<forall>e \<in># kv_waiting K (quik_ring q). sqe_user_data e \<noteq> fb_addr b"
  shows "\<exists>e len r2 q2. bind_outcome (flush pf U i r) (flush pf U i) = Done r2 \<and> br_store r2 = Some q2
    \<and> kv_waiting K (quik_ring q2) = kv_waiting K (quik_ring q) + {#e, e#}
    \<and> sqe_opcode e = WriteOp (buf_ptr (fb_buf b)) len \<and> sqe_user_data e = fb_addr b
    \<and> (\<forall>v c u. kv_waiting K v = kv_waiting K (quik_ring q2) \<and> cq_next U v = (Some c, u)
          \<and> cqe_user_data c = fb_addr b \<and> 0 \<le> cqe_result c \<longrightarrow>
        (\<exists>r3. handle_cqe U c (r2\<lparr>br_store := Some (set_ring u q2)\<rparr>) = Done r3
           \<and> is_available (br_ring r3 ! i) \<and> fb_buf (br_ring r3 ! i) = fb_buf b
           \<and> kv_waiting K u = add_mset e (kv_waiting K (quik_ring q))))"
proof -
  let ?W = "kv_waiting K (quik_ring q)"
  have sub: "submittable (br_ring r ! i)" and room: "size ?W < cap" using assms(5-7) by simp_all
  obtain data u1 e where one: "fb_buffer_data pf b = Done (buf_ptr (fb_buf b), data)"
    "e = write_entry (buf_ptr (fb_buf b), data) (fb_local_address b) (fb_addr b) (get_backing_store q)"
    "flush pf U i r = Done (flushed i e u1 q r)" "kv_waiting K u1 = add_mset e ?W"
    using flush_accepted [OF assms(1,3,4) sub room, of pf] unfolding assms(5) by metis
  let ?r1 = "flushed i e u1 q r"
  have i1: "i < length (br_ring ?r1)" and q1: "br_store ?r1 = Some (set_ring u1 q)" using assms(3) by simp_all
  have b1: "br_ring ?r1 ! i = b\<lparr>fb_state := fb_state b OR FLUSH_IN_PROGRESS_BIT, fb_sqe := Some e\<rparr>"
    using assms(3,5) by simp
  have sub1: "submittable (br_ring ?r1 ! i)" unfolding b1 using assms(6) by (simp add: submittable_def)
  have room1: "size (kv_waiting K (quik_ring (set_ring u1 q))) < cap" using one(4) assms(7) by simp
  obtain data2 u2 e2 where two: "fb_buffer_data pf (br_ring ?r1 ! i) = Done (buf_ptr (fb_buf (br_ring ?r1 ! i)), data2)"
    "e2 = write_entry (buf_ptr (fb_buf (br_ring ?r1 ! i)), data2) (fb_local_address (br_ring ?r1 ! i))
       (fb_addr (br_ring ?r1 ! i)) (get_backing_store (set_ring u1 q))"
    "flush pf U i ?r1 = Done (flushed i e2 u2 (set_ring u1 q) ?r1)"
    "kv_waiting K u2 = add_mset e2 (kv_waiting K (quik_ring (set_ring u1 q)))"
    by (rule flush_accepted [OF assms(1) i1 q1 sub1 room1, of pf])
  have "data2 = data" using two(1) one(1) unfolding b1 same_slice by simp
  then have e2: "e2 = e" using two(2) one(2) unfolding b1 by (simp add: write_entry_def set_ring_def)
  let ?r2 = "flushed i e u2 (set_ring u1 q) ?r1"
  have wait: "kv_waiting K u2 = ?W + {#e, e#}" using two(4) one(4) e2 by simp
  have ud: "sqe_user_data e = fb_addr b" by (simp add: one(2) write_entry_def)
  have handled: "\<exists>r3. handle_cqe U c (?r2\<lparr>br_store := Some (set_ring u q2)\<rparr>) = Done r3
      \<and> is_available (br_ring r3 ! i) \<and> fb_buf (br_ring r3 ! i) = fb_buf b \<and> kv_waiting K u = add_mset e ?W"
    if c: "kv_waiting K v = kv_waiting K u2" "cq_next U v = (Some c, u)" "cqe_user_data c = fb_addr b" "0 \<le> cqe_result c"
    for v c u q2
  proof -
    let ?r = "?r2\<lparr>br_store := Some (set_ring u q2)\<rparr>"
    have at: "i < length (br_ring ?r)" "cqe_user_data c = fb_addr (br_ring ?r ! i)" "distinct_places ?r"
      using assms(2,3,5) c(3) by (simp_all add: distinct_places_def)
    obtain e' where e': "e' \<in># kv_waiting K v" "sqe_user_data e' = cqe_user_data c" "kv_waiting K u = kv_waiting K v - {#e'#}"
      by (rule kernel_some [OF assms(1) c(2)])
    then have "e' = e" using assms(8) c(1,3) wait by auto
    then have "kv_waiting K u = add_mset e ?W" using e'(3) c(1) wait by simp
    moreover have "fb_buf (br_ring ?r ! i) = fb_buf b" using assms(3,5) by simp
    ultimately show ?thesis
      using handle_success [OF at(3,1,2) c(4), of U] at(1)
      by (simp add: reset_buffer_eq on_buffer_nth is_available_def)
  qed
  have op: "sqe_opcode e = WriteOp (buf_ptr (fb_buf b)) (word_of_nat (length data))" by (simp add: one(2) write_entry_def)
  have both: "bind_outcome (flush pf U i r) (flush pf U i) = Done ?r2" using one(3) two(3) e2 by (simp only: bind_outcome.simps)
  show ?thesis
    by (rule exI [of _ e], rule exI [of _ "word_of_nat (length data)"], rule exI [of _ ?r2],
        rule exI [of _ "set_ring u2 (set_ring u1 q)"]) (use both op ud wait handled in \<open>simp only: flushed_sel quik_ring_set, blast\<close>)
qed

text \<open>The demo kernel, whose completions of both writes are ready by the time somebody looks.\<close>

abbreviation dk_quik :: "demo_kernel QuikIO" where
  "dk_quik \<equiv> Searalized \<lparr>bs_store = 3, bs_flusher = dk_init, bs_mode = SerializedWrites\<rparr>"

theorem flush_twice_reuses_buffer_witness:
  "\<exists>e len r2 q2 v c u r3.
      bind_outcome (flush Debug (dk_api 8 False (\<lambda>_. 4096)) 0 (demo_ring [0x6400000001, 0] 4096 (Some dk_quik) True))
        (flush Debug (dk_api 8 False (\<lambda>_. 4096)) 0) = Done r2 \<and> br_store r2 = Some q2
    \<and> kv_waiting dk_view (quik_ring q2) = {#e, e#} \<and> sqe_opcode e = WriteOp 0x1000 len
    \<and> kv_waiting dk_view v = {#e, e#} \<and> cq_next (dk_api 8 False (\<lambda>_. 4096)) v = (Some c, u)
    \<and> handle_cqe (dk_api 8 False (\<lambda>_. 4096)) c (r2\<lparr>br_store := Some (set_ring u q2)\<rparr>) = Done r3
    \<and> is_available (br_ring r3 ! 0) \<and> kv_waiting dk_view u = {#e#}"
proof -
  let ?U = "dk_api 8 False (\<lambda>_. 4096)" and ?r = "demo_ring [0x6400000001, 0] 4096 (Some dk_quik) True"
  have K: "kernel_ok 8 ?U dk_view" by (rule dk_kernel_ok)
  have f: "0 < length (br_ring ?r)" "br_store ?r = Some dk_quik" by simp_all
  have "submittable (demo_buffer 0x6400000001 4096)" by (rule demo_submittable) (simp add: unat_state_offset)
  then have sub: "submittable (br_ring ?r ! 0)" by simp
  have w: "kv_waiting dk_view (quik_ring dk_quik) = {#}" by (simp add: quik_ring_def dk_view_def dk_init_def)
  have room: "Suc (size (kv_waiting dk_view (quik_ring dk_quik))) < 8"
    and none: "\<forall>e \<in># kv_waiting dk_view (quik_ring dk_quik). sqe_user_data e \<noteq> fb_addr (br_ring ?r ! 0)"
    unfolding w by simp_all
  obtain e len r2 q2 where two: "bind_outcome (flush Debug ?U 0 ?r) (flush Debug ?U 0) = Done r2" "br_store r2 = Some q2"
    "kv_waiting dk_view (quik_ring q2) = {#} + {#e, e#}"
    "sqe_opcode e = WriteOp (buf_ptr (fb_buf (br_ring ?r ! 0))) len" "sqe_user_data e = fb_addr (br_ring ?r ! 0)"
    and next_one: "\<forall>v c u. kv_waiting dk_view v = kv_waiting dk_view (quik_ring q2) \<and> cq_next ?U v = (Some c, u)
        \<and> cqe_user_data c = fb_addr (br_ring ?r ! 0) \<and> 0 \<le> cqe_result c \<longrightarrow>
      (\<exists>r3. handle_cqe ?U c (r2\<lparr>br_store := Some (set_ring u q2)\<rparr>) = Done r3
        \<and> is_available (br_ring r3 ! 0) \<and> fb_buf (br_ring r3 ! 0) = fb_buf (br_ring ?r ! 0)
        \<and> kv_waiting dk_view u = add_mset e {#})"
    using flush_twice_reuses_buffer [OF K demo_distinct f refl sub room none, of Debug]
    unfolding w by (elim exE conjE) (rule that; assumption)
  define v where "v = \<lparr>dk_sq = [], dk_cq = [e, e], dk_landed = []\<rparr>"
  obtain u where c: "cq_next ?U v = (Some \<lparr>cqe_user_data = sqe_user_data e, cqe_result = 4096\<rparr>, u)"
    by (simp add: v_def dk_api_def)
  have v: "kv_waiting dk_view v = {#e, e#}" by (simp add: v_def dk_view_def)
  obtain r3 where "handle_cqe ?U \<lparr>cqe_user_data = sqe_user_data e, cqe_result = 4096\<rparr> (r2\<lparr>br_store := Some (set_ring u q2)\<rparr>) = Done r3"
    "is_available (br_ring r3 ! 0)" "kv_waiting dk_view u = {#e#}"
    using next_one [rule_format, of v "\<lparr>cqe_user_data = sqe_user_data e, cqe_result = 4096\<rparr>" u] v c two(3,5) by auto
  moreover have "sqe_opcode e = WriteOp 0x1000 len" using two(4) by (simp add: demo_buffer_def)
  moreover have "kv_waiting dk_view (quik_ring q2) = {#e, e#}" using two(3) by simp
  ultimately show ?thesis using two(1,2) v c by blast
qed

end
