(* ===== verification/Ring_Writer.thy ===== *)
theory Ring_Writer
  imports Disk Uring
begin

text \<open>
  The stand-alone writer of \<^verbatim>\<open>src/examples/model.rs\<close>: \<open>RING_LEN\<close> slots of one
  megabyte that are filled one after the other, sealed, handed to the writer's own
  \<open>IoUring\<close> instance and reused once their write has completed. Every method is a function
  on the \<open>RingWriter\<close> record; a method with a waiting loop may not return (\<open>None\<close>).

  The shared counter \<open>file_offset\<close> is a field: each method claims from it at most once, so
  what other threads claim meanwhile is a change of the field before the method runs.
\<close>

definition BATCH_SIZE :: usize where
  "BATCH_SIZE = 1024 * 1024"

definition RING_LEN :: usize where
  "RING_LEN = 4"

section \<open>Buffers, slots, ranges\<close>

text \<open>
  This buffer is allocated without zeroing: \<open>stale\<close> is what the allocation holds.
\<close>

definition writer_buffer :: "(layout \<Rightarrow> u64) \<Rightarrow> (nat \<Rightarrow> u8) \<Rightarrow> usize \<Rightarrow> Buffer outcome" where
  "writer_buffer alloc stale capacity =
     (case layout_from_size_align capacity 4096 of
        None \<Rightarrow> Panic
      | Some layout \<Rightarrow>
          if fst layout = 0 then Undefined
          else let ptr = alloc layout in
            if ptr = 0 then Panic
            else Done \<lparr>buf_ptr = ptr, buf_mem = map stale [0..<unat capacity], buf_size = capacity\<rparr>)"

definition writer_buffer_write :: "usize \<Rightarrow> u8 list \<Rightarrow> Buffer \<Rightarrow> Buffer outcome" where
  "writer_buffer_write offset payload b = copy_into offset payload b"

definition writer_buffer_as_ptr :: "usize \<Rightarrow> Buffer \<Rightarrow> u64" where
  "writer_buffer_as_ptr offset b = buf_ptr b + offset"

definition writer_buffer_capacity :: "Buffer \<Rightarrow> usize" where
  "writer_buffer_capacity b = buf_size b"

definition writer_buffer_drop :: "Buffer \<Rightarrow> (u64 \<times> layout) outcome" where
  "writer_buffer_drop b =
     (let cap = buf_size b in
      case layout_from_size_align cap 4096 of
        None \<Rightarrow> Panic
      | Some layout \<Rightarrow> Done (buf_ptr b, layout))"

datatype SlotState = Open | InFlight

record Slot =
  slot_buf :: Buffer
  slot_state :: SlotState
  slot_disk_offset :: u64
  slot_sealed_len :: usize

definition slot_new :: "(layout \<Rightarrow> u64) \<Rightarrow> (nat \<Rightarrow> u8) \<Rightarrow> Slot outcome" where
  "slot_new alloc stale =
     bind_outcome (writer_buffer alloc stale BATCH_SIZE) (\<lambda>b.
       Done \<lparr>slot_buf = b, slot_state = Open, slot_disk_offset = 0, slot_sealed_len = 0\<rparr>)"

datatype CompletedRange = CompletedRange (rng_disk_offset: u64) (rng_sealed_len: usize)

section \<open>The writer\<close>

record 'u RingWriter =
  rw_slots :: "Slot list"
  rw_head :: usize
  rw_cursor :: usize
  rw_file_offset :: u64
  rw_ring :: 'u
  rw_pending :: usize
  rw_fd :: int
  rw_completed :: "CompletedRange list"

text \<open>Slot \<open>i\<close> of a new writer is allocated by \<open>alloc i\<close> over the bytes \<open>stale i\<close>.\<close>

fun slots_new :: "(nat \<Rightarrow> layout \<Rightarrow> u64) \<Rightarrow> (nat \<Rightarrow> nat \<Rightarrow> u8) \<Rightarrow> nat \<Rightarrow> nat \<Rightarrow> Slot list outcome" where
  "slots_new alloc stale i 0 = Done []"
| "slots_new alloc stale i (Suc n) =
     bind_outcome (slot_new (alloc i) (stale i)) (\<lambda>s.
     bind_outcome (slots_new alloc stale (Suc i) n) (\<lambda>ss. Done (s # ss)))"

definition RingWriter_new ::
  "(nat \<Rightarrow> layout \<Rightarrow> u64) \<Rightarrow> (nat \<Rightarrow> nat \<Rightarrow> u8) \<Rightarrow> (nat \<Rightarrow> io_error + 'u) \<Rightarrow> int \<Rightarrow> u64
     \<Rightarrow> (io_error + 'u RingWriter) outcome" where
  "RingWriter_new alloc stale new_uring fd file_offset =
     bind_outcome (slots_new alloc stale 0 (unat RING_LEN)) (\<lambda>slots.
       case new_uring 256 of
         Inl e \<Rightarrow> Done (Inl e)
       | Inr u \<Rightarrow> Done (Inr
           \<lparr>rw_slots = slots, rw_head = 0, rw_cursor = 0, rw_file_offset = file_offset,
            rw_ring = u, rw_pending = 0, rw_fd = fd, rw_completed = []\<rparr>))"

definition on_slot :: "nat \<Rightarrow> (Slot \<Rightarrow> Slot) \<Rightarrow> 'u RingWriter \<Rightarrow> 'u RingWriter" where
  "on_slot i f w = w\<lparr>rw_slots := (rw_slots w)[i := f (rw_slots w ! i)]\<rparr>"

text \<open>\<open>fetch_add\<close> on the cursor, which wraps.\<close>

definition claim_cursor :: "usize \<Rightarrow> 'u RingWriter \<Rightarrow> usize \<times> 'u RingWriter" where
  "claim_cursor len w = (rw_cursor w, w\<lparr>rw_cursor := rw_cursor w + len\<rparr>)"

section \<open>Sealing and submitting\<close>

text \<open>The entry for the first \<open>valid_len\<close> bytes of a slot, with the user data that names it.\<close>

definition slot_entry :: "int \<Rightarrow> usize \<Rightarrow> usize \<Rightarrow> u64 \<Rightarrow> Slot \<Rightarrow> sqe" where
  "slot_entry fd idx valid_len disk_off s =
     (let len = (ucast valid_len :: u32) in
      \<lparr>sqe_opcode = WriteOp (writer_buffer_as_ptr 0 (slot_buf s)) len, sqe_fd = fd,
       sqe_offset = disk_off, sqe_io_link = False, sqe_io_drain = False,
       sqe_user_data = push_bit 32 idx OR valid_len,
       sqe_bytes = take (unat len) (buf_mem (slot_buf s))\<rparr>)"

text \<open>
  The unsafe \<open>push\<close> requires the memory the entry names to be valid: an entry that reaches
  beyond the allocation is \<open>Undefined\<close>. A full submission queue is submitted once, and a
  second refusal panics.
\<close>

definition submit_slot ::
  "profile \<Rightarrow> 'u uring_api \<Rightarrow> usize \<Rightarrow> usize \<Rightarrow> 'u RingWriter \<Rightarrow> ((io_error + unit) \<times> 'u RingWriter) outcome" where
  "submit_slot pf U idx valid_len w =
     (let disk_off = rw_file_offset w; i = unat idx;
          w1 = w\<lparr>rw_file_offset := disk_off + valid_len\<rparr>
      in if length (rw_slots w1) \<le> i then Panic
      else let
          w2 = on_slot i (\<lambda>s. s\<lparr>slot_disk_offset := disk_off, slot_sealed_len := valid_len,
                 slot_state := InFlight\<rparr>) w1;
          slot = rw_slots w2 ! i;
          write_e = slot_entry (rw_fd w2) idx valid_len disk_off slot
      in if length (buf_mem (slot_buf slot)) < unat (ucast valid_len :: u32) then Undefined
      else case sq_push U write_e (rw_ring w2) of
          Some u \<Rightarrow>
            bind_outcome (add_usize pf (rw_pending w2) 1) (\<lambda>p.
              Done (Inr (), w2\<lparr>rw_ring := u, rw_pending := p\<rparr>))
        | None \<Rightarrow>
            (case ring_submit U (rw_ring w2) of
               (Inl e, u) \<Rightarrow> Done (Inl e, w2\<lparr>rw_ring := u\<rparr>)
             | (Inr _, u) \<Rightarrow>
                 (case sq_push U write_e u of
                    None \<Rightarrow> Panic
                  | Some u' \<Rightarrow>
                      bind_outcome (add_usize pf (rw_pending w2) 1) (\<lambda>p.
                        Done (Inr (), w2\<lparr>rw_ring := u', rw_pending := p\<rparr>)))))"

text \<open>\<open>pending -= 1\<close>: subtraction from zero panics in debug builds and wraps in release.\<close>

definition sub_usize :: "profile \<Rightarrow> usize \<Rightarrow> usize \<Rightarrow> usize outcome" where
  "sub_usize pf a b =
     (if unat b \<le> unat a then Done (a - b)
      else case pf of Debug \<Rightarrow> Panic | Release \<Rightarrow> Done (a - b))"

text \<open>
  One completion: its range is recorded and its slot freed. The result of the write is not
  looked at.
\<close>

definition reap_one :: "profile \<Rightarrow> cqe \<Rightarrow> 'u RingWriter \<Rightarrow> 'u RingWriter outcome" where
  "reap_one pf c w =
     (let ud = cqe_user_data c; idx = drop_bit 32 ud; len = ud AND 0xFFFFFFFF; i = unat idx in
      if length (rw_slots w) \<le> i then Panic
      else let
        w1 = w\<lparr>rw_completed := rw_completed w @ [CompletedRange (slot_disk_offset (rw_slots w ! i)) len]\<rparr>;
        w2 = on_slot i (\<lambda>s. s\<lparr>slot_state := Open, slot_sealed_len := 0\<rparr>) w1
      in bind_outcome (sub_usize pf (rw_pending w2) 1) (\<lambda>p. Done (w2\<lparr>rw_pending := p\<rparr>)))"

text \<open>Each round of the loop acquires \<open>completion()\<close> anew, which synchronises.\<close>

partial_function (option) reap_all ::
  "profile \<Rightarrow> 'u uring_api \<Rightarrow> 'u RingWriter \<Rightarrow> 'u RingWriter outcome option" where
  "reap_all pf U w =
     (case cq_next U (cq_sync U (rw_ring w)) of
        (None, u) \<Rightarrow> Some (Done (w\<lparr>rw_ring := u\<rparr>))
      | (Some c, u) \<Rightarrow> bind_run (Some (reap_one pf c (w\<lparr>rw_ring := u\<rparr>))) (reap_all pf U))"

text \<open>The loop that waits while slot \<open>next\<close> is in flight.\<close>

partial_function (option) await_slot ::
  "profile \<Rightarrow> 'u uring_api \<Rightarrow> usize \<Rightarrow> 'u RingWriter \<Rightarrow> ((io_error + unit) \<times> 'u RingWriter) outcome option" where
  "await_slot pf U next w =
     (if length (rw_slots w) \<le> unat next then Some Panic
      else if slot_state (rw_slots w ! unat next) = InFlight
      then case ring_submit_and_wait U 1 (rw_ring w) of
             (Inl e, u) \<Rightarrow> Some (Done (Inl e, w\<lparr>rw_ring := u\<rparr>))
           | (Inr _, u) \<Rightarrow> bind_run (reap_all pf U (w\<lparr>rw_ring := u\<rparr>)) (await_slot pf U next)
      else Some (Done (Inr (), w)))"

definition seal_and_advance ::
  "profile \<Rightarrow> 'u uring_api \<Rightarrow> usize \<Rightarrow> 'u RingWriter \<Rightarrow> ((io_error + unit) \<times> 'u RingWriter) outcome option" where
  "seal_and_advance pf U valid_len w =
     try_run (Some (if 0 < valid_len then submit_slot pf U (rw_head w) valid_len w else Done (Inr (), w)))
       (\<lambda>_ w1. bind_run (Some (add_usize pf (rw_head w1) 1)) (\<lambda>h.
          let next = h mod RING_LEN in
          try_run (await_slot pf U next w1) (\<lambda>_ w2.
            Some (Done (Inr (), w2\<lparr>rw_head := next, rw_cursor := 0\<rparr>)))))"

section \<open>The public operations\<close>

text \<open>The copy of a payload into the head slot.\<close>

definition write_head :: "usize \<Rightarrow> u8 list \<Rightarrow> 'u RingWriter \<Rightarrow> 'u RingWriter outcome" where
  "write_head offset payload w =
     (let i = unat (rw_head w) in
      if length (rw_slots w) \<le> i then Panic
      else bind_outcome (writer_buffer_write offset payload (slot_buf (rw_slots w ! i))) (\<lambda>b.
        Done (on_slot i (\<lambda>s. s\<lparr>slot_buf := b\<rparr>) w)))"

definition writer_append ::
  "profile \<Rightarrow> 'u uring_api \<Rightarrow> u8 list \<Rightarrow> 'u RingWriter \<Rightarrow> ((io_error + unit) \<times> 'u RingWriter) outcome option" where
  "writer_append pf U payload w =
     (let len = word_of_nat (length payload); (offset, w1) = claim_cursor len w in
      bind_run (Some (add_usize pf offset len)) (\<lambda>reach.
        if reach > BATCH_SIZE
        then try_run (seal_and_advance pf U offset w1) (\<lambda>_ w2.
               let (new_offset, w3) = claim_cursor len w2 in
               bind_run (Some (write_head new_offset payload w3)) (\<lambda>w4. Some (Done (Inr (), w4))))
        else bind_run (Some (write_head offset payload w1)) (\<lambda>w2. Some (Done (Inr (), w2)))))"

definition writer_flush ::
  "profile \<Rightarrow> 'u uring_api \<Rightarrow> 'u RingWriter \<Rightarrow> ((io_error + unit) \<times> 'u RingWriter) outcome option" where
  "writer_flush pf U w =
     (let filled = rw_cursor w in
      if 0 < filled
      then try_run (seal_and_advance pf U filled w) (\<lambda>_ w1. Some (Done (Inr (), w1)))
      else Some (Done (Inr (), w)))"

definition writer_finish ::
  "profile \<Rightarrow> 'u uring_api \<Rightarrow> 'u RingWriter
     \<Rightarrow> ((io_error + CompletedRange list) \<times> 'u RingWriter) outcome option" where
  "writer_finish pf U w =
     (let remaining = rw_cursor w in
      try_run (if 0 < remaining then seal_and_advance pf U remaining w else Some (Done (Inr (), w)))
        (\<lambda>_ w1.
           try_run
             (if 0 < rw_pending w1
              then case ring_submit_and_wait U (unat (rw_pending w1)) (rw_ring w1) of
                     (Inl e, u) \<Rightarrow> Some (Done (Inl e, w1\<lparr>rw_ring := u\<rparr>))
                   | (Inr _, u) \<Rightarrow>
                       bind_run (reap_all pf U (w1\<lparr>rw_ring := u\<rparr>)) (\<lambda>w2. Some (Done (Inr (), w2)))
              else Some (Done (Inr (), w1)))
             (\<lambda>_ w2. Some (Done (Inr (rw_completed w2), w2\<lparr>rw_completed := []\<rparr>)))))"

end
