(* ===== verification/Writer_Invariant.thy ===== *)
theory Writer_Invariant
  imports Ring_Writer Uring_Kernel
begin

text \<open>
  One writer of theory \<open>Ring_Writer\<close> against the promises of theory \<open>Uring_Kernel\<close>: the
  invariant \<open>writer_ok\<close>, which ties the slots in flight, the entries the kernel still owes
  a completion for, and \<open>pending\<close> to each other, and for every operation a lemma
  \<open>..._returns\<close> that it returns, keeps the invariant, and accounts for every entry.
\<close>

section \<open>Entries and the slots behind them\<close>

definition entry_slot :: "sqe \<Rightarrow> nat" where
  "entry_slot e = unat (drop_bit 32 (sqe_user_data e))"

definition entry_len :: "sqe \<Rightarrow> usize" where
  "entry_len e = sqe_user_data e AND 0xFFFFFFFF"

definition entry_range :: "sqe \<Rightarrow> CompletedRange" where
  "entry_range e = CompletedRange (sqe_offset e) (entry_len e)"

definition entry_chunk :: "sqe \<Rightarrow> nat \<times> u8 list" where
  "entry_chunk e = (unat (sqe_offset e), sqe_bytes e)"

definition chunk_range :: "nat \<times> u8 list \<Rightarrow> CompletedRange" where
  "chunk_range c = CompletedRange (word_of_nat (fst c)) (word_of_nat (length (snd c)))"

lemma mask32: "(0xFFFFFFFF :: usize) = mask 32"
  by (simp add: mask_eq_exp_minus_1)

lemma high_bits_clear: "unat (x :: usize) < 2 ^ 32 \<Longrightarrow> bit x n \<Longrightarrow> n < 32"
proof -
  assume "unat x < 2 ^ 32" and b: "bit x n"
  then have "take_bit 32 x = x"
    by (simp add: word_unat_eq_iff unsigned_take_bit_eq take_bit_nat_eq_self)
  then show "n < 32" using b by (metis bit_take_bit_iff)
qed

lemma user_data_fields:
  assumes "unat (len :: usize) < 2 ^ 32" and "unat (idx :: usize) < 2 ^ 32"
  shows "drop_bit 32 (push_bit 32 idx OR len) = idx" "(push_bit 32 idx OR len) AND 0xFFFFFFFF = len"
proof -
  show "drop_bit 32 (push_bit 32 idx OR len) = idx"
    by (rule bit_word_eqI) (auto simp: bit_simps dest: high_bits_clear [OF assms(1)] high_bits_clear [OF assms(2)])
  show "(push_bit 32 idx OR len) AND 0xFFFFFFFF = len"
    unfolding mask32 by (rule bit_word_eqI) (auto simp: bit_simps dest: high_bits_clear [OF assms(1)])
qed

text \<open>What an entry built for a slot says, for an index and a length that fit 32 bits.\<close>

lemma slot_entry_sel:
  assumes "unat len \<le> 1048576" and "unat idx < 4"
  shows "entry_slot (slot_entry fd idx len off s) = unat idx"
    and "entry_len (slot_entry fd idx len off s) = len"
    and "sqe_offset (slot_entry fd idx len off s) = off"
    and "sqe_bytes (slot_entry fd idx len off s) = take (unat len) (buf_mem (slot_buf s))"
    and "sqe_opcode (slot_entry fd idx len off s) = WriteOp (buf_ptr (slot_buf s)) (ucast len)"
proof -
  have u: "unat (ucast len :: u32) = unat len"
    using assms(1) by (simp add: unsigned_ucast_eq take_bit_nat_eq_self)
  have b: "unat len < 2 ^ 32" "unat idx < 2 ^ 32" using assms by simp_all
  show "entry_slot (slot_entry fd idx len off s) = unat idx"
    unfolding slot_entry_def entry_slot_def Let_def sqe.simps user_data_fields(1) [OF b] ..
  show "entry_len (slot_entry fd idx len off s) = len"
    "sqe_offset (slot_entry fd idx len off s) = off"
    "sqe_bytes (slot_entry fd idx len off s) = take (unat len) (buf_mem (slot_buf s))"
    "sqe_opcode (slot_entry fd idx len off s) = WriteOp (buf_ptr (slot_buf s)) (ucast len)"
    by (simp_all add: writer_buffer_as_ptr_def slot_entry_def entry_len_def Let_def user_data_fields [OF b] u)
qed

section \<open>The invariants\<close>

text \<open>
  The slot an entry in flight names still holds what the entry was built from: the disk
  offset, the length, and the bytes at the address it was given.
\<close>

definition backed :: "Slot list \<Rightarrow> sqe \<Rightarrow> bool" where
  "backed slots e \<longleftrightarrow>
     (let s = slots ! entry_slot e in
      slot_disk_offset s = sqe_offset e \<and> unat (entry_len e) \<le> 1048576
      \<and> sqe_opcode e = WriteOp (buf_ptr (slot_buf s)) (ucast (entry_len e))
      \<and> sqe_bytes e = take (unat (entry_len e)) (buf_mem (slot_buf s)))"

text \<open>The slots in flight are named by exactly one waiting entry each, and back it.\<close>

definition in_flight :: "Slot list \<Rightarrow> sqe multiset \<Rightarrow> bool" where
  "in_flight slots W \<longleftrightarrow>
     (\<forall>i. count (image_mset entry_slot W) i = of_bool (i < length slots \<and> slot_state (slots ! i) = InFlight))
     \<and> (\<forall>e \<in># W. backed slots e)"

definition writer_flight :: "'u kernel_view \<Rightarrow> 'u RingWriter \<Rightarrow> bool" where
  "writer_flight K w \<longleftrightarrow>
     in_flight (rw_slots w) (kv_waiting K (rw_ring w))
     \<and> unat (rw_pending w) = size (kv_waiting K (rw_ring w))
     \<and> length (rw_slots w) = 4
     \<and> (\<forall>s \<in> set (rw_slots w). length (buf_mem (slot_buf s)) = 1048576)"

definition writer_ok :: "'u kernel_view \<Rightarrow> 'u RingWriter \<Rightarrow> bool" where
  "writer_ok K w \<longleftrightarrow>
     writer_flight K w \<and> unat (rw_head w) < 4 \<and> slot_state (rw_slots w ! unat (rw_head w)) = Open
     \<and> unat (rw_cursor w) \<le> 1048576"

text \<open>
  Bookkeeping between two states: every range is completed or waiting, and with a reliable
  kernel every entry is waiting or landed; \<open>N\<close> are the entries pushed in between.
\<close>

definition conserve ::
  "'u uring_api \<Rightarrow> 'u kernel_view \<Rightarrow> sqe multiset \<Rightarrow> 'u RingWriter \<Rightarrow> 'u RingWriter \<Rightarrow> bool" where
  "conserve U K N w w' \<longleftrightarrow>
     mset (rw_completed w') + image_mset entry_range (kv_waiting K (rw_ring w'))
       = mset (rw_completed w) + image_mset entry_range (kv_waiting K (rw_ring w) + N)
     \<and> (kernel_reliable U K \<longrightarrow>
         kv_waiting K (rw_ring w') + kv_landed K (rw_ring w')
           = kv_waiting K (rw_ring w) + kv_landed K (rw_ring w) + N)"

text \<open>Reaping changes no buffer, and only frees slots.\<close>

definition reap_frame :: "'u RingWriter \<Rightarrow> 'u RingWriter \<Rightarrow> bool" where
  "reap_frame w w' \<longleftrightarrow>
     rw_head w' = rw_head w \<and> rw_cursor w' = rw_cursor w \<and> rw_file_offset w' = rw_file_offset w
     \<and> rw_fd w' = rw_fd w \<and> map slot_buf (rw_slots w') = map slot_buf (rw_slots w)
     \<and> (\<forall>i < length (rw_slots w). slot_state (rw_slots w ! i) = Open \<longrightarrow> slot_state (rw_slots w' ! i) = Open)"

lemma reap_frame_refl [simp]: "reap_frame w (w\<lparr>rw_ring := u\<rparr>)"
  by (simp add: reap_frame_def)

lemma reap_frame_length: "reap_frame w w' \<Longrightarrow> length (rw_slots w') = length (rw_slots w)"
  unfolding reap_frame_def by (metis length_map)

lemma reap_frame_buf:
  "reap_frame w w' \<Longrightarrow> i < length (rw_slots w) \<Longrightarrow> slot_buf (rw_slots w' ! i) = slot_buf (rw_slots w ! i)"
  using reap_frame_length [of w w'] unfolding reap_frame_def by (metis nth_map)

lemma reap_frame_trans: "reap_frame w w' \<Longrightarrow> reap_frame w' w'' \<Longrightarrow> reap_frame w w''"
  using reap_frame_length [of w w'] by (simp add: reap_frame_def)

lemma conserve_trans:
  "conserve U K M w w' \<Longrightarrow> conserve U K N w' w'' \<Longrightarrow> conserve U K (M + N) w w''"
  by (auto simp: conserve_def)

lemma conserve_none:
  "conserve U K {#} w w' \<Longrightarrow> conserve U K N w' w'' \<Longrightarrow> conserve U K N w w''"
  "conserve U K N w w' \<Longrightarrow> conserve U K {#} w' w'' \<Longrightarrow> conserve U K N w w''"
  using conserve_trans [of U K "{#}" w w' N] conserve_trans [of U K N w w' "{#}"] by simp_all

lemma in_flight_size:
  assumes "in_flight slots W"
  shows "size W \<le> length slots"
proof -
  let ?P = "\<lambda>i. slot_state (slots ! i) = InFlight"
  have "image_mset entry_slot W = mset (filter ?P [0..<length slots])"
    by (rule multiset_eqI) (use assms in \<open>auto simp: in_flight_def distinct_count_atmost_1\<close>)
  then have "size W = length (filter ?P [0..<length slots])" by (metis size_image_mset size_mset)
  then show ?thesis using length_filter_le [of ?P "[0..<length slots]"] by simp
qed

section \<open>Reaping\<close>

lemma in_flight_slot:
  assumes "in_flight slots W" and "e \<in># W"
  shows "entry_slot e < length slots" "slot_state (slots ! entry_slot e) = InFlight" "backed slots e"
proof -
  have "entry_slot e \<in># image_mset entry_slot W" using assms(2) by simp
  then have "0 < count (image_mset entry_slot W) (entry_slot e)" by (simp only: count_greater_zero_iff)
  then show "entry_slot e < length slots" "slot_state (slots ! entry_slot e) = InFlight"
    using assms(1) by (auto simp: in_flight_def of_bool_def split: if_splits)
  show "backed slots e" using assms by (simp add: in_flight_def)
qed

text \<open>A slot not named by any waiting entry may change, the others may free their state.\<close>

lemma in_flight_free:
  assumes "in_flight slots W" and "e \<in># W"
  shows "in_flight (slots[entry_slot e := (slots ! entry_slot e)\<lparr>slot_state := Open, slot_sealed_len := 0\<rparr>]) (W - {#e#})"
proof -
  let ?s = "slots[entry_slot e := (slots ! entry_slot e)\<lparr>slot_state := Open, slot_sealed_len := 0\<rparr>]"
  have i: "entry_slot e < length slots" "slot_state (slots ! entry_slot e) = InFlight"
    using in_flight_slot [OF assms] by blast+
  have "image_mset entry_slot (W - {#e#}) = image_mset entry_slot W - {#entry_slot e#}"
    using assms(2) by (simp add: image_mset_Diff)
  then have "count (image_mset entry_slot (W - {#e#})) j
      = of_bool (j < length ?s \<and> slot_state (?s ! j) = InFlight)" for j
    using assms(1) i by (cases "j = entry_slot e") (simp_all add: in_flight_def)
  moreover have "backed ?s d" if "d \<in># W - {#e#}" for d
  proof -
    have "backed slots d" using assms(1) that by (auto simp: in_flight_def dest: in_diffD)
    then show ?thesis
      by (cases "entry_slot d = entry_slot e") (use i in \<open>auto simp: backed_def Let_def\<close>)
  qed
  ultimately show ?thesis by (simp add: in_flight_def)
qed

lemma reap_one_flight:
  assumes "writer_flight K w" and "e \<in># kv_waiting K (rw_ring w)"
    and "sqe_user_data e = cqe_user_data c" and "kv_waiting K u = kv_waiting K (rw_ring w) - {#e#}"
  obtains w' where "reap_one pf c (w\<lparr>rw_ring := u\<rparr>) = Done w'" and "writer_flight K w'"
    and "rw_ring w' = u" and "reap_frame w w'"
    and "rw_completed w' = rw_completed w @ [entry_range e]"
proof -
  let ?i = "entry_slot e" and ?W = "kv_waiting K (rw_ring w)"
  let ?slots = "(rw_slots w)[?i := (rw_slots w ! ?i)\<lparr>slot_state := Open, slot_sealed_len := 0\<rparr>]"
  let ?w' = "w\<lparr>rw_ring := u, rw_slots := ?slots, rw_completed := rw_completed w @ [entry_range e],
      rw_pending := rw_pending w - 1\<rparr>"
  have fl: "in_flight (rw_slots w) ?W" and p: "unat (rw_pending w) = size ?W"
    and len: "length (rw_slots w) = 4" "\<forall>s \<in> set (rw_slots w). length (buf_mem (slot_buf s)) = 1048576"
    using assms(1) by (auto simp: writer_flight_def)
  note s = in_flight_slot [OF fl assms(2)]
  have i: "unat (drop_bit 32 (cqe_user_data c)) = ?i" by (simp add: entry_slot_def assms(3))
  have off: "CompletedRange (slot_disk_offset (rw_slots w ! ?i)) (cqe_user_data c AND 0xFFFFFFFF) = entry_range e"
    using s(3) assms(3) by (simp add: backed_def Let_def entry_range_def entry_len_def)
  have sz: "size ?W = Suc (size (?W - {#e#}))" using assms(2) by (metis insert_DiffM size_add_mset)
  then have one: "unat (1 :: usize) \<le> unat (rw_pending w)" by (simp add: p)
  have run: "reap_one pf c (w\<lparr>rw_ring := u\<rparr>) = Done ?w'"
    using s(1) one by (simp add: reap_one_def Let_def i off on_slot_def sub_usize_def)
  have "writer_flight K ?w'"
    unfolding writer_flight_def
  proof (intro conjI)
    show "in_flight (rw_slots ?w') (kv_waiting K (rw_ring ?w'))"
      using in_flight_free [OF fl assms(2)] by (simp add: assms(4))
    show "unat (rw_pending ?w') = size (kv_waiting K (rw_ring ?w'))"
      using p sz one by (simp add: assms(4) unat_sub word_le_nat_alt)
  qed (use len s(1) in \<open>auto dest!: set_update_subset_insert [THEN subsetD]\<close>)
  moreover have "reap_frame w ?w'"
    using s by (simp add: reap_frame_def map_update nth_list_update)
       (metis list_update_id map_update nth_map)
  ultimately show ?thesis by (intro that [OF run]) simp_all
qed

text \<open>
  The loop returns on every state whose flight is accounted for: each round takes one
  waiting entry.
\<close>

lemma reap_all_returns:
  assumes K: "kernel_ok cap U K" and "writer_flight K w"
  shows "returns (reap_all pf U w) (\<lambda>w'. writer_flight K w' \<and> conserve U K {#} w w' \<and> reap_frame w w'
    \<and> size (kv_waiting K (rw_ring w')) \<le> size (kv_waiting K (rw_ring w)) - kv_ready K (rw_ring w))"
  using assms(2)
proof (induction "size (kv_waiting K (rw_ring w))" arbitrary: w rule: less_induct)
  case less
  let ?u0 = "cq_sync U (rw_ring w)"
  note sync = kernel_sync [OF K, of "rw_ring w"]
  obtain r u where next': "cq_next U ?u0 = (r, u)" by fastforce
  show ?case
  proof (cases r)
    case None
    note n = kernel_none [OF K next' [unfolded None]]
    have "writer_flight K (w\<lparr>rw_ring := u\<rparr>)"
      using less.prems by (simp add: writer_flight_def n sync)
    moreover have "conserve U K {#} w (w\<lparr>rw_ring := u\<rparr>)"
      by (simp add: conserve_def n sync)
    moreover have "kv_ready K (rw_ring w) = 0" using n(1) sync(3) by simp
    ultimately show ?thesis using next' None
      by (subst reap_all.simps) (simp add: n sync)
  next
    case (Some c)
    obtain e where e: "e \<in># kv_waiting K ?u0" "sqe_user_data e = cqe_user_data c"
      "kv_waiting K u = kv_waiting K ?u0 - {#e#}" "kv_ready K ?u0 \<le> Suc (kv_ready K u)"
      using kernel_some [OF K next' [unfolded Some]] .
    obtain w1 where w1: "reap_one pf c (w\<lparr>rw_ring := u\<rparr>) = Done w1" "writer_flight K w1" "rw_ring w1 = u"
      "reap_frame w w1" "rw_completed w1 = rw_completed w @ [entry_range e]"
      by (rule reap_one_flight [OF less.prems _ e(2), where pf = pf and u = u])
        (use e sync in auto)
    have sz: "size (kv_waiting K (rw_ring w)) = Suc (size (kv_waiting K u))"
      using e(1,3) sync(1) by (metis insert_DiffM size_add_mset)
    have W: "kv_waiting K (rw_ring w) = add_mset e (kv_waiting K u)"
      using e(1,3) sync(1) by simp
    have c1: "conserve U K {#} w w1"
      using kernel_lands [OF _ next'] sync by (simp add: conserve_def w1 W)
    have "returns (reap_all pf U w1) (\<lambda>w'. writer_flight K w' \<and> conserve U K {#} w1 w' \<and> reap_frame w1 w'
      \<and> size (kv_waiting K (rw_ring w')) \<le> size (kv_waiting K (rw_ring w1)) - kv_ready K (rw_ring w1))"
      by (rule less.hyps [OF _ w1(2)]) (simp add: w1(3) sz)
    then have "returns (reap_all pf U w1) (\<lambda>w'. writer_flight K w' \<and> conserve U K {#} w w' \<and> reap_frame w w'
      \<and> size (kv_waiting K (rw_ring w')) \<le> size (kv_waiting K (rw_ring w)) - kv_ready K (rw_ring w))"
      by (rule returns_mono)
        (use conserve_none(1) [OF c1] reap_frame_trans [OF w1(4)] w1(3) sz sync(3) e(4) in auto)
    then show ?thesis using next' Some w1(1) by (subst reap_all.simps) simp
  qed
qed

section \<open>Waiting for a slot\<close>

text \<open>A slot in flight has an entry whose completion is outstanding.\<close>

lemma in_flight_waiting:
  assumes "writer_flight K w" and "unat next < 4" and "slot_state (rw_slots w ! unat next) = InFlight"
  shows "0 < size (kv_waiting K (rw_ring w))"
proof -
  have "count (image_mset entry_slot (kv_waiting K (rw_ring w))) (unat next) = 1"
    using assms by (simp add: writer_flight_def in_flight_def)
  then have "0 < size (image_mset entry_slot (kv_waiting K (rw_ring w)))"
    by (metis count_empty nonempty_has_size zero_neq_one)
  then show ?thesis by simp
qed

text \<open>Reaping after a successful wait takes at least one completion.\<close>

lemma reap_after_wait:
  assumes K: "kernel_ok cap U K" and "writer_flight K w" and "0 < size (kv_waiting K (rw_ring w))"
    and wait: "ring_submit_and_wait U 1 (rw_ring w) = (Inr k, u)"
  shows "returns (reap_all pf U (w\<lparr>rw_ring := u\<rparr>)) (\<lambda>w'. writer_flight K w' \<and> conserve U K {#} w w'
    \<and> reap_frame w w' \<and> size (kv_waiting K (rw_ring w')) < size (kv_waiting K (rw_ring w)))"
proof -
  note kw = kernel_wait [OF K wait]
  let ?w = "w\<lparr>rw_ring := u\<rparr>"
  have fl: "writer_flight K ?w" using assms(2) by (simp add: writer_flight_def kw)
  have c0: "conserve U K {#} w ?w" by (simp add: conserve_def kw)
  have "0 < kv_ready K u" using kw(3) [OF refl] assms(3) by simp
  then show ?thesis
    by (intro returns_mono [OF reap_all_returns [OF K fl]])
      (use assms(3) conserve_none(1) [OF c0] reap_frame_trans [OF reap_frame_refl] kw(1) in auto)
qed

lemma await_slot_returns:
  assumes K: "kernel_ok cap U K" and "writer_flight K w" and nx: "unat next < 4"
  shows "returns (await_slot pf U next w) (\<lambda>(r, w'). writer_flight K w' \<and> conserve U K {#} w w'
    \<and> reap_frame w w' \<and> (case r of Inl _ \<Rightarrow> \<not> calls_ok U | Inr _ \<Rightarrow> slot_state (rw_slots w' ! unat next) = Open))"
  using assms(2)
proof (induction "size (kv_waiting K (rw_ring w))" arbitrary: w rule: less_induct)
  case less
  have len: "length (rw_slots w) = 4" using less.prems by (simp add: writer_flight_def)
  show ?case
  proof (cases "slot_state (rw_slots w ! unat next) = InFlight")
    case False
    then have "slot_state (rw_slots w ! unat next) = Open" by (metis SlotState.exhaust)
    then show ?thesis using len nx less.prems
      by (subst await_slot.simps) (simp add: conserve_def reap_frame_def)
  next
    case True
    obtain r u where wait: "ring_submit_and_wait U 1 (rw_ring w) = (r, u)" by fastforce
    note kw = kernel_wait [OF K wait]
    show ?thesis
    proof (cases r)
      case (Inl e)
      have "writer_flight K (w\<lparr>rw_ring := u\<rparr>)" "conserve U K {#} w (w\<lparr>rw_ring := u\<rparr>)"
        using less.prems by (simp_all add: writer_flight_def conserve_def kw)
      then show ?thesis using True len nx wait Inl calls_failed [OF wait [unfolded Inl]]
        by (subst await_slot.simps) simp
    next
      case (Inr k)
      have "returns (bind_run (reap_all pf U (w\<lparr>rw_ring := u\<rparr>)) (await_slot pf U next)) (\<lambda>(r, w').
          writer_flight K w' \<and> conserve U K {#} w w' \<and> reap_frame w w'
          \<and> (case r of Inl _ \<Rightarrow> \<not> calls_ok U | Inr _ \<Rightarrow> slot_state (rw_slots w' ! unat next) = Open))"
        using reap_after_wait [OF K less.prems in_flight_waiting [OF less.prems nx True] wait [unfolded Inr]]
      proof (rule returns_bind)
        fix w1
        assume w1: "writer_flight K w1 \<and> conserve U K {#} w w1 \<and> reap_frame w w1
          \<and> size (kv_waiting K (rw_ring w1)) < size (kv_waiting K (rw_ring w))"
        show "returns (await_slot pf U next w1) (\<lambda>(r, w').
            writer_flight K w' \<and> conserve U K {#} w w' \<and> reap_frame w w'
            \<and> (case r of Inl _ \<Rightarrow> \<not> calls_ok U | Inr _ \<Rightarrow> slot_state (rw_slots w' ! unat next) = Open))"
          by (rule returns_mono [OF less.hyps]) (use w1 conserve_none(1) reap_frame_trans in \<open>auto split: prod.splits\<close>)
      qed
      then show ?thesis using True len nx wait Inr
        by (subst await_slot.simps) simp
    qed
  qed
qed

section \<open>Submitting a slot\<close>

text \<open>The effect of a submission: the head's bytes are one more entry in flight.\<close>

definition pushes :: "'u kernel_view \<Rightarrow> usize \<Rightarrow> usize \<Rightarrow> 'u RingWriter \<Rightarrow> 'u RingWriter \<Rightarrow> bool" where
  "pushes K idx len w w' \<longleftrightarrow>
     rw_head w' = rw_head w \<and> rw_cursor w' = rw_cursor w \<and> rw_fd w' = rw_fd w
     \<and> rw_file_offset w' = rw_file_offset w + len
     \<and> map slot_buf (rw_slots w') = map slot_buf (rw_slots w)"

lemma backed_other:
  "backed slots e \<Longrightarrow> entry_slot e \<noteq> i \<Longrightarrow> backed (slots[i := s]) e"
  by (simp add: backed_def Let_def)

lemma in_flight_push:
  assumes "in_flight slots W" and "i < length slots" and "slot_state (slots ! i) = Open"
    and "entry_slot e = i" and "slot_state s = InFlight" and "backed (slots[i := s]) e"
  shows "in_flight (slots[i := s]) (add_mset e W)"
  unfolding in_flight_def
proof (intro conjI allI ballI)
  fix j
  show "count (image_mset entry_slot (add_mset e W)) j
      = of_bool (j < length (slots[i := s]) \<and> slot_state (slots[i := s] ! j) = InFlight)"
    using assms(1-5) by (cases "j = i") (simp_all add: in_flight_def)
next
  fix d
  assume d: "d \<in># add_mset e W"
  show "backed (slots[i := s]) d"
  proof (cases "d \<in># W")
    case True
    then have "entry_slot d \<noteq> i" using in_flight_slot(2) [OF assms(1)] assms(3) by fastforce
    then show ?thesis using in_flight_slot(3) [OF assms(1) True] by (rule backed_other [rotated])
  next
    case False
    then show ?thesis using d assms(6) by simp
  qed
qed

lemma submit_slot_pushes:
  assumes K: "kernel_ok 256 U K" and fl: "writer_flight K w" and idx: "unat idx < 4"
    and opn: "slot_state (rw_slots w ! unat idx) = Open" and len: "unat len \<le> 1048576"
  obtains w' where "submit_slot pf U idx len w = Done (Inr (), w')" and "writer_flight K w'"
    and "conserve U K {#slot_entry (rw_fd w) idx len (rw_file_offset w) (rw_slots w ! unat idx)#} w w'"
    and "pushes K idx len w w'"
proof -
  let ?W = "kv_waiting K (rw_ring w)"
  let ?s = "(rw_slots w ! unat idx)\<lparr>slot_disk_offset := rw_file_offset w, slot_sealed_len := len, slot_state := InFlight\<rparr>"
  let ?e = "slot_entry (rw_fd w) idx len (rw_file_offset w) (rw_slots w ! unat idx)"
  have e: "slot_entry (rw_fd w) idx len (rw_file_offset w) ?s = ?e" by (simp add: slot_entry_def)
  have f: "in_flight (rw_slots w) ?W" "unat (rw_pending w) = size ?W" "length (rw_slots w) = 4"
    "\<And>s. s \<in> set (rw_slots w) \<Longrightarrow> length (buf_mem (slot_buf s)) = 1048576"
    using fl by (simp_all add: writer_flight_def)
  have mem: "length (buf_mem (slot_buf (rw_slots w ! unat idx))) = 1048576"
    using f(3) idx by (intro f(4)) simp
  have u32: "unat (ucast len :: u32) = unat len"
    using len by (simp add: unsigned_ucast_eq take_bit_nat_eq_self)
  have sz: "size ?W \<le> 4" using in_flight_size [OF f(1)] f(3) by simp
  then have "size ?W < 256" by simp
  then obtain u where u: "sq_push U ?e (rw_ring w) = Some u" "kv_waiting K u = add_mset ?e ?W"
    "kv_landed K u = kv_landed K (rw_ring w)"
    by (rule kernel_push [OF K])
  have one: "unat (rw_pending w) + unat (1 :: usize) < 2 ^ 64" using f(2) sz by simp
  let ?w' = "w\<lparr>rw_file_offset := rw_file_offset w + len, rw_slots := (rw_slots w)[unat idx := ?s],
      rw_ring := u, rw_pending := rw_pending w + 1\<rparr>"
  note sel = slot_entry_sel [OF len idx]
  have bk: "backed ((rw_slots w)[unat idx := ?s]) ?e"
    using f(3) idx len by (simp add: backed_def Let_def sel)
  have "submit_slot pf U idx len w = Done (Inr (), ?w')"
    using f(3) idx mem len one u(1)
    by (simp add: submit_slot_def Let_def on_slot_def e u32 outcome_simps)
  moreover have "writer_flight K ?w'"
    unfolding writer_flight_def
  proof (intro conjI)
    show "in_flight (rw_slots ?w') (kv_waiting K (rw_ring ?w'))"
      using in_flight_push [OF f(1) _ opn sel(1) _ bk] f(3) idx by (simp add: u(2))
    show "unat (rw_pending ?w') = size (kv_waiting K (rw_ring ?w'))"
      using f(2) unat_add_no_overflow [OF one] by (simp add: u(2))
  qed (use f(3,4) mem in \<open>auto dest!: set_update_subset_insert [THEN subsetD]\<close>)
  moreover have "conserve U K {#?e#} w ?w'" by (simp add: conserve_def u)
  moreover have "pushes K idx len w ?w'"
    using f(3) idx by (simp add: pushes_def map_update) (metis list_update_id map_update nth_map)
  ultimately show ?thesis by (rule that)
qed

section \<open>Sealing\<close>

text \<open>The bytes of the open slot, and the entry that sealing it pushes.\<close>

definition open_bytes :: "'u RingWriter \<Rightarrow> u8 list" where
  "open_bytes w = take (unat (rw_cursor w)) (buf_mem (slot_buf (rw_slots w ! unat (rw_head w))))"

definition seal_entries :: "usize \<Rightarrow> 'u RingWriter \<Rightarrow> sqe multiset" where
  "seal_entries len w =
     (if 0 < len
      then {#slot_entry (rw_fd w) (rw_head w) len (rw_file_offset w) (rw_slots w ! unat (rw_head w))#}
      else {#})"

text \<open>What a successful sealing of \<open>len\<close> bytes leaves.\<close>

definition after_seal :: "'u uring_api \<Rightarrow> 'u kernel_view \<Rightarrow> usize \<Rightarrow> 'u RingWriter \<Rightarrow> 'u RingWriter \<Rightarrow> bool" where
  "after_seal U K len w w' \<longleftrightarrow>
     writer_ok K w' \<and> conserve U K (seal_entries len w) w w' \<and> rw_cursor w' = 0
     \<and> rw_file_offset w' = rw_file_offset w + len \<and> rw_fd w' = rw_fd w"

text \<open>What an error of the waiting call leaves: the head is still the sealed slot.\<close>

definition sealed_only :: "'u RingWriter \<Rightarrow> 'u RingWriter \<Rightarrow> bool" where
  "sealed_only w w' \<longleftrightarrow>
     rw_head w' = rw_head w \<and> rw_cursor w' = rw_cursor w
     \<and> map slot_buf (rw_slots w') = map slot_buf (rw_slots w)"

lemma pushes_conserve_next:
  assumes "unat (h :: usize) < 4"
  shows "unat ((h + 1) mod RING_LEN) < 4" "unat (h + 1) = Suc (unat h)"
proof -
  have "unat h + unat (1 :: usize) < 2 ^ 64" using assms by simp
  from unat_add_no_overflow [OF this] show "unat (h + 1) = Suc (unat h)" by simp
  show "unat ((h + 1) mod RING_LEN) < 4"
    by (simp add: unat_mod RING_LEN_def)
qed

lemma submit_or_skip:
  assumes K: "kernel_ok 256 U K" and fl: "writer_flight K w" and hd4: "unat (rw_head w) < 4"
    and opn: "slot_state (rw_slots w ! unat (rw_head w)) = Open" and len: "unat len \<le> 1048576"
  shows "returns (Some (if 0 < len then submit_slot pf U (rw_head w) len w else Done (Inr (), w)))
    (\<lambda>(r, w'). r = Inr () \<and> writer_flight K w' \<and> conserve U K (seal_entries len w) w w'
       \<and> pushes K (rw_head w) len w w')"
proof (cases "0 < len")
  case True
  obtain w' where w': "submit_slot pf U (rw_head w) len w = Done (Inr (), w')" "writer_flight K w'"
    "conserve U K {#slot_entry (rw_fd w) (rw_head w) len (rw_file_offset w) (rw_slots w ! unat (rw_head w))#} w w'"
    "pushes K (rw_head w) len w w'"
    by (rule submit_slot_pushes [OF K fl hd4 opn len])
  then show ?thesis using True by (simp add: seal_entries_def)
next
  case False
  then have "len = 0" by (simp add: word_gt_0)
  then show ?thesis using fl by (simp add: seal_entries_def conserve_def pushes_def)
qed

text \<open>
  Sealing always returns; when it succeeds, the head is a fresh open slot, the entry for
  the sealed bytes has been pushed, and the counter has been advanced by their number.
\<close>

lemma seal_and_advance_returns:
  assumes K: "kernel_ok 256 U K" and fl: "writer_flight K w" and hd4: "unat (rw_head w) < 4"
    and opn: "slot_state (rw_slots w ! unat (rw_head w)) = Open" and len: "unat len \<le> 1048576"
  shows "returns (seal_and_advance pf U len w) (\<lambda>(r, w'). case r of
      Inl _ \<Rightarrow> \<not> calls_ok U \<and> sealed_only w w' | Inr _ \<Rightarrow> after_seal U K len w w')"
  unfolding seal_and_advance_def
proof (rule returns_try [OF submit_or_skip [OF K fl hd4 opn len]])
  fix x :: unit and w1
  assume "(case (Inr x :: io_error + unit, w1) of (r, w') \<Rightarrow> r = Inr () \<and> writer_flight K w'
    \<and> conserve U K (seal_entries len w) w w' \<and> pushes K (rw_head w) len w w')"
  then have w1: "writer_flight K w1" "conserve U K (seal_entries len w) w w1" "pushes K (rw_head w) len w w1"
    by simp_all
  let ?next = "(rw_head w1 + 1) mod RING_LEN"
  have h: "unat (rw_head w1) < 4" using w1(3) hd4 by (simp add: pushes_def)
  then have add: "add_usize pf (rw_head w1) 1 = Done (rw_head w1 + 1)" by (simp add: outcome_simps)
  note nx = pushes_conserve_next(1) [OF h]
  show "returns (bind_run (Some (add_usize pf (rw_head w1) 1)) (\<lambda>h. let next = h mod RING_LEN in
      try_run (await_slot pf U next w1) (\<lambda>_ w2. Some (Done (Inr (), w2\<lparr>rw_head := next, rw_cursor := 0\<rparr>)))))
    (\<lambda>(r, w'). case r of
      Inl _ \<Rightarrow> \<not> calls_ok U \<and> sealed_only w w' | Inr _ \<Rightarrow> after_seal U K len w w')"
    unfolding add bind_run_simps Let_def
  proof (rule returns_try [OF await_slot_returns [OF K w1(1) nx]])
    fix y :: unit and w2
    assume "(case (Inr y :: io_error + unit, w2) of (r, w') \<Rightarrow> writer_flight K w' \<and> conserve U K {#} w1 w'
      \<and> reap_frame w1 w' \<and> (case r of Inl _ \<Rightarrow> \<not> calls_ok U | Inr _ \<Rightarrow> slot_state (rw_slots w' ! unat ?next) = Open))"
    then have w2: "writer_flight K w2" "conserve U K {#} w1 w2" "reap_frame w1 w2"
      "slot_state (rw_slots w2 ! unat ?next) = Open"
      by simp_all
    have "conserve U K (seal_entries len w) w w2" using conserve_none(2) [OF w1(2) w2(2)] .
    then show "returns (Some (Done (Inr (), w2\<lparr>rw_head := ?next, rw_cursor := 0\<rparr>))) (\<lambda>(r, w'). case r of
      Inl _ \<Rightarrow> \<not> calls_ok U \<and> sealed_only w w' | Inr _ \<Rightarrow> after_seal U K len w w')"
      using w2 w1(3) nx
      by (simp add: after_seal_def writer_ok_def writer_flight_def conserve_def reap_frame_def pushes_def)
  qed (use w1(3) in \<open>simp add: sealed_only_def reap_frame_def pushes_def\<close>)
qed simp

section \<open>The public operations\<close>

lemma writer_mem:
  "writer_flight K w \<Longrightarrow> i < 4 \<Longrightarrow> length (buf_mem (slot_buf (rw_slots w ! i))) = 1048576"
  by (auto simp: writer_flight_def)

text \<open>Writing to the open head slot disturbs no entry in flight.\<close>

lemma write_head_fits:
  assumes "writer_ok K w" and "unat off = unat (rw_cursor w) - length p"
    and "length p \<le> unat (rw_cursor w)"
  obtains w' where "write_head off p w = Done w'" and "writer_ok K w'" and "conserve U K {#} w w'"
    and "rw_file_offset w' = rw_file_offset w" and "rw_fd w' = rw_fd w" and "rw_cursor w' = rw_cursor w"
    and "open_bytes w' = take (unat off) (open_bytes w) @ p"
proof -
  let ?h = "unat (rw_head w)"
  let ?m = "buf_mem (slot_buf (rw_slots w ! ?h))"
  have ok: "writer_flight K w" "?h < 4" "slot_state (rw_slots w ! ?h) = Open" "unat (rw_cursor w) \<le> 1048576"
    using assms(1) by (simp_all add: writer_ok_def)
  have f: "in_flight (rw_slots w) (kv_waiting K (rw_ring w))" "length (rw_slots w) = 4"
    using ok(1) by (simp_all add: writer_flight_def)
  have m: "length ?m = 1048576" using writer_mem [OF ok(1,2)] .
  have fits: "unat off + length p = unat (rw_cursor w)" using assms(2,3) by simp
  let ?s = "(rw_slots w ! ?h)\<lparr>slot_buf := (slot_buf (rw_slots w ! ?h))\<lparr>buf_mem := blit (unat off) p ?m\<rparr>\<rparr>"
  let ?w' = "w\<lparr>rw_slots := (rw_slots w)[?h := ?s]\<rparr>"
  have run: "write_head off p w = Done ?w'"
    using f(2) ok(2,4) m fits
    by (simp add: write_head_def Let_def writer_buffer_write_def copy_into_def on_slot_def)
  have "in_flight ((rw_slots w)[?h := ?s]) (kv_waiting K (rw_ring w))"
    unfolding in_flight_def
  proof (intro conjI allI ballI)
    fix j
    show "count (image_mset entry_slot (kv_waiting K (rw_ring w))) j
        = of_bool (j < length ((rw_slots w)[?h := ?s]) \<and> slot_state ((rw_slots w)[?h := ?s] ! j) = InFlight)"
      using f ok(2,3) by (cases "j = ?h") (simp_all add: in_flight_def)
  next
    fix e
    assume e: "e \<in># kv_waiting K (rw_ring w)"
    then have "entry_slot e \<noteq> ?h" using in_flight_slot(2) [OF f(1) e] ok(3) by auto
    then show "backed ((rw_slots w)[?h := ?s]) e"
      using in_flight_slot(3) [OF f(1) e] by (rule backed_other [rotated])
  qed
  moreover have "length (buf_mem (slot_buf s)) = 1048576" if "s \<in> set ((rw_slots w)[?h := ?s])" for s
  proof -
    have "s = ?s \<or> s \<in> set (rw_slots w)" using that set_update_subset_insert by fastforce
    then show ?thesis using ok(1,4) m fits by (auto simp: writer_flight_def)
  qed
  ultimately have w': "writer_ok K ?w'"
    using ok f(2) by (simp add: writer_ok_def writer_flight_def)
  have "open_bytes ?w' = take (unat off) (open_bytes w) @ p"
    using f(2) ok(2) fits [symmetric] m ok(4)
    by (cases p) (simp_all add: open_bytes_def blit_def min_def)
  then show ?thesis by (intro that [OF run w']) (simp_all add: conserve_def)
qed

text \<open>Claiming the cursor, whether or not the payload fits.\<close>

lemma claim_cursor_sel [simp]:
  "claim_cursor len w = (rw_cursor w, w\<lparr>rw_cursor := rw_cursor w + len\<rparr>)"
  by (simp add: claim_cursor_def)

lemma seal_entries_cursor [simp]: "seal_entries v (w\<lparr>rw_cursor := c\<rparr>) = seal_entries v w"
  by (simp add: seal_entries_def)

lemma conserve_cursor [simp]: "conserve U K N (w\<lparr>rw_cursor := c\<rparr>) w' = conserve U K N w w'"
  by (simp add: conserve_def)

text \<open>The cursor after a claim: it does not overflow, and tells whether the payload fits.\<close>

lemma cursor_claimed:
  assumes "writer_ok K w" and "length p \<le> 1048576"
  shows "unat (word_of_nat (length p) :: usize) = length p"
    and "unat (rw_cursor w) + unat (word_of_nat (length p) :: usize) < 2 ^ 64"
    and "unat (rw_cursor w + word_of_nat (length p)) = unat (rw_cursor w) + length p"
    and "BATCH_SIZE < rw_cursor w + word_of_nat (length p) \<longleftrightarrow> 1048576 < unat (rw_cursor w) + length p"
proof -
  show l: "unat (word_of_nat (length p) :: usize) = length p"
    using assms(2) by (simp add: unat_word_of_nat_usize)
  show no: "unat (rw_cursor w) + unat (word_of_nat (length p) :: usize) < 2 ^ 64"
    using assms l by (simp add: writer_ok_def)
  show sum: "unat (rw_cursor w + word_of_nat (length p)) = unat (rw_cursor w) + length p"
    using unat_add_no_overflow [OF no] l by simp
  show "BATCH_SIZE < rw_cursor w + word_of_nat (length p) \<longleftrightarrow> 1048576 < unat (rw_cursor w) + length p"
    by (simp add: word_less_nat_alt sum BATCH_SIZE_def)
qed

text \<open>A payload that fits is copied behind the bytes of the head.\<close>

lemma append_fits:
  assumes ok: "writer_ok K w" and "length p \<le> 1048576" and fits: "unat (rw_cursor w) + length p \<le> 1048576"
  shows "\<exists>w'. writer_append pf U p w = Some (Done (Inr (), w')) \<and> writer_ok K w' \<and> rw_fd w' = rw_fd w
    \<and> conserve U K {#} w w' \<and> rw_file_offset w' = rw_file_offset w \<and> open_bytes w' = open_bytes w @ p
    \<and> unat (rw_cursor w') = unat (rw_cursor w) + length p"
proof -
  note claimed = cursor_claimed [OF ok assms(2)]
  let ?w1 = "w\<lparr>rw_cursor := rw_cursor w + word_of_nat (length p)\<rparr>"
  have w1: "writer_ok K ?w1" using ok fits by (simp add: writer_ok_def writer_flight_def claimed(3))
  obtain w' where w': "write_head (rw_cursor w) p ?w1 = Done w'" "writer_ok K w'" "conserve U K {#} ?w1 w'"
    "rw_file_offset w' = rw_file_offset ?w1" "rw_fd w' = rw_fd ?w1" "rw_cursor w' = rw_cursor ?w1"
    "open_bytes w' = take (unat (rw_cursor w)) (open_bytes ?w1) @ p"
    by (rule write_head_fits [OF w1, of "rw_cursor w" p]) (simp_all add: claimed(3))
  moreover have "take (unat (rw_cursor w)) (open_bytes ?w1) = open_bytes w"
    by (simp add: open_bytes_def claimed(3))
  ultimately show ?thesis
    using fits claimed(3,4) by (simp add: writer_append_def Let_def add_usize_no_overflow [OF claimed(2)])
qed

text \<open>After the head has been sealed the payload goes to the start of the next slot.\<close>

lemma append_sealed:
  assumes "after_seal U K c w w2" and p: "length p \<le> 1048576"
  shows "\<exists>w'. write_head (fst (claim_cursor (word_of_nat (length p)) w2)) p (snd (claim_cursor (word_of_nat (length p)) w2)) = Done w'
    \<and> writer_ok K w' \<and> rw_fd w' = rw_fd w \<and> conserve U K (seal_entries c w) w w'
    \<and> rw_file_offset w' = rw_file_offset w + c \<and> open_bytes w' = p \<and> unat (rw_cursor w') = length p"
proof -
  have w2: "writer_ok K w2" "conserve U K (seal_entries c w) w w2" "rw_cursor w2 = 0"
    "rw_file_offset w2 = rw_file_offset w + c" "rw_fd w2 = rw_fd w"
    using assms(1) by (simp_all add: after_seal_def)
  have l: "unat (word_of_nat (length p) :: usize) = length p" by (rule cursor_claimed(1) [OF w2(1) p])
  let ?w3 = "w2\<lparr>rw_cursor := word_of_nat (length p)\<rparr>"
  have w3: "writer_ok K ?w3" using w2(1) p l by (simp add: writer_ok_def writer_flight_def)
  obtain w' where "write_head 0 p ?w3 = Done w'" "writer_ok K w'" "conserve U K {#} ?w3 w'"
    "rw_file_offset w' = rw_file_offset ?w3" "rw_fd w' = rw_fd ?w3" "rw_cursor w' = rw_cursor ?w3"
    "open_bytes w' = take (unat (0 :: usize)) (open_bytes ?w3) @ p"
    by (rule write_head_fits [OF w3, of 0 p]) (simp_all add: l)
  then show ?thesis using w2 conserve_none(2) [OF w2(2)] by (simp add: l)
qed

lemma append_returns:
  assumes K: "kernel_ok 256 U K" and ok: "writer_ok K w" and p: "length p \<le> 1048576"
  shows "returns (writer_append pf U p w) (\<lambda>(r, w'). case r of Inl _ \<Rightarrow> \<not> calls_ok U | Inr _ \<Rightarrow> writer_ok K w' \<and> rw_fd w' = rw_fd w \<and>
    (if unat (rw_cursor w) + length p \<le> 1048576
     then conserve U K {#} w w' \<and> rw_file_offset w' = rw_file_offset w
       \<and> open_bytes w' = open_bytes w @ p \<and> unat (rw_cursor w') = unat (rw_cursor w) + length p
     else conserve U K (seal_entries (rw_cursor w) w) w w'
       \<and> rw_file_offset w' = rw_file_offset w + rw_cursor w
       \<and> open_bytes w' = p \<and> unat (rw_cursor w') = length p))"
proof (cases "unat (rw_cursor w) + length p \<le> 1048576")
  case True
  then show ?thesis using append_fits [OF ok p True, of pf U] by auto
next
  case False
  note claimed = cursor_claimed [OF ok p]
  let ?len = "word_of_nat (length p) :: usize"
  let ?w1 = "w\<lparr>rw_cursor := rw_cursor w + ?len\<rparr>"
  let ?post = "\<lambda>w'. writer_ok K w' \<and> rw_fd w' = rw_fd w \<and> conserve U K (seal_entries (rw_cursor w) w) w w'
    \<and> rw_file_offset w' = rw_file_offset w + rw_cursor w \<and> open_bytes w' = p \<and> unat (rw_cursor w') = length p"
  have w1: "writer_flight K ?w1" "unat (rw_head ?w1) < 4" "slot_state (rw_slots ?w1 ! unat (rw_head ?w1)) = Open"
    "unat (rw_cursor w) \<le> 1048576"
    using ok by (simp_all add: writer_ok_def writer_flight_def)
  have "returns (try_run (seal_and_advance pf U (rw_cursor w) ?w1) (\<lambda>_ w2.
       let (new_offset, w3) = claim_cursor ?len w2 in
       bind_run (Some (write_head new_offset p w3)) (\<lambda>w4. Some (Done (Inr (), w4)))))
    (\<lambda>(r, w'). case r of Inl _ \<Rightarrow> \<not> calls_ok U | Inr _ \<Rightarrow> ?post w')"
  proof (rule returns_try [OF seal_and_advance_returns [OF K w1]])
    fix x :: unit and w2
    assume "(case (Inr x :: io_error + unit, w2) of (r, w') \<Rightarrow> case r of
      Inl _ \<Rightarrow> \<not> calls_ok U \<and> sealed_only ?w1 w' | Inr _ \<Rightarrow> after_seal U K (rw_cursor w) ?w1 w')"
    then have "after_seal U K (rw_cursor w) w w2" by (simp add: after_seal_def)
    from append_sealed [OF this p]
    show "returns (let (new_offset, w3) = claim_cursor ?len w2 in
         bind_run (Some (write_head new_offset p w3)) (\<lambda>w4. Some (Done (Inr (), w4))))
      (\<lambda>(r, w'). case r of Inl _ \<Rightarrow> \<not> calls_ok U | Inr _ \<Rightarrow> ?post w')"
      by (auto simp: Let_def split: prod.splits)
  qed simp
  then show ?thesis
    using False claimed(4) by (simp add: writer_append_def Let_def add_usize_no_overflow [OF claimed(2)])
qed

text \<open>Sealing on demand: both \<open>flush\<close> and the first half of \<open>finish\<close>.\<close>

lemma seal_open_returns:
  assumes K: "kernel_ok 256 U K" and ok: "writer_ok K w"
  shows "returns (if 0 < rw_cursor w then seal_and_advance pf U (rw_cursor w) w else Some (Done (Inr (), w)))
    (\<lambda>(r, w'). case r of Inl _ \<Rightarrow> \<not> calls_ok U | Inr _ \<Rightarrow> after_seal U K (rw_cursor w) w w')"
proof (cases "0 < rw_cursor w")
  case True
  have "writer_flight K w" "unat (rw_head w) < 4" "slot_state (rw_slots w ! unat (rw_head w)) = Open"
    "unat (rw_cursor w) \<le> 1048576"
    using ok by (simp_all add: writer_ok_def)
  from seal_and_advance_returns [OF K this] have "returns (seal_and_advance pf U (rw_cursor w) w)
    (\<lambda>(r, w'). case r of Inl _ \<Rightarrow> \<not> calls_ok U | Inr _ \<Rightarrow> after_seal U K (rw_cursor w) w w')"
    by (rule returns_mono) (auto split: sum.splits)
  then show ?thesis using True by simp
next
  case False
  then have "rw_cursor w = 0" by (simp add: word_gt_0)
  then show ?thesis using ok by (simp add: after_seal_def seal_entries_def conserve_def)
qed

lemma flush_returns:
  assumes K: "kernel_ok 256 U K" and ok: "writer_ok K w"
  shows "returns (writer_flush pf U w) (\<lambda>(r, w'). case r of Inl _ \<Rightarrow> \<not> calls_ok U | Inr _ \<Rightarrow> after_seal U K (rw_cursor w) w w')"
proof -
  have "writer_flush pf U w
      = (if 0 < rw_cursor w then seal_and_advance pf U (rw_cursor w) w else Some (Done (Inr (), w)))"
    by (auto simp: writer_flush_def Let_def try_run_def bind_run_def split: option.splits outcome.splits sum.splits)
  then show ?thesis using seal_open_returns [OF K ok, of pf] by simp
qed

text \<open>
  \<open>finish\<close> returns with no entry in flight: what it hands out is everything completed since
  the last time.
\<close>

text \<open>Waiting for everything that is pending drains the instance.\<close>

lemma drain_returns:
  assumes K: "kernel_ok 256 U K" and w1: "after_seal U K c w w1"
  shows "returns
      (if 0 < rw_pending w1
       then case ring_submit_and_wait U (unat (rw_pending w1)) (rw_ring w1) of
              (Inl e, u) \<Rightarrow> Some (Done (Inl e, w1\<lparr>rw_ring := u\<rparr>))
            | (Inr _, u) \<Rightarrow> bind_run (reap_all pf U (w1\<lparr>rw_ring := u\<rparr>)) (\<lambda>w2. Some (Done (Inr (), w2)))
       else Some (Done (Inr (), w1)))
      (\<lambda>(r, w'). case r of Inl _ \<Rightarrow> \<not> calls_ok U | Inr _ \<Rightarrow> after_seal U K c w w' \<and> kv_waiting K (rw_ring w') = {#})"
proof (cases "0 < rw_pending w1")
  case False
  then have "rw_pending w1 = 0" by (simp add: word_gt_0)
  moreover have "unat (rw_pending w1) = size (kv_waiting K (rw_ring w1))"
    using w1 by (simp add: after_seal_def writer_ok_def writer_flight_def)
  ultimately show ?thesis using w1 by simp
next
  case True
  have fl: "writer_flight K w1" and c1: "conserve U K (seal_entries c w) w w1"
    and pend: "unat (rw_pending w1) = size (kv_waiting K (rw_ring w1))"
    using w1 by (simp_all add: after_seal_def writer_ok_def writer_flight_def)
  obtain r u where wait: "ring_submit_and_wait U (unat (rw_pending w1)) (rw_ring w1) = (r, u)" by fastforce
  note kw = kernel_wait [OF K wait]
  show ?thesis
  proof (cases r)
    case (Inl e)
    then show ?thesis using True wait calls_failed [OF wait [unfolded Inl]] by simp
  next
    case (Inr k)
    let ?w = "w1\<lparr>rw_ring := u\<rparr>"
    have fl': "writer_flight K ?w" using fl by (simp add: writer_flight_def kw)
    have c: "conserve U K (seal_entries c w) w ?w" using c1 by (simp add: conserve_def kw)
    have "size (kv_waiting K (rw_ring w1)) \<le> kv_ready K u" using kw(3) [OF Inr] pend by simp
    then have "returns (reap_all pf U ?w) (\<lambda>w'. after_seal U K c w w' \<and> kv_waiting K (rw_ring w') = {#})"
      by (intro returns_mono [OF reap_all_returns [OF K fl']])
        (use w1 conserve_none(2) [OF c] kw(1) in \<open>auto simp: after_seal_def writer_ok_def reap_frame_def writer_flight_def\<close>)
    then have "returns (bind_run (reap_all pf U ?w) (\<lambda>w2. Some (Done (Inr (), w2))))
        (\<lambda>(r, w'). case r of Inl _ \<Rightarrow> \<not> calls_ok U | Inr _ \<Rightarrow> after_seal U K c w w' \<and> kv_waiting K (rw_ring w') = {#})"
      by (rule returns_bind) simp
    then show ?thesis using True wait Inr by simp
  qed
qed

lemma finish_returns:
  assumes K: "kernel_ok 256 U K" and ok: "writer_ok K w"
  shows "returns (writer_finish pf U w) (\<lambda>(r, w'). case r of Inl _ \<Rightarrow> \<not> calls_ok U | Inr ranges \<Rightarrow>
    after_seal U K (rw_cursor w) w (w'\<lparr>rw_completed := ranges\<rparr>) \<and> kv_waiting K (rw_ring w') = {#} \<and> rw_completed w' = [])"
  unfolding writer_finish_def Let_def
proof (rule returns_try [OF seal_open_returns [OF K ok]])
  fix x :: unit and w1
  assume "(case (Inr x :: io_error + unit, w1) of (r, w') \<Rightarrow> case r of Inl _ \<Rightarrow> \<not> calls_ok U | Inr _ \<Rightarrow> after_seal U K (rw_cursor w) w w')"
  then have "after_seal U K (rw_cursor w) w w1" by simp
  from drain_returns [OF K this, of pf]
  show "returns (try_run
      (if 0 < rw_pending w1
       then case ring_submit_and_wait U (unat (rw_pending w1)) (rw_ring w1) of
              (Inl e, u) \<Rightarrow> Some (Done (Inl e, w1\<lparr>rw_ring := u\<rparr>))
            | (Inr _, u) \<Rightarrow> bind_run (reap_all pf U (w1\<lparr>rw_ring := u\<rparr>)) (\<lambda>w2. Some (Done (Inr (), w2)))
       else Some (Done (Inr (), w1)))
      (\<lambda>_ w2. Some (Done (Inr (rw_completed w2), w2\<lparr>rw_completed := []\<rparr>))))
    (\<lambda>(r, w'). case r of Inl _ \<Rightarrow> \<not> calls_ok U | Inr ranges \<Rightarrow>
    after_seal U K (rw_cursor w) w (w'\<lparr>rw_completed := ranges\<rparr>) \<and> kv_waiting K (rw_ring w') = {#} \<and> rw_completed w' = [])"
    by (rule returns_try) (auto simp: after_seal_def writer_ok_def writer_flight_def conserve_def)
qed simp

end
