(* ===== verification/Writer_Fleet.thy ===== *)
theory Writer_Fleet
  imports Writer_Invariant
begin

text \<open>
  \<open>main\<close> of \<^verbatim>\<open>src/examples/model.rs\<close>: several writers on one file counter, the reference
  packing they refine, and the read-back of the completed ranges. The lemmas show that a
  run keeps \<open>fleet_inv\<close>, the simulation between the writers and the reference, and that
  contiguous chunks written in any order read back as they were sealed.
\<close>

section \<open>What is sealed\<close>

text \<open>
  The chunk sealing would produce now: the bytes of the open slot at the counter's value,
  and nothing for an empty slot.
\<close>

definition seal_chunk :: "'u RingWriter \<Rightarrow> (nat \<times> u8 list) list" where
  "seal_chunk w = (if open_bytes w = [] then [] else [(unat (rw_file_offset w), open_bytes w)])"

lemma length_open_bytes: "writer_ok K w \<Longrightarrow> length (open_bytes w) = unat (rw_cursor w)"
  by (auto simp: open_bytes_def writer_ok_def writer_mem)

lemma open_bytes_empty: "writer_ok K w \<Longrightarrow> open_bytes w = [] \<longleftrightarrow> rw_cursor w = 0"
  using length_open_bytes [of K w] by (metis length_0_conv unat_eq_0)

lemma seal_entries_chunk:
  assumes "writer_ok K w"
  shows "image_mset entry_chunk (seal_entries (rw_cursor w) w) = mset (seal_chunk w)"
    and "image_mset entry_range (seal_entries (rw_cursor w) w) = mset (map chunk_range (seal_chunk w))"
proof -
  have c: "unat (rw_cursor w) \<le> 1048576" "unat (rw_head w) < 4" using assms by (simp_all add: writer_ok_def)
  note sel = slot_entry_sel [OF c]
  show "image_mset entry_chunk (seal_entries (rw_cursor w) w) = mset (seal_chunk w)"
    using open_bytes_empty [OF assms]
    by (auto simp: seal_entries_def seal_chunk_def entry_chunk_def sel open_bytes_def word_gt_0)
  show "image_mset entry_range (seal_entries (rw_cursor w) w) = mset (map chunk_range (seal_chunk w))"
    using open_bytes_empty [OF assms] length_open_bytes [OF assms]
    by (auto simp: seal_entries_def seal_chunk_def entry_range_def chunk_range_def sel word_gt_0)
qed

section \<open>One operation\<close>

datatype writer_op = Append "u8 list" | Flush | Finish

definition writer_step ::
  "profile \<Rightarrow> 'u uring_api \<Rightarrow> writer_op \<Rightarrow> 'u RingWriter
     \<Rightarrow> ((io_error + CompletedRange list) \<times> 'u RingWriter) outcome option" where
  "writer_step pf U op w =
     (case op of
        Append p \<Rightarrow> try_run (writer_append pf U p w) (\<lambda>_ w1. Some (Done (Inr [], w1)))
      | Flush \<Rightarrow> try_run (writer_flush pf U w) (\<lambda>_ w1. Some (Done (Inr [], w1)))
      | Finish \<Rightarrow> writer_finish pf U w)"

text \<open>Whether the operation seals the open slot, and what the open slot holds after it.\<close>

definition op_seals :: "writer_op \<Rightarrow> u8 list \<Rightarrow> bool" where
  "op_seals op cur \<longleftrightarrow> (case op of Append p \<Rightarrow> 1048576 < length cur + length p | _ \<Rightarrow> True)"

definition op_leaves :: "writer_op \<Rightarrow> u8 list \<Rightarrow> u8 list" where
  "op_leaves op cur =
     (case op of Append p \<Rightarrow> if op_seals op cur then p else cur @ p | _ \<Rightarrow> [])"

primrec op_payload :: "writer_op \<Rightarrow> u8 list" where
  "op_payload (Append p) = p"
| "op_payload Flush = []"
| "op_payload Finish = []"

text \<open>The pushed chunk, if any.\<close>

definition op_chunk :: "writer_op \<Rightarrow> 'u RingWriter \<Rightarrow> (nat \<times> u8 list) list" where
  "op_chunk op w = (if op_seals op (open_bytes w) then seal_chunk w else [])"

text \<open>Every range is handed out, completed or waiting; every chunk is waiting or landed.\<close>

definition writer_ranges :: "'u kernel_view \<Rightarrow> 'u RingWriter \<Rightarrow> CompletedRange multiset" where
  "writer_ranges K w = mset (rw_completed w) + image_mset entry_range (kv_waiting K (rw_ring w))"

definition writer_chunks :: "'u kernel_view \<Rightarrow> 'u RingWriter \<Rightarrow> (nat \<times> u8 list) multiset" where
  "writer_chunks K w = image_mset entry_chunk (kv_waiting K (rw_ring w) + kv_landed K (rw_ring w))"

definition drained :: "'u kernel_view \<Rightarrow> 'u RingWriter \<Rightarrow> bool" where
  "drained K w \<longleftrightarrow> kv_waiting K (rw_ring w) = {#} \<and> rw_completed w = [] \<and> rw_cursor w = 0"

lemma conserve_chunks:
  assumes "writer_ok K w" and "conserve U K (seal_entries (rw_cursor w) w) w w'"
  shows "writer_ranges K w' = writer_ranges K w + mset (map chunk_range (seal_chunk w))"
    and "kernel_reliable U K \<Longrightarrow> writer_chunks K w' = writer_chunks K w + mset (seal_chunk w)"
  using assms(2) seal_entries_chunk [OF assms(1)]
  by (simp_all add: conserve_def writer_ranges_def writer_chunks_def union_assoc del: image_mset_union)
    (simp_all add: union_assoc)

lemma conserve_no_chunks:
  assumes "conserve U K {#} w w'"
  shows "writer_ranges K w' = writer_ranges K w"
    and "kernel_reliable U K \<Longrightarrow> writer_chunks K w' = writer_chunks K w"
  using assms by (simp_all add: conserve_def writer_ranges_def writer_chunks_def del: image_mset_union)

text \<open>
  The specification of a step: it always returns, and unless it reports an error it keeps
  the invariant, pushes the sealed chunk, advances the counter by exactly the chunk, and
  leaves the payload in the open slot.
\<close>

definition step_spec ::
  "'u uring_api \<Rightarrow> 'u kernel_view \<Rightarrow> writer_op \<Rightarrow> 'u RingWriter \<Rightarrow> CompletedRange list \<Rightarrow> 'u RingWriter \<Rightarrow> bool" where
  "step_spec U K op w rs w' \<longleftrightarrow>
     writer_ok K w' \<and> open_bytes w' = op_leaves op (open_bytes w)
     \<and> mset rs + writer_ranges K w' = writer_ranges K w + mset (map chunk_range (op_chunk op w))
     \<and> (kernel_reliable U K \<longrightarrow> writer_chunks K w' = writer_chunks K w + mset (op_chunk op w))
     \<and> rw_file_offset w' = rw_file_offset w + word_of_nat (length (concat (map snd (op_chunk op w))))
     \<and> (op = Finish \<longrightarrow> drained K w')"

lemma seal_chunk_bytes:
  "writer_ok K w \<Longrightarrow> word_of_nat (length (concat (map snd (seal_chunk w)))) = rw_cursor w"
  using length_open_bytes [of K w] open_bytes_empty [of K w] by (auto simp: seal_chunk_def)

lemma after_seal_spec:
  assumes "writer_ok K w" and "after_seal U K (rw_cursor w) w w'"
  shows "writer_ok K w'" "open_bytes w' = []" "writer_ranges K w' = writer_ranges K w + mset (map chunk_range (seal_chunk w))"
    "kernel_reliable U K \<Longrightarrow> writer_chunks K w' = writer_chunks K w + mset (seal_chunk w)"
    "rw_file_offset w' = rw_file_offset w + word_of_nat (length (concat (map snd (seal_chunk w))))"
proof -
  have a: "writer_ok K w'" "conserve U K (seal_entries (rw_cursor w) w) w w'" "rw_cursor w' = 0"
    "rw_file_offset w' = rw_file_offset w + rw_cursor w"
    using assms(2) by (simp_all add: after_seal_def)
  then show "writer_ok K w'" "open_bytes w' = []" using open_bytes_empty [of K w'] by simp_all
  show "writer_ranges K w' = writer_ranges K w + mset (map chunk_range (seal_chunk w))"
    "kernel_reliable U K \<Longrightarrow> writer_chunks K w' = writer_chunks K w + mset (seal_chunk w)"
    using conserve_chunks [OF assms(1) a(2)] by simp_all
  show "rw_file_offset w' = rw_file_offset w + word_of_nat (length (concat (map snd (seal_chunk w))))"
    using a(4) seal_chunk_bytes [OF assms(1)] by simp
qed

lemma step_returns:
  assumes K: "kernel_ok 256 U K" and ok: "writer_ok K w" and p: "length (op_payload op) \<le> 1048576"
  shows "returns (writer_step pf U op w) (\<lambda>(r, w'). case r of Inl _ \<Rightarrow> \<not> calls_ok U | Inr rs \<Rightarrow> step_spec U K op w rs w')"
proof (cases op)
  case (Append p)
  have "length p \<le> 1048576" using p Append by simp
  from append_returns [OF K ok this, of pf] show ?thesis
    unfolding writer_step_def Append writer_op.case
  proof (rule returns_try, goal_cases)
    case (2 x s)
    then show ?case
      using conserve_chunks [OF ok] conserve_no_chunks seal_chunk_bytes [OF ok] length_open_bytes [OF ok]
      by (auto simp: step_spec_def op_leaves_def op_seals_def op_chunk_def split: if_splits)
  qed simp
next
  case Flush
  from flush_returns [OF K ok, of pf] show ?thesis
    unfolding writer_step_def Flush writer_op.case
    by (rule returns_try)
      (use after_seal_spec [OF ok] in \<open>auto simp: step_spec_def op_leaves_def op_seals_def op_chunk_def\<close>)
next
  case Finish
  show ?thesis
    unfolding writer_step_def Finish writer_op.case
  proof (rule returns_mono [OF finish_returns [OF K ok]])
    fix x
    assume x: "case x of (r, w') \<Rightarrow> case r of Inl _ \<Rightarrow> \<not> calls_ok U | Inr ranges \<Rightarrow>
      after_seal U K (rw_cursor w) w (w'\<lparr>rw_completed := ranges\<rparr>) \<and> kv_waiting K (rw_ring w') = {#} \<and> rw_completed w' = []"
    have "step_spec U K Finish w rs w'" if "x = (Inr rs, w')" for rs w'
    proof -
      have a: "after_seal U K (rw_cursor w) w (w'\<lparr>rw_completed := rs\<rparr>)" "kv_waiting K (rw_ring w') = {#}" "rw_completed w' = []"
        using x that by simp_all
      have same: "writer_ok K (w'\<lparr>rw_completed := rs\<rparr>) = writer_ok K w'" "open_bytes (w'\<lparr>rw_completed := rs\<rparr>) = open_bytes w'"
        "writer_ranges K (w'\<lparr>rw_completed := rs\<rparr>) = mset rs + writer_ranges K w'"
        "writer_chunks K (w'\<lparr>rw_completed := rs\<rparr>) = writer_chunks K w'"
        using a(3) by (simp_all add: writer_ok_def writer_flight_def open_bytes_def writer_ranges_def writer_chunks_def)
      show ?thesis
        using after_seal_spec [OF ok a(1)] a unfolding same
        by (simp add: step_spec_def op_leaves_def op_seals_def op_chunk_def drained_def after_seal_def)
    qed
    then show "case x of (r, w') \<Rightarrow> case r of Inl _ \<Rightarrow> \<not> calls_ok U | Inr rs \<Rightarrow> step_spec U K Finish w rs w'"
      using x by (auto split: sum.splits)
  qed
qed

section \<open>Several writers on one counter\<close>

text \<open>
  \<open>main\<close> of \<^verbatim>\<open>model.rs\<close>: every thread owns a writer with its own \<open>IoUring\<close> instance, and
  all share the counter \<open>fl_offset\<close>. A schedule is a sequence of whole operations; that
  every interleaving of the threads amounts to one is shown in \<open>Writer_Interleaving\<close>. \<open>fl_ranges\<close> collects what \<open>finish\<close> hands
  out, which \<open>main\<close> does when it joins the threads. An error ends the run, as \<open>expect\<close> does.
\<close>

record 'u fleet =
  fl_offset :: u64
  fl_writers :: "'u RingWriter list"
  fl_ranges :: "CompletedRange list"

definition fleet_step ::
  "profile \<Rightarrow> 'u uring_api \<Rightarrow> nat \<times> writer_op \<Rightarrow> 'u fleet \<Rightarrow> ((io_error + unit) \<times> 'u fleet) outcome option" where
  "fleet_step pf U a F =
     (let t = fst a; w = (fl_writers F ! t)\<lparr>rw_file_offset := fl_offset F\<rparr> in
      if length (fl_writers F) \<le> t then Some Panic
      else bind_run (writer_step pf U (snd a) w) (\<lambda>(r, w').
        let F' = F\<lparr>fl_offset := rw_file_offset w', fl_writers := (fl_writers F)[t := w']\<rparr> in
        case r of Inl e \<Rightarrow> Some (Done (Inl e, F'))
        | Inr rs \<Rightarrow> Some (Done (Inr (), F'\<lparr>fl_ranges := fl_ranges F' @ rs\<rparr>))))"

fun run_fleet ::
  "profile \<Rightarrow> 'u uring_api \<Rightarrow> (nat \<times> writer_op) list \<Rightarrow> 'u fleet \<Rightarrow> ((io_error + unit) \<times> 'u fleet) outcome option" where
  "run_fleet pf U [] F = Some (Done (Inr (), F))"
| "run_fleet pf U (a # as) F = try_run (fleet_step pf U a F) (\<lambda>_ F'. run_fleet pf U as F')"

subsection \<open>The reference\<close>

text \<open>
  What the writers do, without buffers, slots or completions: each thread \<open>t\<close> packs its
  payloads greedily into chunks of at most a megabyte, never splitting a payload, and a chunk gets the
  next range of the file when it is sealed. The log lists the chunks in the order of their
  ranges, with thread, offset and bytes.
\<close>

type_synonym packing = "nat \<times> (nat \<times> nat \<times> u8 list) list \<times> (nat \<Rightarrow> u8 list)"

fun pack_step :: "nat \<times> writer_op \<Rightarrow> packing \<Rightarrow> packing" where
  "pack_step (t, op) (n, C, cur) =
     (if op_seals op (cur t) \<and> cur t \<noteq> []
      then (n + length (cur t), C @ [(t, n, cur t)], cur(t := op_leaves op (cur t)))
      else (n, C, cur(t := op_leaves op (cur t))))"

definition pack_all :: "(nat \<times> writer_op) list \<Rightarrow> packing" where
  "pack_all as = fold pack_step as (0, [], \<lambda>_. [])"

definition packed_log :: "(nat \<times> writer_op) list \<Rightarrow> (nat \<times> nat \<times> u8 list) list" where
  "packed_log as = fst (snd (pack_all as))"

definition payload_of :: "nat \<Rightarrow> (nat \<times> writer_op) list \<Rightarrow> u8 list" where
  "payload_of t as = concat (map (\<lambda>a. if fst a = t then op_payload (snd a) else []) as)"

definition thread_bytes :: "nat \<Rightarrow> (nat \<times> nat \<times> u8 list) list \<Rightarrow> u8 list" where
  "thread_bytes t C = concat (map (\<lambda>c. if fst c = t then snd (snd c) else []) C)"

text \<open>Properties of the reference: a schedule is folded from the left.\<close>

lemma pack_all_snoc: "pack_all (as @ [a]) = pack_step a (pack_all as)"
  by (simp add: pack_all_def)

lemma contiguous_snoc [simp]:
  "contiguous s (C @ [c]) m \<longleftrightarrow> contiguous s C (fst c) \<and> m = fst c + length (snd c)"
  by (auto simp: contiguous_append)

lemma pack_all_facts:
  "case pack_all as of (n, C, cur) \<Rightarrow> contiguous 0 (map snd C) n
     \<and> (\<forall>t. thread_bytes t C @ cur t = payload_of t as)
     \<and> (\<forall>c \<in> set C. snd (snd c) \<noteq> [])"
proof (induction as rule: rev_induct)
  case (snoc a as)
  obtain t op where a: "a = (t, op)" by fastforce
  obtain n C cur where st: "pack_all as = (n, C, cur)" by (metis prod_cases3)
  have pay: "payload_of u (as @ [(t, op)]) = payload_of u as @ (if t = u then op_payload op else [])" for u
    by (simp add: payload_of_def)
  have leaves: "op_leaves op (cur t) = (if op_seals op (cur t) then op_payload op else cur t @ op_payload op)"
    by (cases op) (simp_all add: op_leaves_def op_seals_def)
  have bytes: "thread_bytes u (C @ [(t, n, cur t)]) = thread_bytes u C @ (if t = u then cur t else [])" for u
    by (simp add: thread_bytes_def)
  from snoc have "contiguous 0 (map snd C) n" "\<And>u. thread_bytes u C @ cur u = payload_of u as"
    "\<forall>c \<in> set C. snd (snd c) \<noteq> []"
    by (simp_all add: st)
  moreover have "thread_bytes u C = payload_of u as" if "cur u = []" for u
    using calculation(2) [of u] that by simp
  ultimately show ?case
    by (auto simp: pack_all_snoc st a pay leaves bytes simp flip: append_assoc)
qed (simp add: pack_all_def thread_bytes_def payload_of_def)

subsection \<open>The fleet refines the reference\<close>

definition mset_all :: "('a \<Rightarrow> 'b multiset) \<Rightarrow> 'a list \<Rightarrow> 'b multiset" where
  "mset_all f xs = (\<Sum>x \<leftarrow> xs. f x)"

lemma mset_all_update:
  "t < length xs \<Longrightarrow> M + f x = f (xs ! t) + N \<Longrightarrow> M + mset_all f (xs[t := x]) = mset_all f xs + N"
proof (induction xs arbitrary: t)
  case (Cons y ys)
  show ?case
  proof (cases t)
    case 0
    then show ?thesis using Cons.prems by (simp add: mset_all_def union_assoc union_commute union_lcomm)
  next
    case (Suc k)
    then have "M + mset_all f (ys[k := x]) = mset_all f ys + N" using Cons by simp
    then show ?thesis using Suc by (simp add: mset_all_def union_assoc union_commute union_lcomm)
  qed
qed simp

text \<open>
  The state of the fleet against that of the reference: the counter, the open slots, and
  the log, whose ranges are all handed out, completed or in flight, and whose chunks are
  all in flight or written.
\<close>

definition fleet_inv :: "'u uring_api \<Rightarrow> 'u kernel_view \<Rightarrow> packing \<Rightarrow> 'u fleet \<Rightarrow> bool" where
  "fleet_inv U K st F \<longleftrightarrow>
     (case st of (n, C, cur) \<Rightarrow>
        fl_offset F = word_of_nat n
        \<and> (\<forall>t < length (fl_writers F). writer_ok K (fl_writers F ! t) \<and> open_bytes (fl_writers F ! t) = cur t)
        \<and> mset (fl_ranges F) + mset_all (writer_ranges K) (fl_writers F) = mset (map (chunk_range \<circ> snd) C)
        \<and> (kernel_reliable U K \<longrightarrow> mset_all (writer_chunks K) (fl_writers F) = mset (map snd C)))"

lemma set_offset_sel [simp]:
  "writer_ok K (w\<lparr>rw_file_offset := c\<rparr>) = writer_ok K w"
  "open_bytes (w\<lparr>rw_file_offset := c\<rparr>) = open_bytes w"
  "writer_ranges K (w\<lparr>rw_file_offset := c\<rparr>) = writer_ranges K w"
  "writer_chunks K (w\<lparr>rw_file_offset := c\<rparr>) = writer_chunks K w"
  by (simp_all add: writer_ok_def writer_flight_def open_bytes_def writer_ranges_def writer_chunks_def)

lemma fleet_step_returns:
  assumes K: "kernel_ok 256 U K" and inv: "fleet_inv U K st F" and t: "t < length (fl_writers F)"
    and p: "length (op_payload op) \<le> 1048576" and n: "fst (pack_step (t, op) st) < 2 ^ 64"
  shows "returns (fleet_step pf U (t, op) F) (\<lambda>(r, F'). case r of Inl _ \<Rightarrow> \<not> calls_ok U | Inr _ \<Rightarrow>
    fleet_inv U K (pack_step (t, op) st) F' \<and> length (fl_writers F') = length (fl_writers F)
    \<and> (\<forall>u < length (fl_writers F). u \<noteq> t \<longrightarrow> fl_writers F' ! u = fl_writers F ! u)
    \<and> (op = Finish \<longrightarrow> drained K (fl_writers F' ! t)))"
proof -
  obtain m C cur where st: "st = (m, C, cur)" by (metis prod_cases3)
  let ?ws = "fl_writers F"
  let ?w = "(?ws ! t)\<lparr>rw_file_offset := fl_offset F\<rparr>"
  have i: "fl_offset F = word_of_nat m" "\<And>u. u < length ?ws \<Longrightarrow> writer_ok K (?ws ! u) \<and> open_bytes (?ws ! u) = cur u"
    "mset (fl_ranges F) + mset_all (writer_ranges K) ?ws = mset (map (chunk_range \<circ> snd) C)"
    "kernel_reliable U K \<Longrightarrow> mset_all (writer_chunks K) ?ws = mset (map snd C)"
    using inv by (simp_all add: fleet_inv_def st)
  have w: "writer_ok K ?w" and cur: "open_bytes ?w = cur t" using i(2) [OF t] by simp_all
  have m: "m < 2 ^ 64" using n by (simp add: st split: if_splits)
  then have off: "unat (fl_offset F) = m" by (simp add: i(1) unat_word_of_nat_usize)
  let ?c = "op_chunk op ?w"
  have c: "?c = (if op_seals op (cur t) \<and> cur t \<noteq> [] then [(m, cur t)] else [])"
    using cur by (simp add: op_chunk_def seal_chunk_def off)
  have step: "fleet_inv U K (pack_step (t, op) st)
      (F\<lparr>fl_offset := rw_file_offset w', fl_writers := ?ws[t := w'], fl_ranges := fl_ranges F @ rs\<rparr>)"
    if s: "step_spec U K op ?w rs w'" for rs w'
  proof -
    have s': "writer_ok K w'" "open_bytes w' = op_leaves op (cur t)"
      "mset rs + writer_ranges K w' = writer_ranges K (?ws ! t) + mset (map chunk_range ?c)"
      "kernel_reliable U K \<Longrightarrow> {#} + writer_chunks K w' = writer_chunks K (?ws ! t) + mset ?c"
      "rw_file_offset w' = fl_offset F + word_of_nat (length (concat (map snd ?c)))"
      using s cur by (simp_all add: step_spec_def)
    note r = mset_all_update [OF t s'(3)]
    have "mset (fl_ranges F @ rs) + mset_all (writer_ranges K) (?ws[t := w'])
        = mset (map (chunk_range \<circ> snd) C) + mset (map chunk_range ?c)"
      using r i(3) by (simp add: union_assoc)
    moreover have "kernel_reliable U K \<Longrightarrow> mset_all (writer_chunks K) (?ws[t := w']) = mset (map snd C) + mset ?c"
      using mset_all_update [OF t s'(4)] i(4) by simp
    moreover have "rw_file_offset w' = word_of_nat (fst (pack_step (t, op) st))"
      using s'(5) [unfolded c] by (simp add: i(1) st)
    ultimately show ?thesis
      using s'(1,2) i(2) c by (auto simp: fleet_inv_def st nth_list_update)
  qed
  show ?thesis
    unfolding fleet_step_def Let_def fst_conv snd_conv
    using t by (simp, intro returns_bind [OF step_returns [OF K w p]])
      (use t step in \<open>auto simp: step_spec_def split: sum.splits\<close>)
qed

text \<open>The reference's counter never falls.\<close>

lemma pack_fold_mono: "fst st \<le> fst (fold pack_step as st)"
proof (induction as arbitrary: st)
  case (Cons a as)
  have "fst st \<le> fst (pack_step a st)" by (cases "(a, st)" rule: pack_step.cases) simp
  then show ?case using Cons [of "pack_step a st"] by simp
qed simp

text \<open>Thread \<open>t\<close> ends with \<open>finish\<close>; a thread without operations is as it was (\<open>q\<close>).\<close>

fun closes :: "nat \<Rightarrow> (nat \<times> writer_op) list \<Rightarrow> bool \<Rightarrow> bool" where
  "closes t [] q \<longleftrightarrow> q"
| "closes t ((u, op) # as) q \<longleftrightarrow> closes t as (if u = t then op = Finish else q)"

definition schedule_ok :: "nat \<Rightarrow> (nat \<times> writer_op) list \<Rightarrow> bool" where
  "schedule_ok n as \<longleftrightarrow> list_all (\<lambda>(t, op). t < n \<and> length (op_payload op) \<le> 1048576) as"

lemma closes_mono: "closes t as q \<Longrightarrow> (q \<Longrightarrow> q') \<Longrightarrow> closes t as q'"
  by (induction t as q arbitrary: q' rule: closes.induct) (auto split: if_splits)

lemma run_fleet_returns:
  assumes K: "kernel_ok 256 U K" and "fleet_inv U K st F" and "schedule_ok (length (fl_writers F)) as"
    and "fst (fold pack_step as st) < 2 ^ 64"
  shows "returns (run_fleet pf U as F) (\<lambda>(r, F'). case r of Inl _ \<Rightarrow> \<not> calls_ok U | Inr _ \<Rightarrow>
    fleet_inv U K (fold pack_step as st) F' \<and> length (fl_writers F') = length (fl_writers F)
    \<and> (\<forall>t < length (fl_writers F). closes t as (drained K (fl_writers F ! t)) \<longrightarrow> drained K (fl_writers F' ! t)))"
  using assms(2-)
proof (induction as arbitrary: st F)
  case (Cons a as)
  obtain t op where a: "a = (t, op)" by fastforce
  have t: "t < length (fl_writers F)" "length (op_payload op) \<le> 1048576"
    and rest: "schedule_ok (length (fl_writers F)) as"
    using Cons.prems(2) by (simp_all add: schedule_ok_def a)
  have n: "fst (pack_step (t, op) st) < 2 ^ 64"
    using pack_fold_mono [of "pack_step (t, op) st" as] Cons.prems(3) by (simp add: a)
  show ?case
    unfolding run_fleet.simps a
  proof (rule returns_try [OF fleet_step_returns [OF K Cons.prems(1) t n]])
    fix x :: unit and F1
    assume "case (Inr x :: io_error + unit, F1) of (r, F') \<Rightarrow> case r of Inl _ \<Rightarrow> \<not> calls_ok U | Inr _ \<Rightarrow>
      fleet_inv U K (pack_step (t, op) st) F' \<and> length (fl_writers F') = length (fl_writers F)
      \<and> (\<forall>u < length (fl_writers F). u \<noteq> t \<longrightarrow> fl_writers F' ! u = fl_writers F ! u)
      \<and> (op = Finish \<longrightarrow> drained K (fl_writers F' ! t))"
    then have F1: "fleet_inv U K (pack_step (t, op) st) F1" "length (fl_writers F1) = length (fl_writers F)"
      "\<And>u. u < length (fl_writers F) \<Longrightarrow> u \<noteq> t \<Longrightarrow> fl_writers F1 ! u = fl_writers F ! u"
      "op = Finish \<Longrightarrow> drained K (fl_writers F1 ! t)"
      by simp_all
    have cl: "closes u as (drained K (fl_writers F1 ! u))"
      if "u < length (fl_writers F)" "closes u ((t, op) # as) (drained K (fl_writers F ! u))" for u
      using that F1(3) [OF that(1)] F1(4) closes_mono by (auto split: if_splits)
    show "returns (run_fleet pf U as F1) (\<lambda>(r, F'). case r of Inl _ \<Rightarrow> \<not> calls_ok U | Inr _ \<Rightarrow>
      fleet_inv U K (fold pack_step ((t, op) # as) st) F' \<and> length (fl_writers F') = length (fl_writers F)
      \<and> (\<forall>u < length (fl_writers F). closes u ((t, op) # as) (drained K (fl_writers F ! u)) \<longrightarrow> drained K (fl_writers F' ! u)))"
      by (rule returns_mono [OF Cons.IH [OF F1(1)]])
        (use rest F1(2) cl Cons.prems(3) a in \<open>auto simp: schedule_ok_def split: sum.splits\<close>)
  qed simp
qed simp

section \<open>A new writer\<close>

lemma slots_new_Done:
  "slots_new alloc stale i n = Done ss \<Longrightarrow>
     length ss = n \<and> (\<forall>s \<in> set ss. slot_state s = Open \<and> length (buf_mem (slot_buf s)) = 1048576)"
proof (induction n arbitrary: i ss)
  case (Suc n)
  then show ?case
    by (fastforce simp: slot_new_def writer_buffer_def BATCH_SIZE_def Let_def split: option.splits if_splits)
qed simp

lemma RingWriter_new_ok:
  assumes "RingWriter_new alloc stale (\<lambda>_. Inr u) fd off = Done (Inr w)" and "fresh K u"
  shows "writer_ok K w" "drained K w" "open_bytes w = []" "writer_ranges K w = {#}" "writer_chunks K w = {#}"
proof -
  obtain ss where ss: "slots_new alloc stale 0 4 = Done ss"
    and w: "w = \<lparr>rw_slots = ss, rw_head = 0, rw_cursor = 0, rw_file_offset = off, rw_ring = u,
      rw_pending = 0, rw_fd = fd, rw_completed = []\<rparr>"
    using assms(1) by (auto simp: RingWriter_new_def RING_LEN_def)
  note s = slots_new_Done [OF ss]
  have "in_flight ss {#}" using s by (auto simp: in_flight_def)
  moreover have "ss ! 0 \<in> set ss" using s by (intro nth_mem) simp
  ultimately show "writer_ok K w"
    using s assms(2) by (simp add: writer_ok_def writer_flight_def w fresh_def)
  show "drained K w" "open_bytes w = []" "writer_ranges K w = {#}" "writer_chunks K w = {#}"
    using assms(2) by (simp_all add: drained_def open_bytes_def writer_ranges_def writer_chunks_def w fresh_def)
qed

text \<open>A non-null allocator gives a writer.\<close>

lemma slots_new_total:
  assumes "\<And>i. alloc i (BATCH_SIZE, 4096) \<noteq> 0"
  shows "\<exists>ss. slots_new alloc stale i n = Done ss"
proof (induction n arbitrary: i)
  case (Suc n)
  have l: "layout_from_size_align BATCH_SIZE 4096 = Some (BATCH_SIZE, 4096)"
    by (simp add: layout_from_size_align_def BATCH_SIZE_def)
  have "\<exists>s. slot_new (alloc i) (stale i) = Done s"
    using assms [of i] by (simp add: slot_new_def writer_buffer_def l Let_def) (simp add: BATCH_SIZE_def)
  then show ?case using Suc [of "Suc i"] by auto
qed simp

text \<open>The fleet \<open>main\<close> starts: an empty file, and a new writer per thread.\<close>

definition fleet_started :: "'u kernel_view \<Rightarrow> 'u fleet \<Rightarrow> bool" where
  "fleet_started K F \<longleftrightarrow>
     fl_offset F = 0 \<and> fl_ranges F = []
     \<and> (\<forall>w \<in> set (fl_writers F). \<exists>alloc stale u fd.
          RingWriter_new alloc stale (\<lambda>_. Inr u) fd 0 = Done (Inr w) \<and> fresh K u)"

lemma mset_all_empty: "(\<And>x. x \<in> set xs \<Longrightarrow> f x = {#}) \<Longrightarrow> mset_all f xs = {#}"
  by (induction xs) (simp_all add: mset_all_def)

lemma mset_all_cong: "(\<And>x. x \<in> set xs \<Longrightarrow> f x = g x) \<Longrightarrow> mset_all f xs = mset_all g xs"
  by (induction xs) (simp_all add: mset_all_def)

lemma fleet_started_inv:
  assumes "fleet_started K F"
  shows "fleet_inv U K (0, [], \<lambda>_. []) F" "\<And>t. t < length (fl_writers F) \<Longrightarrow> drained K (fl_writers F ! t)"
proof -
  have w: "writer_ok K w" "drained K w" "open_bytes w = []" "writer_ranges K w = {#}" "writer_chunks K w = {#}"
    if "w \<in> set (fl_writers F)" for w
    using assms that RingWriter_new_ok unfolding fleet_started_def by metis+
  show "fleet_inv U K (0, [], \<lambda>_. []) F"
    using w assms by (simp add: fleet_inv_def fleet_started_def mset_all_empty)
  show "\<And>t. t < length (fl_writers F) \<Longrightarrow> drained K (fl_writers F ! t)" using w(2) by simp
qed

section \<open>Reading back\<close>

instantiation CompletedRange :: linorder
begin

definition less_eq_CompletedRange :: "CompletedRange \<Rightarrow> CompletedRange \<Rightarrow> bool" where
  "less_eq_CompletedRange r s \<longleftrightarrow>
     rng_disk_offset r < rng_disk_offset s
     \<or> rng_disk_offset r = rng_disk_offset s \<and> rng_sealed_len r \<le> rng_sealed_len s"

definition less_CompletedRange :: "CompletedRange \<Rightarrow> CompletedRange \<Rightarrow> bool" where
  "less_CompletedRange r s \<longleftrightarrow> r \<le> s \<and> \<not> s \<le> (r :: CompletedRange)"

instance
  by standard (auto simp: less_eq_CompletedRange_def less_CompletedRange_def intro: CompletedRange.expand)

end

text \<open>\<open>read_exact\<close> after a \<open>seek\<close>: all the bytes, or an error at the end of the file.\<close>

definition read_exact :: "u8 list \<Rightarrow> nat \<Rightarrow> nat \<Rightarrow> io_error + u8 list" where
  "read_exact disk off n =
     (if n = 0 \<or> off + n \<le> length disk then Inr (take n (drop off disk))
      else Inl (Other ''failed to fill whole buffer''))"

fun read_each :: "u8 list \<Rightarrow> CompletedRange list \<Rightarrow> io_error + u8 list list" where
  "read_each disk [] = Inr []"
| "read_each disk (r # rs) =
     (case read_exact disk (unat (rng_disk_offset r)) (unat (rng_sealed_len r)) of
        Inl e \<Rightarrow> Inl e
      | Inr buf \<Rightarrow> (case read_each disk rs of Inl e \<Rightarrow> Inl e | Inr bufs \<Rightarrow> Inr (buf # bufs)))"

definition read_back :: "u8 list \<Rightarrow> CompletedRange list \<Rightarrow> io_error + u8 list list" where
  "read_back disk all_ranges = read_each disk (sort_key rng_disk_offset all_ranges)"

text \<open>With different offsets, sorting by the offset is sorting in the linear order.\<close>

lemma sort_by_offset:
  assumes "inj_on rng_disk_offset (set rs)"
  shows "sort_key rng_disk_offset rs = sort rs"
proof (rule sort_key_inj_key_eq)
  have "sorted (sort rs)" by simp
  then have "sorted_wrt (\<lambda>x y. rng_disk_offset x \<le> rng_disk_offset y) (sort rs)"
    by (rule sorted_wrt_mono_rel [rotated]) (auto simp: less_eq_CompletedRange_def)
  then show "sorted (map rng_disk_offset (sort rs))" by (simp only: sorted_map)
qed (use assms in simp_all)

lemma chunk_range_sel:
  assumes "fst c < 2 ^ 64" and "length (snd c) < 2 ^ 64"
  shows "unat (rng_disk_offset (chunk_range c)) = fst c" "unat (rng_sealed_len (chunk_range c)) = length (snd c)"
  using assms by (simp_all add: chunk_range_def unat_word_of_nat_usize)

lemma contiguous_strict:
  "contiguous s D n \<Longrightarrow> \<forall>c \<in> set D. snd c \<noteq> [] \<Longrightarrow> sorted_wrt (\<lambda>c d. fst c < fst d) D"
proof (induction D arbitrary: s)
  case (Cons c D)
  have rest: "contiguous (s + length (snd c)) D n" using Cons.prems by simp
  have "\<forall>d \<in> set D. fst c < fst d"
    using contiguous_bounds [OF rest] Cons.prems by (fastforce simp flip: length_greater_0_conv)
  then show ?case using Cons.IH [OF rest] Cons.prems by simp
qed simp

lemma sort_ranges:
  assumes D: "contiguous 0 D n" "\<forall>c \<in> set D. snd c \<noteq> []" "n < 2 ^ 64"
    and rs: "mset rs = mset (map chunk_range D)"
  shows "sort_key rng_disk_offset rs = map chunk_range D"
proof -
  have b: "fst c < 2 ^ 64" "length (snd c) < 2 ^ 64" if "c \<in> set D" for c
    using contiguous_bounds [OF D(1)] that D(2,3) by (fastforce simp flip: length_greater_0_conv)+
  have less: "sorted_wrt (\<lambda>c d. rng_disk_offset c < rng_disk_offset d) (map chunk_range D)"
    unfolding sorted_wrt_map
    by (rule sorted_wrt_mono_rel [OF _ contiguous_strict [OF D(1,2)]])
      (simp add: word_less_nat_alt chunk_range_sel(1) [OF b])
  have "set rs = set (map chunk_range D)" using rs by (metis set_mset_mset)
  moreover have "distinct (map rng_disk_offset (map chunk_range D))"
    using less by (metis sorted_wrt_map strict_sorted_iff strict_sorted_imp_sorted)
  ultimately have "sort_key rng_disk_offset rs = sort rs"
    by (intro sort_by_offset) (simp add: distinct_map inj_on_imageI)
  also have "sort rs = map chunk_range D"
  proof (rule properties_for_sort)
    show "sorted (map chunk_range D)"
      by (rule sorted_wrt_mono_rel [OF _ less]) (simp add: less_eq_CompletedRange_def)
  qed (simp add: rs)
  finally show ?thesis .
qed

lemma read_each_chunks:
  "(\<And>c. c \<in> set D \<Longrightarrow> fst c < 2 ^ 64 \<and> length (snd c) < 2 ^ 64 \<and> fst c + length (snd c) \<le> length disk
       \<and> take (length (snd c)) (drop (fst c) disk) = snd c) \<Longrightarrow>
   read_each disk (map chunk_range D) = Inr (map snd D)"
  by (induction D) (simp_all add: chunk_range_sel read_exact_def)

text \<open>The completed ranges of contiguous writes read back the writes, in file order.\<close>

lemma read_back_chunks:
  assumes D: "contiguous 0 D n" "\<forall>c \<in> set D. snd c \<noteq> []" "n < 2 ^ 64"
    and rs: "mset rs = mset (map chunk_range D)" and ws: "mset ws = mset D"
  shows "read_back (perform ws []) rs = Inr (map snd D)"
  unfolding read_back_def sort_ranges [OF D rs]
proof (rule read_each_chunks)
  fix c
  assume c: "c \<in> set D"
  have "sorted_wrt apart ws" using sorted_wrt_apart_mset [OF ws contiguous_apart [OF D(1)]] .
  moreover have "(fst c, snd c) \<in> set ws" using c ws by (metis prod.collapse set_mset_mset)
  ultimately show "fst c < 2 ^ 64 \<and> length (snd c) < 2 ^ 64
      \<and> fst c + length (snd c) \<le> length (perform ws [])
      \<and> take (length (snd c)) (drop (fst c) (perform ws [])) = snd c"
    using perform_reads_back [of ws "fst c" "snd c" "[]"] contiguous_bounds [OF D(1)] c D(3) by fastforce
qed

end
