(* ===== verification/Writer_Threads.thy ===== *)
theory Writer_Threads
  imports Writer_Fleet
begin

text \<open>
  The operations of a ring writer at the grain of their accesses to shared memory. The
  threads of \<open>main\<close> in \<^verbatim>\<open>model.rs\<close> share one atomic, \<open>file_offset\<close>, which only
  \<open>submit_slot\<close> accesses; everything else an operation touches belongs to its thread. An
  operation is therefore a piece of code that runs on its own up to a \<open>fetch_add\<close> and goes
  on with the value this returns. The lemmas show that the code, run without
  interference, is the operation of theory \<open>Ring_Writer\<close>, and that it accesses the
  counter at most once.
\<close>

section \<open>Code with accesses to a shared counter\<close>

datatype 'a code = Return 'a | FetchAdd u64 "u64 \<Rightarrow> 'a code"

primrec then_code :: "'a code \<Rightarrow> ('a \<Rightarrow> 'b code) \<Rightarrow> 'b code" where
  "then_code (Return x) f = f x"
| "then_code (FetchAdd n k) f = FetchAdd n (\<lambda>seen. then_code (k seen) f)"

text \<open>Rust's \<open>?\<close>: on an error, a panic or a call that does not return the rest is not reached.\<close>

type_synonym ('a, 'u) writer_result = "((io_error + 'a) \<times> 'u RingWriter) outcome option"

definition try_code ::
  "('a, 'u) writer_result code \<Rightarrow> ('a \<Rightarrow> 'u RingWriter \<Rightarrow> ('b, 'u) writer_result code) \<Rightarrow> ('b, 'u) writer_result code" where
  "try_code m f =
     then_code m (\<lambda>r. case r of
       None \<Rightarrow> Return None
     | Some Panic \<Rightarrow> Return (Some Panic)
     | Some Undefined \<Rightarrow> Return (Some Undefined)
     | Some (Done (Inl e, w)) \<Rightarrow> Return (Some (Done (Inl e, w)))
     | Some (Done (Inr x, w)) \<Rightarrow> f x w)"

section \<open>The operations\<close>

text \<open>What the \<open>fetch_add\<close> of \<open>submit_slot\<close> returns is the counter the rest of it works with.\<close>

definition set_offset :: "u64 \<Rightarrow> 'u RingWriter \<Rightarrow> 'u RingWriter" where
  "set_offset c w = w\<lparr>rw_file_offset := c\<rparr>"

definition submit_slot_code ::
  "profile \<Rightarrow> 'u uring_api \<Rightarrow> usize \<Rightarrow> usize \<Rightarrow> 'u RingWriter \<Rightarrow> (unit, 'u) writer_result code" where
  "submit_slot_code pf U idx valid_len w =
     FetchAdd valid_len (\<lambda>disk_off. Return (Some (submit_slot pf U idx valid_len (set_offset disk_off w))))"

definition seal_and_advance_code ::
  "profile \<Rightarrow> 'u uring_api \<Rightarrow> usize \<Rightarrow> 'u RingWriter \<Rightarrow> (unit, 'u) writer_result code" where
  "seal_and_advance_code pf U valid_len w =
     try_code (if 0 < valid_len then submit_slot_code pf U (rw_head w) valid_len w else Return (Some (Done (Inr (), w))))
       (\<lambda>_ w1. Return (bind_run (Some (add_usize pf (rw_head w1) 1)) (\<lambda>h.
          let next = h mod RING_LEN in
          try_run (await_slot pf U next w1) (\<lambda>_ w2.
            Some (Done (Inr (), w2\<lparr>rw_head := next, rw_cursor := 0\<rparr>))))))"

definition append_code ::
  "profile \<Rightarrow> 'u uring_api \<Rightarrow> u8 list \<Rightarrow> 'u RingWriter \<Rightarrow> (unit, 'u) writer_result code" where
  "append_code pf U payload w =
     (let len = word_of_nat (length payload); (offset, w1) = claim_cursor len w in
      case add_usize pf offset len of
        Panic \<Rightarrow> Return (Some Panic)
      | Undefined \<Rightarrow> Return (Some Undefined)
      | Done reach \<Rightarrow>
          if reach > BATCH_SIZE
          then try_code (seal_and_advance_code pf U offset w1) (\<lambda>_ w2. Return (
                 let (new_offset, w3) = claim_cursor len w2 in
                 bind_run (Some (write_head new_offset payload w3)) (\<lambda>w4. Some (Done (Inr (), w4)))))
          else Return (bind_run (Some (write_head offset payload w1)) (\<lambda>w2. Some (Done (Inr (), w2)))))"

definition flush_code :: "profile \<Rightarrow> 'u uring_api \<Rightarrow> 'u RingWriter \<Rightarrow> (unit, 'u) writer_result code" where
  "flush_code pf U w =
     (let filled = rw_cursor w in
      if 0 < filled then seal_and_advance_code pf U filled w else Return (Some (Done (Inr (), w))))"

definition finish_code ::
  "profile \<Rightarrow> 'u uring_api \<Rightarrow> 'u RingWriter \<Rightarrow> (CompletedRange list, 'u) writer_result code" where
  "finish_code pf U w =
     (let remaining = rw_cursor w in
      try_code (if 0 < remaining then seal_and_advance_code pf U remaining w else Return (Some (Done (Inr (), w))))
        (\<lambda>_ w1. Return (
           try_run
             (if 0 < rw_pending w1
              then case ring_submit_and_wait U (unat (rw_pending w1)) (rw_ring w1) of
                     (Inl e, u) \<Rightarrow> Some (Done (Inl e, w1\<lparr>rw_ring := u\<rparr>))
                   | (Inr _, u) \<Rightarrow>
                       bind_run (reap_all pf U (w1\<lparr>rw_ring := u\<rparr>)) (\<lambda>w2. Some (Done (Inr (), w2)))
              else Some (Done (Inr (), w1)))
             (\<lambda>_ w2. Some (Done (Inr (rw_completed w2), w2\<lparr>rw_completed := []\<rparr>))))))"

definition op_code ::
  "profile \<Rightarrow> 'u uring_api \<Rightarrow> writer_op \<Rightarrow> 'u RingWriter \<Rightarrow> (CompletedRange list, 'u) writer_result code" where
  "op_code pf U op w =
     (case op of
        Append p \<Rightarrow> try_code (append_code pf U p w) (\<lambda>_ w1. Return (Some (Done (Inr [], w1))))
      | Flush \<Rightarrow> try_code (flush_code pf U w) (\<lambda>_ w1. Return (Some (Done (Inr [], w1))))
      | Finish \<Rightarrow> finish_code pf U w)"

section \<open>At most one access\<close>

definition one_access :: "'a code \<Rightarrow> bool" where
  "one_access m \<longleftrightarrow> (\<exists>r. m = Return r) \<or> (\<exists>n g. m = FetchAdd n (\<lambda>seen. Return (g seen)))"

lemma one_access_Return [simp]: "one_access (Return r)"
  by (simp add: one_access_def)

lemma try_code_Return [simp]: 
  "try_code (Return r) (\<lambda>x w. Return (f x w)) = Return (try_run r f)"
  by (simp add: try_code_def try_run_def bind_run_def split: option.splits outcome.splits sum.splits prod.splits)

lemma one_access_try [simp]: "one_access m \<Longrightarrow> one_access (try_code m (\<lambda>x w. Return (f x w)))"
proof -
  have "try_code (FetchAdd n (\<lambda>seen. Return (g seen))) (\<lambda>x w. Return (f x w))
      = FetchAdd n (\<lambda>seen. Return (try_run (g seen) f))" for n g
    using try_code_Return [of _ f] by (simp add: try_code_def)
  moreover assume "one_access m"
  ultimately show ?thesis by (auto simp: one_access_def)
qed

lemma one_access_op: "one_access (op_code pf U op w)"
proof -
  have seal: "one_access (seal_and_advance_code pf U n w)" for n and w :: "'a RingWriter"
    unfolding seal_and_advance_code_def
    by (rule one_access_try) (auto simp: submit_slot_code_def one_access_def)
  have "one_access (append_code pf U p w)" for p
    by (simp add: append_code_def Let_def seal split: prod.split outcome.split)
  moreover have "one_access (flush_code pf U w)" "one_access (finish_code pf U w)"
    by (simp_all add: flush_code_def finish_code_def Let_def seal)
  ultimately show ?thesis by (simp add: op_code_def split: writer_op.split)
qed

section \<open>Without interference\<close>

text \<open>
  Running code on a counter that nobody else accesses: its result, and the counter after it.
  \<open>at_offset\<close> lets the writer of a result see the counter.
\<close>

primrec exec :: "'a code \<Rightarrow> u64 \<Rightarrow> 'a \<times> u64" where
  "exec (Return x) c = (x, c)"
| "exec (FetchAdd n k) c = exec (k c) (c + n)"

definition at_offset :: "u64 \<Rightarrow> ('a, 'u) writer_result \<Rightarrow> ('a, 'u) writer_result" where
  "at_offset c = map_option (map_outcome (map_prod id (set_offset c)))"

definition alone :: "('a, 'u) writer_result code \<Rightarrow> u64 \<Rightarrow> ('a, 'u) writer_result" where
  "alone m c = at_offset (snd (exec m c)) (fst (exec m c))"

lemma counter_sel [simp]:
  "rw_slots (set_offset c w) = rw_slots w" "rw_head (set_offset c w) = rw_head w"
  "rw_cursor (set_offset c w) = rw_cursor w" "rw_file_offset (set_offset c w) = c"
  "rw_ring (set_offset c w) = rw_ring w" "rw_pending (set_offset c w) = rw_pending w"
  "rw_fd (set_offset c w) = rw_fd w" "rw_completed (set_offset c w) = rw_completed w"
  "set_offset c (set_offset d w) = set_offset c w" "rw_file_offset w = c \<Longrightarrow> set_offset c w = w"
  by (simp_all add: set_offset_def)

lemma counter_update [simp]:
  "set_offset c (w\<lparr>rw_slots := x1\<rparr>) = (set_offset c w)\<lparr>rw_slots := x1\<rparr>"
  "set_offset c (w\<lparr>rw_head := x2\<rparr>) = (set_offset c w)\<lparr>rw_head := x2\<rparr>"
  "set_offset c (w\<lparr>rw_cursor := x2\<rparr>) = (set_offset c w)\<lparr>rw_cursor := x2\<rparr>"
  "set_offset c (w\<lparr>rw_ring := x3\<rparr>) = (set_offset c w)\<lparr>rw_ring := x3\<rparr>"
  "set_offset c (w\<lparr>rw_pending := x2\<rparr>) = (set_offset c w)\<lparr>rw_pending := x2\<rparr>"
  "set_offset c (w\<lparr>rw_completed := x4\<rparr>) = (set_offset c w)\<lparr>rw_completed := x4\<rparr>"
  "set_offset c (on_slot i f w) = on_slot i f (set_offset c w)"
  by (simp_all add: set_offset_def on_slot_def)

lemma at_offset_simps [simp]:
  "at_offset c None = None" "at_offset c (Some Panic) = Some Panic"
  "at_offset c (Some Undefined) = Some Undefined"
  "at_offset c (Some (Done (r, w))) = Some (Done (r, set_offset c w))"
  by (simp_all add: at_offset_def)

lemma at_offset_eq_Done:
  "at_offset c r = Some (Done (x, w)) \<longleftrightarrow> (\<exists>v. r = Some (Done (x, v)) \<and> w = set_offset c v)"
proof -
  consider "r = None" | "r = Some Panic" | "r = Some Undefined" | y v where "r = Some (Done (y, v))"
    by (metis not_None_eq outcome.exhaust prod.exhaust)
  then show ?thesis by cases auto
qed

lemma alone_Return [simp]: "alone (Return r) c = at_offset c r"
  by (simp add: alone_def)

lemma exec_then: "exec (then_code m f) c = (case exec m c of (x, d) \<Rightarrow> exec (f x) d)"
  by (induction m arbitrary: c) simp_all

text \<open>\<open>?\<close> in the code is \<open>?\<close> in the run.\<close>

lemma alone_try:
  assumes "\<And>x w d. h x (set_offset d w) = alone (f x w) d"
  shows "alone (try_code m f) c = try_run (alone m c) h"
proof -
  obtain r d where e: "exec m c = (r, d)" by fastforce
  consider "r = None" | "r = Some Panic" | "r = Some Undefined"
    | e w where "r = Some (Done (Inl e, w))" | x w where "r = Some (Done (Inr x, w))"
    by (metis not_None_eq outcome.exhaust prod.exhaust sum.exhaust)
  then show ?thesis
    by cases (simp_all add: try_code_def alone_def exec_then e assms)
qed

text \<open>The private parts do not look at the counter.\<close>

lemma reap_one_offset: "reap_one pf c (set_offset d w) = map_outcome (set_offset d) (reap_one pf c w)"
  by (auto simp: reap_one_def sub_usize_def Let_def on_slot_def split: profile.split)

lemma write_head_offset: "write_head off p (set_offset d w) = map_outcome (set_offset d) (write_head off p w)"
  by (auto simp: write_head_def Let_def) (cases "writer_buffer_write off p (slot_buf (rw_slots w ! unat (rw_head w)))"; simp)

lemma reap_all_offset_Some:
  assumes "reap_all pf U w = Some r"
  shows "reap_all pf U (set_offset d w) = Some (map_outcome (set_offset d) r)"
proof (rule reap_all.raw_induct [where P = "\<lambda>pf U w r. reap_all pf U (set_offset d w) = Some (map_outcome (set_offset d) r)",
      OF _ assms])
  fix f :: "profile \<Rightarrow> 'a uring_api \<Rightarrow> 'a RingWriter \<Rightarrow> 'a RingWriter outcome option" and pf U w r
  assume IH: "\<And>pf U w r. f pf U w = Some r \<Longrightarrow> reap_all pf U (set_offset d w) = Some (map_outcome (set_offset d) r)"
    and eq: "(case cq_next U (cq_sync U (rw_ring w)) of
        (None, u) \<Rightarrow> Some (Done (w\<lparr>rw_ring := u\<rparr>))
      | (Some c, u) \<Rightarrow> bind_run (Some (reap_one pf c (w\<lparr>rw_ring := u\<rparr>))) (f pf U)) = Some r"
  obtain c u where n: "cq_next U (cq_sync U (rw_ring w)) = (c, u)" by fastforce
  show "reap_all pf U (set_offset d w) = Some (map_outcome (set_offset d) r)"
  proof (cases c)
    case None
    then show ?thesis using eq n by (subst reap_all.simps) auto
  next
    case (Some c)
    have "bind_run (Some (reap_one pf c (w\<lparr>rw_ring := u\<rparr>))) (f pf U) = Some r" using eq n Some by simp
    moreover have "reap_one pf c ((set_offset d w)\<lparr>rw_ring := u\<rparr>) = map_outcome (set_offset d) (reap_one pf c (w\<lparr>rw_ring := u\<rparr>))"
      using reap_one_offset [of pf c d "w\<lparr>rw_ring := u\<rparr>"] by simp
    ultimately show ?thesis
      using n Some by (subst reap_all.simps) (cases "reap_one pf c (w\<lparr>rw_ring := u\<rparr>)"; auto dest: IH)
  qed
qed

lemma await_slot_offset_Some:
  assumes "await_slot pf U next w = Some r"
  shows "await_slot pf U next (set_offset d w) = Some (map_outcome (map_prod id (set_offset d)) r)"
proof (rule await_slot.raw_induct [where P = "\<lambda>pf U nx w r. await_slot pf U nx (set_offset d w)
      = Some (map_outcome (map_prod id (set_offset d)) r)", OF _ assms])
  fix f :: "profile \<Rightarrow> 'a uring_api \<Rightarrow> usize \<Rightarrow> 'a RingWriter \<Rightarrow> ((io_error + unit) \<times> 'a RingWriter) outcome option"
    and pf U nx w r
  assume IH: "\<And>pf U nx w r. f pf U nx w = Some r \<Longrightarrow>
      await_slot pf U nx (set_offset d w) = Some (map_outcome (map_prod id (set_offset d)) r)"
    and eq: "(if length (rw_slots w) \<le> unat nx then Some Panic
      else if slot_state (rw_slots w ! unat nx) = InFlight
      then case ring_submit_and_wait U 1 (rw_ring w) of
             (Inl e, u) \<Rightarrow> Some (Done (Inl e, w\<lparr>rw_ring := u\<rparr>))
           | (Inr _, u) \<Rightarrow> bind_run (reap_all pf U (w\<lparr>rw_ring := u\<rparr>)) (f pf U nx)
      else Some (Done (Inr (), w))) = Some r"
  show "await_slot pf U nx (set_offset d w) = Some (map_outcome (map_prod id (set_offset d)) r)"
  proof (cases "unat nx < length (rw_slots w) \<and> slot_state (rw_slots w ! unat nx) = InFlight")
    case False
    then show ?thesis using eq by (subst await_slot.simps) (auto split: if_splits)
  next
    case True
    obtain res u where wait: "ring_submit_and_wait U 1 (rw_ring w) = (res, u)" by fastforce
    show ?thesis
    proof (cases res)
      case (Inl e)
      then show ?thesis using eq True wait by (subst await_slot.simps) auto
    next
      case (Inr x)
      have eq': "bind_run (reap_all pf U (w\<lparr>rw_ring := u\<rparr>)) (f pf U nx) = Some r"
        using eq True wait Inr by simp
      obtain q where q: "reap_all pf U (w\<lparr>rw_ring := u\<rparr>) = Some q" using eq' by (cases "reap_all pf U (w\<lparr>rw_ring := u\<rparr>)") auto
      have "reap_all pf U ((set_offset d w)\<lparr>rw_ring := u\<rparr>) = Some (map_outcome (set_offset d) q)"
        using reap_all_offset_Some [OF q, of d] by simp
      then show ?thesis using eq' q True wait Inr by (subst await_slot.simps) (cases q; auto dest: IH)
    qed
  qed
qed

text \<open>Not returning does not depend on the counter either.\<close>

lemma offset_transfer:
  assumes "\<And>w r d. f w = Some r \<Longrightarrow> f (set_offset d w) = Some (g d r)"
  shows "f (set_offset d w) = map_option (g d) (f w)"
proof (cases "f w")
  case None
  have "f (set_offset d w) \<noteq> Some r" for r
    using assms [of "set_offset d w" r "rw_file_offset w"] None by auto
  then show ?thesis using None by (metis not_None_eq option.map(1))
qed (simp add: assms)

lemma reap_all_offset: "reap_all pf U (set_offset d w) = map_option (map_outcome (set_offset d)) (reap_all pf U w)"
  by (rule offset_transfer) (rule reap_all_offset_Some)

lemma await_slot_offset: "await_slot pf U next (set_offset d w) = at_offset d (await_slot pf U next w)"
  unfolding at_offset_def by (rule offset_transfer) (rule await_slot_offset_Some)

text \<open>After \<open>submit_slot\<close> the counter has advanced, whatever else happened.\<close>

lemma submit_slot_offset:
  "submit_slot pf U idx n w = Done (r, w') \<Longrightarrow> rw_file_offset w' = rw_file_offset w + n"
  by (auto simp: submit_slot_def Let_def on_slot_def split: if_splits option.splits prod.splits sum.splits)

section \<open>The operations are atomic\<close>

lemma alone_submit: "alone (submit_slot_code pf U idx n w) c = Some (submit_slot pf U idx n (set_offset c w))"
proof (cases "submit_slot pf U idx n (set_offset c w)")
  case (Done rw)
  obtain r w' where rw: "rw = (r, w')" by fastforce
  then show ?thesis using Done submit_slot_offset [of pf U idx n "set_offset c w" r w'] by (simp add: submit_slot_code_def alone_def)
qed (simp_all add: submit_slot_code_def alone_def)

lemma alone_seal: "alone (seal_and_advance_code pf U n w) c = seal_and_advance pf U n (set_offset c w)"
proof -
  let ?rest = "\<lambda>(_ :: unit) w1. bind_run (Some (add_usize pf (rw_head w1) 1)) (\<lambda>h.
          let next = h mod RING_LEN in
          try_run (await_slot pf U next w1) (\<lambda>_ w2.
            Some (Done (Inr (), w2\<lparr>rw_head := next, rw_cursor := 0\<rparr>))))"
  have "at_offset d (?rest x w1) = ?rest x (set_offset d w1)" for x w1 d
  proof (cases "add_usize pf (rw_head w1) 1")
    case (Done h)
    have "at_offset d (try_run m (\<lambda>_ w2. Some (Done (Inr (), w2\<lparr>rw_head := k, rw_cursor := 0\<rparr>))))
        = try_run (at_offset d m) (\<lambda>_ w2. Some (Done (Inr (), w2\<lparr>rw_head := k, rw_cursor := 0\<rparr>)))"
      for k and m :: "(unit, 'a) writer_result"
      by (auto simp: try_run_def bind_run_def at_offset_def split: option.splits outcome.splits prod.splits sum.splits)
    then show ?thesis using Done by (simp add: Let_def await_slot_offset)
  qed simp_all
  then show ?thesis
    unfolding seal_and_advance_code_def seal_and_advance_def
    by (subst alone_try [where h = ?rest]) (simp_all add: alone_submit)
qed

lemma alone_append: "alone (append_code pf U p w) c = writer_append pf U p (set_offset c w)"
proof -
  let ?len = "word_of_nat (length p) :: usize"
  let ?w1 = "w\<lparr>rw_cursor := rw_cursor w + ?len\<rparr>"
  let ?copy = "\<lambda>off w. bind_run (Some (write_head off p w)) (\<lambda>w4. Some (Done (Inr (), w4))) :: (unit, 'a) writer_result"
  have copy: "at_offset d (?copy off w1) = ?copy off (set_offset d w1)" for off w1 d
    by (cases "write_head off p w1") (simp_all add: write_head_offset)
  have rest: "(let (new_offset, w3) = claim_cursor ?len (set_offset d w2) in ?copy new_offset w3)
      = alone (Return (let (new_offset, w3) = claim_cursor ?len w2 in ?copy new_offset w3)) d" for d w2
    using copy [of d "rw_cursor w2" "w2\<lparr>rw_cursor := rw_cursor w2 + ?len\<rparr>"] by (simp add: claim_cursor_def)
  show ?thesis
  proof (cases "add_usize pf (rw_cursor w) ?len")
    case (Done reach)
    then show ?thesis
      using copy [of c "rw_cursor w" ?w1] alone_try [where h = "\<lambda>_ :: unit. \<lambda>w2. let (new_offset, w3) = claim_cursor ?len w2 in ?copy new_offset w3"
          and f = "\<lambda>_ :: unit. \<lambda>w2. Return (let (new_offset, w3) = claim_cursor ?len w2 in ?copy new_offset w3)", OF rest]
      by (simp add: append_code_def writer_append_def claim_cursor_def Let_def alone_seal)
  qed (simp_all add: append_code_def writer_append_def claim_cursor_def Let_def)
qed

lemma alone_skip: "alone (try_code m (\<lambda>_ w1. Return (Some (Done (Inr x, w1))))) c
    = try_run (alone m c) (\<lambda>_ w1. Some (Done (Inr x, w1)))"
  by (rule alone_try) simp

lemma try_run_unit [simp]: "try_run m (\<lambda>_ w. Some (Done (Inr (), w))) = (m :: (unit, 'u) writer_result)"
  by (simp add: try_run_def bind_run_def split: option.splits outcome.splits sum.splits prod.splits)

lemma alone_flush: "alone (flush_code pf U w) c = writer_flush pf U (set_offset c w)"
  by (simp add: flush_code_def writer_flush_def Let_def alone_seal)

lemma alone_finish: "alone (finish_code pf U w) c = writer_finish pf U (set_offset c w)"
proof -
  let ?drain = "\<lambda>w1. if 0 < rw_pending w1
      then case ring_submit_and_wait U (unat (rw_pending w1)) (rw_ring w1) of
             (Inl e, u) \<Rightarrow> Some (Done (Inl e, w1\<lparr>rw_ring := u\<rparr>))
           | (Inr _, u) \<Rightarrow> bind_run (reap_all pf U (w1\<lparr>rw_ring := u\<rparr>)) (\<lambda>w2. Some (Done (Inr (), w2)))
      else Some (Done (Inr (), w1)) :: (unit, 'a) writer_result"
  let ?take = "\<lambda>m. try_run m (\<lambda>_ w2. Some (Done (Inr (rw_completed w2), w2\<lparr>rw_completed := []\<rparr>)))"
  have drain: "?drain (set_offset d w1) = at_offset d (?drain w1)" for d w1
    using reap_all_offset [of pf U d]
    by (auto simp: at_offset_def bind_run_def simp flip: counter_update
        split: prod.split sum.split option.split outcome.split)
  have "?take (at_offset d m) = at_offset d (?take m)" for d and m :: "(unit, 'a) writer_result"
    by (auto simp: try_run_def bind_run_def at_offset_def split: option.splits outcome.splits prod.splits sum.splits)
  then have "?take (?drain (set_offset d w1)) = alone (Return (?take (?drain w1))) d" for d w1
    using drain [of d w1] by simp
  from alone_try [where h = "\<lambda>_ :: unit. \<lambda>w1. ?take (?drain w1)" and f = "\<lambda>_ :: unit. \<lambda>w1. Return (?take (?drain w1))", OF this] show ?thesis
    by (simp add: finish_code_def writer_finish_def Let_def alone_seal)
qed

text \<open>
  The code of an operation, run without interference, is the operation.
\<close>

lemma op_code_alone: "alone (op_code pf U op w) c = writer_step pf U op (set_offset c w)"
  by (simp add: op_code_def writer_step_def alone_skip alone_append alone_flush alone_finish split: writer_op.split)

end
