(* ===== verification/Message_Format.thy ===== *)
theory Message_Format
  imports Prelude
begin

text \<open>
  The text both examples write: \<open>format!\<close> as far as they use it, which is decimal numbers,
  padded with zeros, between pieces of ASCII; and how many operations five threads make.
\<close>

fun decimal :: "nat \<Rightarrow> u8 list" where
  "decimal n = (if n < 10 then [48 + word_of_nat n] else decimal (n div 10) @ [48 + word_of_nat (n mod 10)])"

declare decimal.simps [simp del]

definition padded :: "nat \<Rightarrow> nat \<Rightarrow> u8 list" where
  "padded width n = replicate (width - length (decimal n)) 48 @ decimal n"

definition ascii :: "string \<Rightarrow> u8 list" where
  "ascii s = map of_char s"

lemma length_decimal: "length (decimal n) \<le> Suc n"
proof (induction n rule: decimal.induct)
  case (1 n)
  then show ?case by (cases "n < 10") (simp_all add: decimal.simps [of n])
qed

lemma length_decimal_pos: "0 < length (decimal n)"
  by (simp add: decimal.simps [of n])

lemma length_decimal_digits: "n < 10 ^ Suc k \<Longrightarrow> length (decimal n) \<le> Suc k"
proof (induction k arbitrary: n)
  case 0
  then show ?case by (simp add: decimal.simps [of n])
next
  case (Suc k)
  then have "n div 10 < 10 ^ Suc k" by (simp add: less_mult_imp_div_less)
  then show ?case using Suc.IH [of "n div 10"] by (simp add: decimal.simps [of n])
qed

lemma length_padded: "length (padded k n) = max k (length (decimal n))"
  by (simp add: padded_def)

lemma length_ascii [simp]: "length (ascii s) = length s"
  by (simp add: ascii_def)

lemma length_filters: "\<forall>a \<in> set as. fst a < (N :: nat) \<Longrightarrow> length as = (\<Sum>t<N. length (filter (\<lambda>a. fst a = t) as))"
proof (induction as)
  case (Cons a as)
  have "(\<Sum>t<N. length (filter (\<lambda>a. fst a = t) (a # as)))
      = (\<Sum>t<N. length (filter (\<lambda>a. fst a = t) as) + (if t = fst a then 1 else 0))"
    by (rule sum.cong) auto
  also have "\<dots> = (\<Sum>t<N. length (filter (\<lambda>a. fst a = t) as)) + 1"
    using Cons.prems by (simp add: sum.distrib)
  finally show ?case using Cons by simp
qed simp

lemma filter_scripts:
  "filter (\<lambda>a. fst a = t) (concat (map (\<lambda>u. map (Pair u) (script u)) us))
     = concat (map (\<lambda>u. if u = t then map (Pair u) (script u) else []) us)"
  by (induction us) (auto simp: filter_map comp_def intro: filter_False)

end
