(* ===== verification/Writer_Main.thy ===== *)
theory Writer_Main
  imports Writer_Fleet Message_Format
begin

text \<open>
  The properties of the ring writers as a whole, with a concrete fleet for the witnesses:
  what is read back, that runs return, what happens to buffers in flight, to oversized
  payloads and after errors, and the schedule \<open>main\<close> runs.
\<close>

section \<open>Total size\<close>

text \<open>Nothing is sealed that was not appended.\<close>

lemma sum_update_thread:
  fixes f :: "'a \<Rightarrow> 'b :: comm_monoid_add"
  assumes "t < (N :: nat)"
  shows "(\<Sum>u<N. f ((cur(t := x)) u)) + f (cur t) = (\<Sum>u<N. f (cur u)) + f x"
proof -
  have t: "t \<in> {..<N}" using assms by simp
  have "(\<Sum>u \<in> {..<N} - {t}. f ((cur(t := x)) u)) = (\<Sum>u \<in> {..<N} - {t}. f (cur u))"
    by (rule sum.cong) simp_all
  then show ?thesis by (simp add: sum.remove [OF finite_lessThan t] ac_simps)
qed

lemma pack_all_total:
  "list_all (\<lambda>(t, op). t < N) as \<Longrightarrow>
     (case pack_all as of (n, C, cur) \<Rightarrow> n + (\<Sum>u<N. length (cur u)))
       = length (concat (map (\<lambda>a. op_payload (snd a)) as))"
proof (induction as rule: rev_induct)
  case (snoc a as)
  obtain t op where a: "a = (t, op)" by fastforce
  obtain n C cur where st: "pack_all as = (n, C, cur)" by (metis prod_cases3)
  have t: "t < N" using snoc.prems by (simp add: a)
  have IH: "n + (\<Sum>u<N. length (cur u)) = length (concat (map (\<lambda>a. op_payload (snd a)) as))"
    using snoc by (simp add: st)
  have leaves: "op_leaves op (cur t) = (if op_seals op (cur t) then op_payload op else cur t @ op_payload op)"
    by (cases op) (simp_all add: op_leaves_def op_seals_def)
  note upd = sum_update_thread [OF t, of length cur]
  show ?case
  proof (cases "op_seals op (cur t)")
    case True
    then show ?thesis using IH upd [of "op_payload op"]
      by (cases "cur t = []") (use leaves in \<open>simp_all add: pack_all_snoc st a\<close>)
  next
    case False
    then show ?thesis using IH upd [of "cur t @ op_payload op"]
      by (simp add: pack_all_snoc st a leaves)
  qed
qed (simp add: pack_all_def)

lemma packed_end:
  assumes "schedule_ok N as"
  shows "fst (fold pack_step as (0, [], \<lambda>_. [])) \<le> length (concat (map (\<lambda>a. op_payload (snd a)) as))"
proof -
  have "list_all (\<lambda>(t, op). t < N) as"
    using assms by (auto simp: schedule_ok_def list_all_iff)
  from pack_all_total [OF this] show ?thesis by (simp add: pack_all_def split: prod.splits)
qed

definition schedule_bytes :: "(nat \<times> writer_op) list \<Rightarrow> nat" where
  "schedule_bytes as = length (concat (map (\<lambda>a. op_payload (snd a)) as))"

definition landed_chunks :: "'u kernel_view \<Rightarrow> 'u fleet \<Rightarrow> (nat \<times> u8 list) multiset" where
  "landed_chunks K F = mset_all (\<lambda>w. image_mset entry_chunk (kv_landed K (rw_ring w))) (fl_writers F)"

text \<open>The end of a run in which every thread has finished.\<close>

lemma fleet_end:
  assumes K: "kernel_ok 256 U K" and start: "fleet_started K F"
    and sched: "schedule_ok (length (fl_writers F)) as" "\<forall>t < length (fl_writers F). closes t as True"
    and bytes: "schedule_bytes as < 2 ^ 64"
    and run: "run_fleet pf U as F = Some (Done (Inr (), F'))"
  shows "mset (fl_ranges F') = mset (map (chunk_range \<circ> snd) (packed_log as))"
    and "kernel_reliable U K \<Longrightarrow> landed_chunks K F' = mset (map snd (packed_log as))"
    and "thread_bytes t (packed_log as) = payload_of t as"
    and "contiguous 0 (map snd (packed_log as)) (fst (pack_all as))"
proof -
  obtain n C cur where st: "pack_all as = (n, C, cur)" by (metis prod_cases3)
  have log: "packed_log as = C" by (simp add: packed_log_def st)
  have "fst (fold pack_step as (0, [], \<lambda>_. [])) < 2 ^ 64"
    using packed_end [OF sched(1)] bytes by (simp add: schedule_bytes_def)
  from run_fleet_returns [OF K fleet_started_inv(1) [OF start] sched(1) this, of pf]
  have end': "fleet_inv U K (n, C, cur) F'" "length (fl_writers F') = length (fl_writers F)"
    "\<And>t. t < length (fl_writers F) \<Longrightarrow> closes t as (drained K (fl_writers F ! t)) \<Longrightarrow> drained K (fl_writers F' ! t)"
    using st by (simp_all add: run pack_all_def)
  have dr: "drained K (fl_writers F' ! t)" if "t < length (fl_writers F)" for t
    using end'(3) [OF that] sched(2) fleet_started_inv(2) [OF start that] that by simp
  have dw: "drained K w" if "w \<in> set (fl_writers F')" for w
    using dr that end'(2) by (metis in_set_conv_nth)
  have "mset_all (writer_ranges K) (fl_writers F') = {#}"
    by (rule mset_all_empty) (use dw in \<open>simp add: writer_ranges_def drained_def\<close>)
  then show "mset (fl_ranges F') = mset (map (chunk_range \<circ> snd) (packed_log as))"
    using end'(1) by (simp add: fleet_inv_def log)
  have "mset_all (writer_chunks K) (fl_writers F') = landed_chunks K F'"
    unfolding landed_chunks_def
    by (rule mset_all_cong) (use dw in \<open>simp add: writer_chunks_def drained_def\<close>)
  then show "kernel_reliable U K \<Longrightarrow> landed_chunks K F' = mset (map snd (packed_log as))"
    using end'(1) by (simp add: fleet_inv_def log)
  have facts: "contiguous 0 (map snd C) n" "thread_bytes t C @ cur t = payload_of t as"
    using pack_all_facts [of as] by (simp_all add: st)
  show "contiguous 0 (map snd (packed_log as)) (fst (pack_all as))" using facts(1) by (simp add: log st)
  show "thread_bytes t (packed_log as) = payload_of t as"
  proof (cases "t < length (fl_writers F)")
    case True
    have ok: "writer_ok K (fl_writers F' ! t)" "open_bytes (fl_writers F' ! t) = cur t"
      using end' True by (simp_all add: fleet_inv_def)
    have "cur t = []" using open_bytes_empty [OF ok(1)] dr [OF True] ok(2) by (simp add: drained_def)
    then show ?thesis using facts(2) by (simp add: log)
  next
    case False
    then have "payload_of t as = []"
      using sched(1) by (auto simp: payload_of_def schedule_ok_def list_all_iff)
    then show ?thesis using facts(2) by (simp add: log)
  qed
qed

lemma packed_nonempty: "\<forall>c \<in> set (map snd (packed_log as)). snd c \<noteq> []"
  using pack_all_facts [of as] by (simp add: packed_log_def split: prod.splits)

text \<open>Reading back after such a run, for the two claims below.\<close>

lemma fleet_read_back:
  assumes "kernel_ok 256 U K" and "kernel_reliable U K" and "fleet_started K F"
    and "schedule_ok (length (fl_writers F)) as" and "\<forall>t < length (fl_writers F). closes t as True"
    and "schedule_bytes as < 2 ^ 64"
    and "run_fleet pf U as F = Some (Done (Inr (), F'))"
    and "mset writes = landed_chunks K F'" and "mset rs = mset (fl_ranges F')"
  shows "read_back (perform writes []) rs = Inr (map (\<lambda>c. snd (snd c)) (packed_log as))"
    and "perform writes [] = concat (map (\<lambda>c. snd (snd c)) (packed_log as))"
proof -
  note e = fleet_end [OF assms(1,3-7)]
  let ?D = "map snd (packed_log as)"
  have ws: "mset writes = mset ?D" using assms(8) e(2) [OF assms(2)] by simp
  have rs: "mset rs = mset (map chunk_range ?D)" using assms(9) e(1) by simp
  have "fst (pack_all as) < 2 ^ 64"
    using packed_end [OF assms(4)] assms(6) by (simp add: schedule_bytes_def pack_all_def)
  from read_back_chunks [OF e(4) packed_nonempty this rs ws] perform_contiguous [OF e(4) ws]
  show "read_back (perform writes []) rs = Inr (map (\<lambda>c. snd (snd c)) (packed_log as))"
    "perform writes [] = concat (map (\<lambda>c. snd (snd c)) (packed_log as))"
    by (simp_all add: comp_def)
qed

text \<open>
  C9: Several ring writers on one file lose nothing. Take any number of new writers sharing
  one file counter, any interleaving of their appends, flushes and finishes in which each
  writer finishes last, payloads of at most a megabyte, and a kernel that completes every
  write; the kernel may perform the writes in any order. Then the read-back of \<open>main\<close> succeeds
  on the resulting file and returns exactly the chunks of the greedy reference packing, in
  the order they were sealed; the file is their concatenation, without gap; and the chunks of each
  thread make up everything the thread appended, in order.
\<close>
theorem fleet_reads_back:
  assumes "kernel_ok 256 U K" and "kernel_reliable U K" and "fleet_started K F"
    and "schedule_ok (length (fl_writers F)) as" and "\<forall>t < length (fl_writers F). closes t as True"
    and "schedule_bytes as < 2 ^ 64"
    and "run_fleet pf U as F = Some (Done (Inr (), F'))"
    and "mset writes = landed_chunks K F'"
  shows "read_back (perform writes []) (fl_ranges F') = Inr (map (\<lambda>c. snd (snd c)) (packed_log as))
    \<and> perform writes [] = concat (map (\<lambda>c. snd (snd c)) (packed_log as))
    \<and> (\<forall>t. thread_bytes t (packed_log as) = payload_of t as)"
  using fleet_read_back [OF assms refl] fleet_end(3) [OF assms(1,3-7)] by simp

text \<open>
  C12: With payloads of at most one megabyte, writers always come back. Take a kernel that
  keeps its promises, either build profile, and any schedule of operations on new writers in
  which every appended payload has at most one megabyte and fewer than \<open>2 ^ 64\<close> bytes are
  appended in all. The run returns: the two waiting loops end, nothing panics and, since the
  payloads are bounded, no access leaves a buffer; and there is no error unless the waiting
  system call reports one. Without the bound on the payloads this fails, which is C26.
\<close>
theorem fleet_run_returns:
  assumes "kernel_ok 256 U K" and "fleet_started K F"
    and "schedule_ok (length (fl_writers F)) as" and "schedule_bytes as < 2 ^ 64"
  shows "\<exists>r F'. run_fleet pf U as F = Some (Done (r, F')) \<and> (calls_ok U \<longrightarrow> r = Inr ())"
proof -
  have "fst (fold pack_step as (0, [], \<lambda>_. [])) < 2 ^ 64"
    using packed_end [OF assms(3)] assms(4) by (simp add: schedule_bytes_def)
  from run_fleet_returns [OF assms(1) fleet_started_inv(1) [OF assms(2)] assms(3) this, of pf]
  show ?thesis by (rule returns_no_error)
qed

text \<open>
  C25: The ranges handed out do not depend on the results of the writes. For every kernel
  that keeps its promises, also one that fails or shortens writes, the ranges \<open>finish\<close>
  returns as completed are all the sealed ranges.
\<close>
theorem ranges_ignore_results:
  assumes "kernel_ok 256 U K" and "fleet_started K F"
    and "schedule_ok (length (fl_writers F)) as" and "\<forall>t < length (fl_writers F). closes t as True"
    and "schedule_bytes as < 2 ^ 64"
    and "run_fleet pf U as F = Some (Done (Inr (), F'))"
  shows "mset (fl_ranges F') = mset (map (\<lambda>c. chunk_range (snd c)) (packed_log as))"
  using fleet_end(1) [OF assms] by (simp add: comp_def)

section \<open>A concrete fleet\<close>

definition demo_writer :: "demo_kernel RingWriter" where
  "demo_writer =
     (case RingWriter_new (\<lambda>_ _. 4096) (\<lambda>_ _. 7) (\<lambda>_. Inr dk_init) 3 0 of
        Done (Inr w) \<Rightarrow> w)"

definition demo_fleet :: "demo_kernel fleet" where
  "demo_fleet = \<lparr>fl_offset = 0, fl_writers = [demo_writer, demo_writer], fl_ranges = []\<rparr>"

definition demo_schedule :: "(nat \<times> writer_op) list" where
  "demo_schedule =
     [(0, Append [1, 2]), (1, Append [9]), (0, Flush), (0, Append [3]), (1, Finish), (0, Finish)]"

lemma demo_fleet_started: "fleet_started dk_view demo_fleet"
proof -
  obtain ss where "slots_new (\<lambda>_ _. 4096) (\<lambda>_ _. 7) 0 4 = Done ss"
    using slots_new_total [of "\<lambda>_ _. 4096" "\<lambda>_ _. 7" 0 4] by auto
  then have "\<exists>w. RingWriter_new (\<lambda>_ _. 4096) (\<lambda>_ _. 7) (\<lambda>_. Inr dk_init) 3 0 = Done (Inr w)"
    by (simp add: RingWriter_new_def RING_LEN_def)
  then have "RingWriter_new (\<lambda>_ _. 4096) (\<lambda>_ _. 7) (\<lambda>_. Inr dk_init) 3 0 = Done (Inr demo_writer)"
    by (auto simp: demo_writer_def)
  then show ?thesis using dk_fresh by (fastforce simp: fleet_started_def demo_fleet_def)
qed

lemma demo_schedule_ok:
  "schedule_ok (length (fl_writers demo_fleet)) demo_schedule"
  "\<forall>t < length (fl_writers demo_fleet). closes t demo_schedule True"
  "schedule_bytes demo_schedule < 2 ^ 64"
proof -
  show "schedule_bytes demo_schedule < 2 ^ 64" by (simp add: schedule_bytes_def demo_schedule_def)
qed (auto simp: schedule_ok_def demo_schedule_def demo_fleet_def less_Suc_eq numeral_2_eq_2)

lemma demo_log: "packed_log demo_schedule = [(0, 0, [1, 2]), (1, 2, [9]), (0, 3, [3])]"
  by (simp add: packed_log_def pack_all_def demo_schedule_def op_seals_def op_leaves_def)

theorem fleet_run_returns_witness:
  "\<exists>F'. run_fleet Debug (dk_api 256 False (\<lambda>e. int (length (sqe_bytes e)))) demo_schedule demo_fleet
     = Some (Done (Inr (), F'))"
  using fleet_run_returns [OF dk_kernel_ok demo_fleet_started demo_schedule_ok(1,3),
      of Debug False "\<lambda>e. int (length (sqe_bytes e))"] dk_calls_ok
  by auto

text \<open>Some run of the demo fleet, for a kernel that reports \<open>res\<close>.\<close>

lemma demo_run:
  obtains F' where "run_fleet pf (dk_api 256 False res) demo_schedule demo_fleet = Some (Done (Inr (), F'))"
proof -
  have "fst (fold pack_step demo_schedule (0, [], \<lambda>_. [])) < 2 ^ 64"
    using packed_end [OF demo_schedule_ok(1)] demo_schedule_ok(3) by (simp add: schedule_bytes_def)
  from run_fleet_returns [OF dk_kernel_ok fleet_started_inv(1) [OF demo_fleet_started] demo_schedule_ok(1) this,
      of pf False res]
  have "\<exists>r F'. run_fleet pf (dk_api 256 False res) demo_schedule demo_fleet = Some (Done (r, F'))
      \<and> (calls_ok (dk_api 256 False res) \<longrightarrow> r = Inr ())"
    by (rule returns_no_error)
  then show ?thesis using that dk_calls_ok by blast
qed

theorem fleet_reads_back_witness:
  "\<exists>F' writes. run_fleet Release (dk_api 256 False (\<lambda>e. int (length (sqe_bytes e)))) demo_schedule demo_fleet
       = Some (Done (Inr (), F'))
     \<and> mset writes = landed_chunks dk_view F'
     \<and> perform writes [] = [1, 2, 9, 3]
     \<and> read_back (perform writes []) (fl_ranges F') = Inr [[1, 2], [9], [3]]"
proof -
  let ?U = "dk_api 256 False (\<lambda>e. int (length (sqe_bytes e)))"
  obtain F' where run: "run_fleet Release ?U demo_schedule demo_fleet = Some (Done (Inr (), F'))"
    by (rule demo_run)
  obtain writes where writes: "mset writes = landed_chunks dk_view F'" using ex_mset by blast
  note rb = fleet_reads_back [OF dk_kernel_ok dk_kernel_reliable demo_fleet_started demo_schedule_ok run writes]
  have "read_back (perform writes []) (fl_ranges F') = Inr [[1, 2], [9], [3]]"
    using conjunct1 [OF rb] by (simp add: demo_log)
  moreover have "perform writes [] = [1, 2, 9, 3]" using rb by (simp add: demo_log)
  ultimately show ?thesis using run writes by blast
qed

theorem ranges_ignore_results_witness:
  "\<exists>F'. run_fleet Release (dk_api 256 False (\<lambda>_. -5)) demo_schedule demo_fleet = Some (Done (Inr (), F'))
     \<and> mset (fl_ranges F') = {#CompletedRange 0 2, CompletedRange 2 1, CompletedRange 3 1#}"
proof -
  obtain F' where run: "run_fleet Release (dk_api 256 False (\<lambda>_. -5)) demo_schedule demo_fleet
      = Some (Done (Inr (), F'))"
    by (rule demo_run)
  from ranges_ignore_results [OF dk_kernel_ok demo_fleet_started demo_schedule_ok run]
  show ?thesis using run by (simp add: demo_log chunk_range_def)
qed

section \<open>Whole payloads\<close>

definition payloads :: "nat \<Rightarrow> (nat \<times> writer_op) list \<Rightarrow> u8 list list" where
  "payloads t as =
     concat (map (\<lambda>a. case snd a of Append p \<Rightarrow> if fst a = t then [p] else [] | _ \<Rightarrow> []) as)"

text \<open>A suffix, and a segment, of a list of payloads, joined.\<close>

definition is_tail :: "u8 list list \<Rightarrow> u8 list \<Rightarrow> bool" where
  "is_tail ps xs \<longleftrightarrow> (\<exists>k \<le> length ps. xs = concat (drop k ps))"

definition is_segment :: "u8 list list \<Rightarrow> u8 list \<Rightarrow> bool" where
  "is_segment ps xs \<longleftrightarrow> (\<exists>i j. i + j \<le> length ps \<and> xs = concat (take j (drop i ps)))"

lemma is_tail_append: "is_tail ps xs \<Longrightarrow> is_tail (ps @ qs) (xs @ concat qs)"
proof -
  assume "is_tail ps xs"
  then obtain k where "k \<le> length ps" "xs = concat (drop k ps)" unfolding is_tail_def by blast
  then show ?thesis unfolding is_tail_def by (intro exI [of _ k]) simp
qed

lemma is_tail_new: "is_tail (ps @ qs) (concat qs)"
  unfolding is_tail_def by (intro exI [of _ "length ps"]) simp

lemma is_tail_segment: "is_tail ps xs \<Longrightarrow> is_segment ps xs"
proof -
  assume "is_tail ps xs"
  then obtain k where "k \<le> length ps" "xs = concat (drop k ps)" unfolding is_tail_def by blast
  then show ?thesis unfolding is_segment_def by (intro exI [of _ k] exI [of _ "length ps - k"]) simp
qed

lemma is_segment_append: "is_segment ps xs \<Longrightarrow> is_segment (ps @ qs) xs"
proof -
  assume "is_segment ps xs"
  then obtain i j where "i + j \<le> length ps" "xs = concat (take j (drop i ps))" unfolding is_segment_def by blast
  then show ?thesis unfolding is_segment_def by (intro exI [of _ i] exI [of _ j]) simp
qed

lemma pack_all_segments:
  assumes "schedule_ok N as"
  shows "case pack_all as of (n, C, cur) \<Rightarrow>
    (\<forall>t. length (cur t) \<le> 1048576 \<and> is_tail (payloads t as) (cur t))
    \<and> (\<forall>c \<in> set C. length (snd (snd c)) \<le> 1048576 \<and> is_segment (payloads (fst c) as) (snd (snd c)))"
  using assms
proof (induction as rule: rev_induct)
  case Nil
  show ?case by (simp add: pack_all_def payloads_def is_tail_def)
next
  case (snoc a as)
  obtain t op where a: "a = (t, op)" by fastforce
  obtain n C cur where st: "pack_all as = (n, C, cur)" by (metis prod_cases3)
  let ?new = "case op of Append p \<Rightarrow> [p] | _ \<Rightarrow> []"
  have pl: "payloads u (as @ [(t, op)]) = payloads u as @ (if u = t then ?new else [])" for u
    by (cases op) (simp_all add: payloads_def)
  have len: "length (op_payload op) \<le> 1048576" and prev: "schedule_ok N as"
    using snoc.prems by (simp_all add: schedule_ok_def a)
  have IH: "length (cur u) \<le> 1048576" "is_tail (payloads u as) (cur u)"
    "c \<in> set C \<Longrightarrow> length (snd (snd c)) \<le> 1048576 \<and> is_segment (payloads (fst c) as) (snd (snd c))" for u c
    using snoc.IH [OF prev] by (simp_all add: st)
  have "length (op_leaves op (cur t)) \<le> 1048576 \<and> is_tail (payloads t as @ ?new) (op_leaves op (cur t))"
  proof (cases "op_seals op (cur t)")
    case True
    then have "op_leaves op (cur t) = concat ?new" "length (op_leaves op (cur t)) \<le> 1048576"
      using len by (cases op; simp add: op_leaves_def)+
    then show ?thesis by (simp add: is_tail_new)
  next
    case False
    then obtain p where op: "op = Append p" by (cases op) (simp_all add: op_seals_def)
    then show ?thesis
      using False is_tail_append [OF IH(2), of t "[p]"] by (simp add: op_leaves_def op_seals_def)
  qed
  then have "length (if u = t then op_leaves op (cur t) else cur u) \<le> 1048576
      \<and> is_tail (payloads u (as @ [(t, op)])) (if u = t then op_leaves op (cur t) else cur u)" for u
    using IH(1,2) by (simp add: pl)
  moreover have "length (snd (snd c)) \<le> 1048576 \<and> is_segment (payloads (fst c) (as @ [(t, op)])) (snd (snd c))"
    if "c \<in> set C \<or> c = (t, n, cur t)" for c
    using that IH(1) IH(3) [of c] is_tail_segment [OF IH(2)] unfolding pl by (auto intro: is_segment_append)
  note segments = this this [of "(t, n, cur t)"]
  ultimately show ?case
    using segments unfolding pack_all_snoc st a by simp
qed

lemma pack_all_whole:
  assumes "schedule_ok N as"
  shows "case pack_all as of (n, C, cur) \<Rightarrow>
    (\<forall>c \<in> set C. length (snd (snd c)) \<le> 1048576 \<and> (\<exists>i j. i + j \<le> length (payloads (fst c) as)
          \<and> snd (snd c) = concat (take j (drop i (payloads (fst c) as)))))"
  using pack_all_segments [OF assms] by (auto simp: is_segment_def split: prod.splits)

text \<open>
  No payload is torn. In every run of \<open>main\<close>'s kind, each buffer the read-back returns
  has at most one megabyte and is the concatenation of consecutive whole payloads of one thread.
\<close>
theorem ranges_hold_whole_payloads:
  assumes "kernel_ok 256 U K" and "kernel_reliable U K" and "fleet_started K F"
    and "schedule_ok (length (fl_writers F)) as" and "\<forall>t < length (fl_writers F). closes t as True"
    and "schedule_bytes as < 2 ^ 64"
    and "run_fleet pf U as F = Some (Done (Inr (), F'))"
    and "mset writes = landed_chunks K F'"
  shows "\<exists>bufs. read_back (perform writes []) (fl_ranges F') = Inr bufs
    \<and> (\<forall>b \<in> set bufs. length b \<le> 1048576 \<and> (\<exists>t i j. b = concat (take j (drop i (payloads t as)))))"
proof -
  have "\<exists>t i j. snd (snd c) = concat (take j (drop i (payloads t as)))" "length (snd (snd c)) \<le> 1048576"
    if "c \<in> set (packed_log as)" for c
    using pack_all_whole [OF assms(4)] that by (fastforce simp: packed_log_def split: prod.splits)+
  then show ?thesis using fleet_read_back(1) [OF assms refl] by auto
qed

section \<open>Buffers in flight\<close>

text \<open>
  C14: A buffer handed to the kernel is left alone until its completion is reaped. After any
  run without error, every entry still waiting is a write from the buffer of a slot in
  flight, that buffer still begins with exactly the bytes the entry was built from, and
  \<open>pending\<close> is the number of such entries, which is at most four.
\<close>
theorem in_flight_buffers_unchanged:
  assumes "kernel_ok 256 U K" and "fleet_started K F"
    and "schedule_ok (length (fl_writers F)) as" and "schedule_bytes as < 2 ^ 64"
    and "run_fleet pf U as F = Some (Done (Inr (), F'))"
    and "w \<in> set (fl_writers F')"
  shows "unat (rw_pending w) = size (kv_waiting K (rw_ring w)) \<and> size (kv_waiting K (rw_ring w)) \<le> 4
    \<and> (\<forall>e \<in># kv_waiting K (rw_ring w). \<exists>s \<in> set (rw_slots w). slot_state s = InFlight
         \<and> sqe_opcode e = WriteOp (buf_ptr (slot_buf s)) (word_of_nat (length (sqe_bytes e)))
         \<and> sqe_bytes e = take (length (sqe_bytes e)) (buf_mem (slot_buf s))
         \<and> slot_disk_offset s = sqe_offset e)"
proof -
  have "fst (fold pack_step as (0, [], \<lambda>_. [])) < 2 ^ 64"
    using packed_end [OF assms(3)] assms(4) by (simp add: schedule_bytes_def)
  from run_fleet_returns [OF assms(1) fleet_started_inv(1) [OF assms(2)] assms(3) this, of pf]
  have "fleet_inv U K (fold pack_step as (0, [], \<lambda>_. [])) F'" by (simp add: assms(5))
  then have "writer_flight K w"
    using assms(6) by (auto simp: fleet_inv_def in_set_conv_nth writer_ok_def split: prod.splits)
  then have f: "in_flight (rw_slots w) (kv_waiting K (rw_ring w))" "length (rw_slots w) = 4"
    "unat (rw_pending w) = size (kv_waiting K (rw_ring w))"
    "\<And>i. i < 4 \<Longrightarrow> length (buf_mem (slot_buf (rw_slots w ! i))) = 1048576"
    by (simp_all add: writer_flight_def)
  have "\<exists>s \<in> set (rw_slots w). slot_state s = InFlight
      \<and> sqe_opcode e = WriteOp (buf_ptr (slot_buf s)) (word_of_nat (length (sqe_bytes e)))
      \<and> sqe_bytes e = take (length (sqe_bytes e)) (buf_mem (slot_buf s)) \<and> slot_disk_offset s = sqe_offset e"
    if "e \<in># kv_waiting K (rw_ring w)" for e
  proof -
    note s = in_flight_slot [OF f(1) that]
    have l: "length (sqe_bytes e) = unat (entry_len e)"
      using s(1,3) f(2) f(4) [of "entry_slot e"] by (simp add: backed_def Let_def)
    show ?thesis
      using s by (intro bexI [of _ "rw_slots w ! entry_slot e"])
        (simp_all add: l, simp_all add: backed_def Let_def unsigned_of_nat word_unat_eq_iff unsigned_ucast_eq)
  qed
  then show ?thesis using f(2,3) in_flight_size [OF f(1)] by simp
qed

theorem ranges_hold_whole_payloads_witness:
  "\<exists>F' writes bufs. run_fleet Debug (dk_api 256 False (\<lambda>e. int (length (sqe_bytes e)))) demo_schedule demo_fleet
       = Some (Done (Inr (), F'))
     \<and> mset writes = landed_chunks dk_view F' \<and> read_back (perform writes []) (fl_ranges F') = Inr bufs
     \<and> (\<forall>b \<in> set bufs. length b \<le> 1048576)"
proof -
  let ?U = "dk_api 256 False (\<lambda>e. int (length (sqe_bytes e)))"
  obtain F' where run: "run_fleet Debug ?U demo_schedule demo_fleet = Some (Done (Inr (), F'))"
    by (rule demo_run)
  obtain writes where writes: "mset writes = landed_chunks dk_view F'" using ex_mset by blast
  show ?thesis
    using run writes
      ranges_hold_whole_payloads [OF dk_kernel_ok dk_kernel_reliable demo_fleet_started demo_schedule_ok run writes]
    by blast
qed

text \<open>A schedule that ends with a write in flight.\<close>

definition open_schedule :: "(nat \<times> writer_op) list" where
  "open_schedule = [(0, Append [1, 2]), (0, Flush)]"

lemma open_schedule_ok:
  "schedule_ok (length (fl_writers demo_fleet)) open_schedule" "schedule_bytes open_schedule < 2 ^ 64"
  by (simp_all add: schedule_ok_def open_schedule_def demo_fleet_def schedule_bytes_def)

theorem in_flight_buffers_unchanged_witness:
  "\<exists>F' w. run_fleet Debug (dk_api 256 False (\<lambda>_. -5)) open_schedule demo_fleet = Some (Done (Inr (), F'))
     \<and> w \<in> set (fl_writers F') \<and> size (kv_waiting dk_view (rw_ring w)) \<le> 4"
proof -
  let ?U = "dk_api 256 False (\<lambda>_. -5)"
  have small: "fst (fold pack_step open_schedule (0, [], \<lambda>_. [])) < 2 ^ 64"
    using packed_end [OF open_schedule_ok(1)] open_schedule_ok(2) by (simp add: schedule_bytes_def)
  note ret = run_fleet_returns [OF dk_kernel_ok fleet_started_inv(1) [OF demo_fleet_started] open_schedule_ok(1) small,
      of Debug False "\<lambda>_. -5"]
  have "\<exists>r F'. run_fleet Debug ?U open_schedule demo_fleet = Some (Done (r, F')) \<and> (calls_ok ?U \<longrightarrow> r = Inr ())"
    by (rule returns_no_error [OF ret])
  then obtain F' where run: "run_fleet Debug ?U open_schedule demo_fleet = Some (Done (Inr (), F'))"
    using dk_calls_ok by blast
  have "length (fl_writers F') = 2" using ret run by (simp add: demo_fleet_def)
  then obtain w where w: "w \<in> set (fl_writers F')" by (cases "fl_writers F'") auto
  show ?thesis
    using run w in_flight_buffers_unchanged [OF dk_kernel_ok demo_fleet_started open_schedule_ok run w] by blast
qed

section \<open>Payloads that do not fit, and errors\<close>

lemma append_overflows:
  assumes "BATCH_SIZE < rw_cursor w + word_of_nat (length p)"
    and "unat (rw_cursor w) + unat (word_of_nat (length p) :: usize) < 2 ^ 64"
  shows "writer_append pf U p w =
    try_run (seal_and_advance pf U (rw_cursor w) (w\<lparr>rw_cursor := rw_cursor w + word_of_nat (length p)\<rparr>))
      (\<lambda>_ w2. bind_run (Some (write_head (rw_cursor w2) p (w2\<lparr>rw_cursor := rw_cursor w2 + word_of_nat (length p)\<rparr>)))
         (\<lambda>w4. Some (Done (Inr (), w4))))"
  using assms(1) by (simp add: writer_append_def Let_def add_usize_no_overflow [OF assms(2)])

text \<open>Sealing the head after the cursor has been claimed.\<close>

lemma seal_claimed:
  assumes "kernel_ok 256 U K" and "writer_ok K w"
  obtains r w2 where "seal_and_advance pf U (rw_cursor w) (w\<lparr>rw_cursor := c\<rparr>) = Some (Done (r, w2))"
    and "case r of Inl _ \<Rightarrow> \<not> calls_ok U \<and> sealed_only (w\<lparr>rw_cursor := c\<rparr>) w2
      | Inr _ \<Rightarrow> after_seal U K (rw_cursor w) (w\<lparr>rw_cursor := c\<rparr>) w2"
proof -
  let ?w = "w\<lparr>rw_cursor := c\<rparr>"
  have "writer_flight K ?w" "unat (rw_head ?w) < 4" "slot_state (rw_slots ?w ! unat (rw_head ?w)) = Open"
    "unat (rw_cursor w) \<le> 1048576"
    using assms(2) by (simp_all add: writer_ok_def writer_flight_def)
  from seal_and_advance_returns [OF assms(1) this, of pf] show thesis
    by (auto simp: returns_def intro: that)
qed

text \<open>
  C26: A payload larger than a slot overruns it. After sealing, \<open>append\<close> copies the payload
  to the fresh slot without comparing its size with the slot's: for every payload of more
  than one megabyte the copy leaves the allocation, whatever the state of the writer.
\<close>
theorem append_oversized_overruns:
  assumes K: "kernel_ok 256 U K" and "calls_ok U" and ok: "writer_ok K w"
    and p: "1048576 < length p" "length p < 2 ^ 63"
  shows "writer_append pf U p w = Some Undefined"
proof -
  let ?len = "word_of_nat (length p) :: usize"
  let ?w1 = "w\<lparr>rw_cursor := rw_cursor w + ?len\<rparr>"
  have o: "unat (rw_cursor w) \<le> 1048576" using ok by (simp add: writer_ok_def)
  have l: "unat ?len = length p" using p(2) by (simp add: unat_word_of_nat_usize)
  have no: "unat (rw_cursor w) + unat ?len < 2 ^ 64" using l p(2) o by simp
  have big: "BATCH_SIZE < rw_cursor w + ?len"
    using unat_add_no_overflow [OF no] l p(1) by (simp add: word_less_nat_alt BATCH_SIZE_def)
  obtain r w2 where s: "seal_and_advance pf U (rw_cursor w) ?w1 = Some (Done (r, w2))"
    "case r of Inl _ \<Rightarrow> \<not> calls_ok U \<and> sealed_only ?w1 w2 | Inr _ \<Rightarrow> after_seal U K (rw_cursor w) ?w1 w2"
    by (rule seal_claimed [OF K ok])
  then have r: "r = Inr ()" and w2: "after_seal U K (rw_cursor w) ?w1 w2"
    using assms(2) by (cases r; simp)+
  then have f: "writer_flight K w2" "unat (rw_head w2) < 4" "rw_cursor w2 = 0"
    by (simp_all add: after_seal_def writer_ok_def)
  have "write_head 0 p (w2\<lparr>rw_cursor := ?len\<rparr>) = Undefined"
    using f writer_mem [OF f(1,2)] p(1)
    by (simp add: write_head_def Let_def writer_buffer_write_def copy_into_def writer_flight_def)
  then show ?thesis using append_overflows [OF big no] s(1) r f(3) by simp
qed

theorem append_oversized_overruns_witness:
  "\<exists>p. length p = 1048577
     \<and> writer_append Release (dk_api 256 False (\<lambda>_. 0)) p demo_writer = Some Undefined"
proof -
  obtain p :: "u8 list" where p: "length p = 1048577" using Ex_list_of_length by blast
  have "writer_ok dk_view demo_writer"
    using fleet_started_inv(1) [OF demo_fleet_started] by (force simp: fleet_inv_def demo_fleet_def)
  from append_oversized_overruns [OF dk_kernel_ok dk_calls_ok this, of p Release "\<lambda>_. 0"] p
  show ?thesis by auto
qed

text \<open>An error of \<open>append\<close> comes from the rotation, and leaves the claimed cursor.\<close>

lemma append_error_leaves:
  assumes K: "kernel_ok 256 U K" and ok: "writer_ok K w" and p: "length p \<le> 1048576"
    and err: "writer_append pf U p w = Some (Done (Inl e, w'))"
  shows "1048576 < unat (rw_cursor w) + length p"
    and "sealed_only (w\<lparr>rw_cursor := rw_cursor w + word_of_nat (length p)\<rparr>) w'"
proof -
  let ?len = "word_of_nat (length p) :: usize"
  let ?w1 = "w\<lparr>rw_cursor := rw_cursor w + ?len\<rparr>"
  note c = cursor_claimed [OF ok p]
  have big: "BATCH_SIZE < rw_cursor w + ?len"
  proof (rule ccontr)
    assume "\<not> BATCH_SIZE < rw_cursor w + ?len"
    then have "writer_append pf U p w
        = bind_run (Some (write_head (rw_cursor w) p ?w1)) (\<lambda>w2. Some (Done (Inr (), w2)))"
      by (simp add: writer_append_def Let_def add_usize_no_overflow [OF c(2)])
    then show False using err by (cases "write_head (rw_cursor w) p ?w1") simp_all
  qed
  then show "1048576 < unat (rw_cursor w) + length p" by (simp add: c(4))
  obtain r w2 where s: "seal_and_advance pf U (rw_cursor w) ?w1 = Some (Done (r, w2))"
    "case r of Inl _ \<Rightarrow> \<not> calls_ok U \<and> sealed_only ?w1 w2 | Inr _ \<Rightarrow> after_seal U K (rw_cursor w) ?w1 w2"
    by (rule seal_claimed [OF K ok])
  show "sealed_only ?w1 w'"
  proof (cases r)
    case (Inl e')
    then show ?thesis using s err append_overflows [OF big c(2)] by simp
  next
    case (Inr x)
    then show ?thesis using s(1) err append_overflows [OF big c(2)]
      by (simp split: prod.splits) (cases "write_head (rw_cursor w2) p (w2\<lparr>rw_cursor := rw_cursor w2 + ?len\<rparr>)"; simp)
  qed
qed

text \<open>With the cursor beyond the slot, \<open>append\<close> seals more bytes than the slot has.\<close>

lemma append_overfull:
  assumes over: "1048576 < unat (rw_cursor w)" "unat (rw_cursor w) \<le> 2097152" and q: "length q \<le> 1048576"
    and "unat (rw_head w) < 4" and "length (rw_slots w) = 4"
    and "length (buf_mem (slot_buf (rw_slots w ! unat (rw_head w)))) = 1048576"
  shows "writer_append pf U q w = Some Undefined"
proof -
  let ?c = "rw_cursor w"
  have lq: "unat (word_of_nat (length q) :: usize) = length q" using q by (simp add: unat_word_of_nat_usize)
  have no: "unat ?c + unat (word_of_nat (length q) :: usize) < 2 ^ 64" using over q lq by simp
  have big: "BATCH_SIZE < ?c + word_of_nat (length q)"
    using unat_add_no_overflow [OF no] over by (simp add: word_less_nat_alt BATCH_SIZE_def)
  have u32: "unat (ucast ?c :: u32) = unat ?c"
    using over(2) by (simp add: unsigned_ucast_eq take_bit_nat_eq_self)
  have "submit_slot pf U (rw_head w) ?c (w\<lparr>rw_cursor := c'\<rparr>) = Undefined" for c'
    using assms(4-) over u32 by (simp add: submit_slot_def Let_def on_slot_def)
  moreover have "0 < ?c" using over(1) by (simp add: word_less_nat_alt)
  ultimately have "seal_and_advance pf U ?c (w\<lparr>rw_cursor := c'\<rparr>) = Some Undefined" for c'
    by (simp add: seal_and_advance_def)
  then show ?thesis using append_overflows [OF big no] by simp
qed

text \<open>
  C27: An error of \<open>append\<close> leaves the writer unusable. When the waiting system call fails
  while \<open>append\<close> rotates, the error is returned with the cursor already advanced past the
  slot; the next \<open>append\<close>, of any payload that would fit a slot, submits an entry that reaches beyond the
  slot's allocation.
\<close>
theorem append_after_error_overreads:
  assumes K: "kernel_ok 256 U K" and ok: "writer_ok K w" and p: "length p \<le> 1048576"
    and err: "writer_append pf U p w = Some (Done (Inl e, w'))" and q: "length q \<le> 1048576"
  shows "writer_append pf U q w' = Some Undefined"
proof -
  note left = append_error_leaves [OF K ok p err]
  have o: "writer_flight K w" "unat (rw_head w) < 4" "unat (rw_cursor w) \<le> 1048576"
    using ok by (simp_all add: writer_ok_def)
  have f: "rw_cursor w' = rw_cursor w + word_of_nat (length p)" "rw_head w' = rw_head w"
    "map slot_buf (rw_slots w') = map slot_buf (rw_slots w)"
    using left(2) by (simp_all add: sealed_only_def)
  have len4: "length (rw_slots w') = 4" using f(3) o(1) by (metis length_map writer_flight_def)
  show ?thesis
  proof (rule append_overfull [OF _ _ q _ len4])
    show "1048576 < unat (rw_cursor w')" "unat (rw_cursor w') \<le> 2097152"
      using left(1) o(3) p f(1) cursor_claimed(3) [OF ok p] by simp_all
    show "unat (rw_head w') < 4" using f(2) o(2) by simp
    show "length (buf_mem (slot_buf (rw_slots w' ! unat (rw_head w')))) = 1048576"
      using f(2,3) o(1,2) len4 writer_mem [OF o(1,2)] by (metis (no_types, lifting) nth_map writer_flight_def)
  qed
qed

subsection \<open>A writer whose next slot is in flight\<close>

definition demo_bytes :: "u8 list" where
  "demo_bytes = map (\<lambda>_. 7) [0..<unat BATCH_SIZE]"

lemma length_demo_bytes [simp]: "length demo_bytes = 1048576"
  unfolding demo_bytes_def length_map length_upt BATCH_SIZE_def by simp

definition demo_slot :: "SlotState \<Rightarrow> Slot" where
  "demo_slot st =
     \<lparr>slot_buf = \<lparr>buf_ptr = 4096, buf_mem = demo_bytes, buf_size = BATCH_SIZE\<rparr>, slot_state = st,
      slot_disk_offset = 0, slot_sealed_len = 1\<rparr>"

lemma demo_slot_sel [simp]:
  "slot_state (demo_slot st) = st" "slot_disk_offset (demo_slot st) = 0"
  "length (buf_mem (slot_buf (demo_slot st))) = 1048576" "buf_mem (slot_buf (demo_slot st)) \<noteq> []"
  by (simp_all add: demo_slot_def flip: length_0_conv)

definition full_writer :: "demo_kernel RingWriter" where
  "full_writer =
     \<lparr>rw_slots = [demo_slot Open, demo_slot InFlight, demo_slot Open, demo_slot Open], rw_head = 0,
      rw_cursor = 1, rw_file_offset = 1,
      rw_ring = dk_init\<lparr>dk_sq := [slot_entry 3 1 1 0 (demo_slot InFlight)]\<rparr>,
      rw_pending = 1, rw_fd = 3, rw_completed = []\<rparr>"

lemma full_writer_ok: "writer_ok dk_view full_writer"
proof -
  have one: "unat (1 :: usize) \<le> 1048576" "unat (1 :: usize) < 4" by simp_all
  note e = slot_entry_sel [OF one, of 3 0 "demo_slot InFlight"]
  have "backed (rw_slots full_writer) (slot_entry 3 1 1 0 (demo_slot InFlight))"
    unfolding backed_def e by (simp add: full_writer_def demo_slot_def)
  moreover have "i < 4 \<and> slot_state (rw_slots full_writer ! i) = InFlight \<longleftrightarrow> i = 1" for i
    by (auto simp: full_writer_def less_Suc_eq numeral_eq_Suc)
  moreover have "length (rw_slots full_writer) = 4" by (simp add: full_writer_def)
  ultimately have "in_flight (rw_slots full_writer) {#slot_entry 3 1 1 0 (demo_slot InFlight)#}"
    by (simp add: in_flight_def e)
  then show ?thesis
    by (simp add: writer_ok_def writer_flight_def full_writer_def dk_view_def dk_init_def)
qed

lemma full_writer_fails:
  assumes "length p = 1048576"
  obtains w' where "writer_append Debug (dk_api 256 True (\<lambda>_. 0)) p full_writer = Some (Done (Inl (RawOs 16), w'))"
proof -
  let ?len = "word_of_nat (length p) :: usize"
  have big: "BATCH_SIZE < rw_cursor full_writer + ?len"
    and no: "unat (rw_cursor full_writer) + unat ?len < 2 ^ 64"
    by (simp_all add: assms full_writer_def BATCH_SIZE_def word_less_nat_alt)
  have "\<exists>w'. seal_and_advance Debug (dk_api 256 True (\<lambda>_. 0)) 1 (full_writer\<lparr>rw_cursor := 1 + ?len\<rparr>)
      = Some (Done (Inl (RawOs 16), w'))"
    unfolding seal_and_advance_def
    by (simp add: submit_slot_def Let_def on_slot_def full_writer_def dk_api_def dk_init_def
        add_usize_no_overflow RING_LEN_def await_slot.simps)
  then show ?thesis
    using that append_overflows [OF big no, of Debug "dk_api 256 True (\<lambda>_. 0)"]
    by (auto simp: full_writer_def)
qed

theorem append_after_error_overreads_witness:
  "\<exists>p w'. writer_append Debug (dk_api 256 True (\<lambda>_. 0)) p full_writer = Some (Done (Inl (RawOs 16), w'))
     \<and> writer_append Debug (dk_api 256 True (\<lambda>_. 0)) [1, 2, 3] w' = Some Undefined"
proof -
  obtain p :: "u8 list" where p: "length p = 1048576" using Ex_list_of_length by blast
  obtain w' where w': "writer_append Debug (dk_api 256 True (\<lambda>_. 0)) p full_writer = Some (Done (Inl (RawOs 16), w'))"
    using full_writer_fails [OF p] .
  have "length p \<le> 1048576" "length [1, 2, 3 :: u8] \<le> 1048576" using p by simp_all
  from append_after_error_overreads [OF dk_kernel_ok full_writer_ok this(1) w' this(2)] w' show ?thesis by blast
qed

text \<open>
  The user data of an entry names its slot and its length. For every index and length
  that fit 32 bits, what \<open>submit_slot\<close> packs is what \<open>reap_all\<close> unpacks, so that reaping the
  completion of an entry records the length the slot was sealed with and frees that slot.
\<close>
lemma user_data_roundtrip:
  assumes "unat idx < length (rw_slots w)" and "length (rw_slots w) \<le> 4" and "unat len < 2 ^ 32"
    and "0 < rw_pending w"
  shows "reap_one pf \<lparr>cqe_user_data = sqe_user_data (slot_entry fd idx len off s), cqe_result = res\<rparr> w
    = Done (w\<lparr>rw_completed := rw_completed w @ [CompletedRange (slot_disk_offset (rw_slots w ! unat idx)) len],
        rw_slots := (rw_slots w)[unat idx := (rw_slots w ! unat idx)\<lparr>slot_state := Open, slot_sealed_len := 0\<rparr>],
        rw_pending := rw_pending w - 1\<rparr>)"
proof -
  have "unat idx < 2 ^ 32" using assms(1,2) by simp
  note f = user_data_fields [OF assms(3) this]
  have ud: "sqe_user_data (slot_entry fd idx len off s) = push_bit 32 idx OR len"
    by (simp add: slot_entry_def Let_def)
  have "unat (1 :: usize) \<le> unat (rw_pending w)" using assms(4) by (simp add: word_less_nat_alt)
  then show ?thesis
    unfolding reap_one_def cqe.simps ud f Let_def
    using assms(1) by (simp add: on_slot_def sub_usize_def)
qed

theorem user_data_roundtrip_witness:
  "\<exists>w'. reap_one Debug \<lparr>cqe_user_data = sqe_user_data (slot_entry 3 1 1 0 (demo_slot InFlight)), cqe_result = 1\<rparr> full_writer
     = Done (w' :: demo_kernel RingWriter) \<and> rw_completed w' = [CompletedRange 0 1]
     \<and> slot_state (rw_slots w' ! 1) = Open"
  using user_data_roundtrip [of 1 full_writer 1 Debug 3 0 "demo_slot InFlight" 1]
  by (simp add: full_writer_def demo_slot_def)

section \<open>Well-formed writers\<close>

text \<open>
  C13: Writers are well formed, for payloads of at most one megabyte. A new writer satisfies
  \<open>writer_ok\<close>: its head slot is open, its cursor inside the slot, the slots in flight are
  those the kernel still owes a completion for, one entry each, and \<open>pending\<close> counts them. For
  a kernel that keeps its promises, \<open>flush\<close>, \<open>finish\<close> and \<open>append\<close> of a payload of at
  most one megabyte return on every well-formed writer, and unless the waiting system call
  fails they leave a well-formed writer. For a larger payload \<open>append\<close> writes past its
  slot, which is C26.
\<close>
theorem writer_stays_well_formed:
  assumes "kernel_ok 256 U K"
  shows "(\<forall>alloc stale u fd off w. fresh K u \<and> RingWriter_new alloc stale (\<lambda>_. Inr u) fd off = Done (Inr w)
      \<longrightarrow> writer_ok K w)
    \<and> (\<forall>opn w. writer_ok K w \<and> length (op_payload opn) \<le> 1048576 \<longrightarrow>
      (\<exists>r w'. writer_step pf U opn w = Some (Done (r, w'))
        \<and> (case r of Inl _ \<Rightarrow> \<not> calls_ok U | Inr _ \<Rightarrow> writer_ok K w')))"
proof (intro conjI allI impI; elim conjE)
  fix alloc stale u fd off w
  assume "fresh K u" "RingWriter_new alloc stale (\<lambda>_. Inr u) fd off = Done (Inr w)"
  then show "writer_ok K w" by (metis RingWriter_new_ok(1))
next
  fix opn w
  assume "writer_ok K w" "length (op_payload opn) \<le> 1048576"
  from step_returns [OF assms this, of pf] obtain r w' where "writer_step pf U opn w = Some (Done (r, w'))"
    "case r of Inl _ \<Rightarrow> \<not> calls_ok U | Inr rs \<Rightarrow> step_spec U K opn w rs w'"
    by (auto simp: returns_def)
  then show "\<exists>r w'. writer_step pf U opn w = Some (Done (r, w'))
      \<and> (case r of Inl _ \<Rightarrow> \<not> calls_ok U | Inr _ \<Rightarrow> writer_ok K w')"
    by (intro exI [of _ r] exI [of _ w']) (cases r, simp_all add: step_spec_def)
qed

theorem writer_stays_well_formed_witness:
  "\<exists>rs w'. writer_step Debug (dk_api 256 False (\<lambda>_. 0)) (Append [1, 2]) full_writer = Some (Done (Inr rs, w'))
     \<and> writer_ok dk_view w'"
proof -
  have "writer_ok dk_view full_writer" "length (op_payload (Append [1, 2])) \<le> 1048576"
    by (simp_all add: full_writer_ok)
  then obtain r w' where "writer_step Debug (dk_api 256 False (\<lambda>_. 0)) (Append [1, 2]) full_writer = Some (Done (r, w'))"
    "case r of Inl _ \<Rightarrow> \<not> calls_ok (dk_api 256 False (\<lambda>_. 0)) | Inr _ \<Rightarrow> writer_ok dk_view w'"
    using writer_stays_well_formed [OF dk_kernel_ok, of Debug] by blast
  then show ?thesis using dk_calls_ok by (cases r) auto
qed

section \<open>The messages of main\<close>

definition model_message :: "nat \<Rightarrow> nat \<Rightarrow> u8 list" where
  "model_message thread_id message_num =
     ascii ''['' @ padded 2 thread_id @ ascii ''] [Thread-'' @ decimal thread_id @ ascii ''] Message ''
       @ padded 6 message_num @ [10]"

definition MESSAGES :: nat where
  "MESSAGES = 30000"

text \<open>What a thread of \<open>main\<close> does, and the interleavings of the five threads.\<close>

definition thread_script :: "nat \<Rightarrow> writer_op list" where
  "thread_script t = map (\<lambda>i. Append (model_message t (i + MESSAGES * t))) [0..<MESSAGES] @ [Finish]"

definition main_schedule :: "(nat \<times> writer_op) list \<Rightarrow> bool" where
  "main_schedule as \<longleftrightarrow>
     (\<forall>a \<in> set as. fst a < 5) \<and> (\<forall>t < 5. map snd (filter (\<lambda>a. fst a = t) as) = thread_script t)"

definition thread_text :: "nat \<Rightarrow> u8 list" where
  "thread_text t = concat (map (\<lambda>i. model_message t (i + MESSAGES * t)) [0..<MESSAGES])"

lemma length_model_message: "length (model_message t m) \<le> 2 * t + m + 40"
  using length_decimal [of t] length_decimal [of m]
  by (simp add: model_message_def padded_def ascii_def)

lemma closes_filter: "closes t as q = closes t (filter (\<lambda>a. fst a = t) as) q"
  by (induction t as q rule: closes.induct) auto

lemma closes_snoc [simp]: "closes t (as @ [(t, op)]) q \<longleftrightarrow> op = Finish"
  by (induction t as q rule: closes.induct) auto

lemma payload_of_filter: "payload_of t as = concat (map op_payload (map snd (filter (\<lambda>a. fst a = t) as)))"
  by (induction as) (auto simp: payload_of_def)

lemma main_schedule_script:
  assumes "main_schedule as" and "a \<in> set as"
  shows "snd a \<in> set (thread_script (fst a))"
proof -
  have "snd a \<in> set (map snd (filter (\<lambda>b. fst b = fst a) as))" using assms(2) by auto
  moreover have "map snd (filter (\<lambda>b. fst b = fst a) as) = thread_script (fst a)"
    using assms unfolding main_schedule_def by blast
  ultimately show ?thesis by (simp only:)
qed

lemma main_schedule_facts:
  assumes "main_schedule as"
  shows "schedule_ok 5 as" "\<And>t. t < 5 \<Longrightarrow> closes t as True" "schedule_bytes as < 2 ^ 64"
    "\<And>t. t < 5 \<Longrightarrow> payload_of t as = thread_text t"
proof -
  have th: "\<And>a. a \<in> set as \<Longrightarrow> fst a < 5" and script: "\<And>t. t < 5 \<Longrightarrow> map snd (filter (\<lambda>a. fst a = t) as) = thread_script t"
    using assms by (simp_all add: main_schedule_def)
  have small: "length (op_payload (snd a)) \<le> 200000" if "a \<in> set as" for a
  proof -
    from main_schedule_script [OF assms that]
    consider i where "snd a = Append (model_message (fst a) (i + MESSAGES * fst a))" "i < MESSAGES" | "snd a = Finish"
      by (auto simp: thread_script_def)
    then show ?thesis
    proof cases
      case 1
      have "i + MESSAGES * fst a < 150000" using 1(2) th [OF that] by (simp add: MESSAGES_def)
      then show ?thesis using 1(1) length_model_message [of "fst a" "i + MESSAGES * fst a"] th [OF that] by simp
    qed simp
  qed
  show "schedule_ok 5 as"
    using th small by (fastforce simp: schedule_ok_def list_all_iff)
  show "closes t as True" if "t < 5" for t
  proof -
    let ?f = "filter (\<lambda>a. fst a = t) as"
    have f: "map snd ?f = thread_script t" using script [OF that] .
    then have "?f \<noteq> []" by (auto simp: thread_script_def)
    then obtain bs b where b: "?f = bs @ [b]" by (metis rev_exhaust)
    have "b \<in> set ?f" using b by simp
    then have "fst b = t" by simp
    moreover have "snd b = Finish" using f b by (simp add: thread_script_def)
    ultimately have "b = (t, Finish)" by (metis prod.collapse)
    then show ?thesis by (subst closes_filter) (simp add: b)
  qed
  show "payload_of t as = thread_text t" if "t < 5" for t
    unfolding payload_of_filter script [OF that]
    by (simp add: thread_script_def thread_text_def comp_def)
  have lens: "length (filter (\<lambda>a. fst a = t) as) = MESSAGES + 1" if "t < 5" for t
    using arg_cong [OF script [OF that], of length] by (simp add: thread_script_def)
  have "length as = (\<Sum>t<(5::nat). length (filter (\<lambda>a. fst a = t) as))" by (rule length_filters) (use th in blast)
  also have "\<dots> = (\<Sum>t<(5::nat). MESSAGES + 1)" by (rule sum.cong) (simp_all add: lens)
  finally have len: "length as = 5 * (MESSAGES + 1)" by simp
  have "length (concat (map (\<lambda>a. op_payload (snd a)) as)) \<le> length as * 200000"
    using small by (induction as) (auto simp: add_mono)
  then show "schedule_bytes as < 2 ^ 64" using len by (simp add: schedule_bytes_def MESSAGES_def)
qed

text \<open>The end of every run of the five threads.\<close>

lemma main_run:
  assumes "kernel_ok 256 U K" and "kernel_reliable U K" and "calls_ok U" and "fleet_started K F"
    and "length (fl_writers F) = 5" and "main_schedule as"
  obtains F' where "run_fleet pf U as F = Some (Done (Inr (), F'))"
    and "\<And>writes rs. mset writes = landed_chunks K F' \<Longrightarrow> mset rs = mset (fl_ranges F') \<Longrightarrow>
      read_back (perform writes []) rs = Inr (map (\<lambda>c. snd (snd c)) (packed_log as))
      \<and> perform writes [] = concat (map (\<lambda>c. snd (snd c)) (packed_log as))"
    and "\<forall>t < 5. thread_bytes t (packed_log as) = thread_text t"
proof -
  note m = main_schedule_facts [OF assms(6)]
  have s: "schedule_ok (length (fl_writers F)) as" "\<forall>t < length (fl_writers F). closes t as True"
    using m(1,2) assms(5) by simp_all
  have small: "fst (fold pack_step as (0, [], \<lambda>_. [])) < 2 ^ 64"
    using packed_end [OF s(1)] m(3) by (simp add: schedule_bytes_def)
  have "\<exists>r F'. run_fleet pf U as F = Some (Done (r, F')) \<and> (calls_ok U \<longrightarrow> r = Inr ())"
    by (rule returns_no_error
        [OF run_fleet_returns [OF assms(1) fleet_started_inv(1) [OF assms(4)] s(1) small]])
  then obtain F' where run: "run_fleet pf U as F = Some (Done (Inr (), F'))" using assms(3) by blast
  show thesis
    using that [OF run] fleet_read_back [OF assms(1,2,4) s m(3) run] fleet_end(3) [OF assms(1,4) s m(3) run] m(4)
    by simp
qed

text \<open>
  What \<open>main\<close> of \<^verbatim>\<open>model.rs\<close> verifies holds. For every interleaving of the five threads' 30 000
  appends and finishes, every order in which the kernel performs the writes, and both build profiles: the
  run returns without error, the sorted ranges read back without error, their buffers
  joined are the whole file, and the file holds each thread's messages, complete and in order.
\<close>
theorem main_reads_back:
  assumes "kernel_ok 256 U K" and "kernel_reliable U K" and "calls_ok U" and "fleet_started K F"
    and "length (fl_writers F) = 5" and "main_schedule as"
  shows "\<exists>F'. run_fleet pf U as F = Some (Done (Inr (), F'))
    \<and> (\<forall>writes. mset writes = landed_chunks K F' \<longrightarrow>
         (\<exists>bufs. read_back (perform writes []) (fl_ranges F') = Inr bufs \<and> perform writes [] = concat bufs
            \<and> bufs = map (\<lambda>c. snd (snd c)) (packed_log as)))
    \<and> (\<forall>t < 5. thread_bytes t (packed_log as) = thread_text t)"
proof -
  obtain F' where "run_fleet pf U as F = Some (Done (Inr (), F'))"
    "\<And>writes rs. mset writes = landed_chunks K F' \<Longrightarrow> mset rs = mset (fl_ranges F') \<Longrightarrow>
      read_back (perform writes []) rs = Inr (map (\<lambda>c. snd (snd c)) (packed_log as))
      \<and> perform writes [] = concat (map (\<lambda>c. snd (snd c)) (packed_log as))"
    "\<forall>t < 5. thread_bytes t (packed_log as) = thread_text t"
    using main_run [OF assms] by blast
  then show ?thesis by (metis (no_types, lifting))
qed

definition five_writers :: "demo_kernel fleet" where
  "five_writers = demo_fleet\<lparr>fl_writers := replicate 5 demo_writer\<rparr>"

lemma five_writers_started: "fleet_started dk_view five_writers"
  using demo_fleet_started by (auto simp: fleet_started_def five_writers_def demo_fleet_def)

text \<open>The threads one after the other.\<close>

lemma main_schedule_exists:
  "main_schedule (concat (map (\<lambda>u. map (Pair u) (thread_script u)) [0, 1, 2, 3, 4]))"
  unfolding main_schedule_def filter_scripts by (auto simp: less_Suc_eq numeral_eq_Suc comp_def)

theorem main_reads_back_witness:
  "\<exists>as F'. main_schedule as
     \<and> run_fleet Release (dk_api 256 False (\<lambda>e. int (length (sqe_bytes e)))) as five_writers = Some (Done (Inr (), F'))
     \<and> thread_bytes 4 (packed_log as) = thread_text 4"
proof -
  have five: "length (fl_writers five_writers) = 5" by (simp add: five_writers_def)
  show ?thesis
    using main_schedule_exists
      main_reads_back [OF dk_kernel_ok dk_kernel_reliable dk_calls_ok five_writers_started five
        main_schedule_exists, of Release]
    by fastforce
qed

end
