(* ===== verification/Writer_Interleaving.thy ===== *)
theory Writer_Interleaving
  imports Writer_Threads Writer_Main
begin

text \<open>
  The threads of \<open>main\<close> in \<^verbatim>\<open>model.rs\<close>, interleaved at every access to the counter they share,
  and why whole operations in the order of these accesses are enough: every run of the
  threads is a run of \<open>run_fleet\<close> on an interleaving of their operations.
\<close>

section \<open>The threads\<close>

text \<open>
  A thread is outside the writer's methods, or inside one with the code it still has to
  run. It works off its operations in order; what \<open>finish\<close> returns is collected when it returns.
  An operation that returns an error ends its thread with it, and so does a panic; one whose
  behaviour is undefined, or that never returns, has no next step.
\<close>

datatype 'u thread_at =
    Outside "'u RingWriter"
  | Inside "(CompletedRange list, 'u) writer_result code"
  | Failed io_error
  | Panicked

record 'u threads =
  th_offset :: u64
  th_at :: "'u thread_at list"
  th_todo :: "writer_op list list"
  th_ranges :: "CompletedRange list"

inductive thread_step :: "profile \<Rightarrow> 'u uring_api \<Rightarrow> nat \<Rightarrow> 'u threads \<Rightarrow> 'u threads \<Rightarrow> bool"
  for pf :: profile and U :: "'u uring_api" and t :: nat where
  call: "t < length (th_at s) \<Longrightarrow> th_at s ! t = Outside w \<Longrightarrow> th_todo s ! t = op # ops \<Longrightarrow>
    thread_step pf U t s (s\<lparr>th_at := (th_at s)[t := Inside (op_code pf U op w)], th_todo := (th_todo s)[t := ops]\<rparr>)"
| access: "t < length (th_at s) \<Longrightarrow> th_at s ! t = Inside (FetchAdd n k) \<Longrightarrow>
    thread_step pf U t s (s\<lparr>th_offset := th_offset s + n, th_at := (th_at s)[t := Inside (k (th_offset s))]\<rparr>)"
| return: "t < length (th_at s) \<Longrightarrow> th_at s ! t = Inside (Return (Some (Done (Inr ranges, w)))) \<Longrightarrow>
    thread_step pf U t s (s\<lparr>th_at := (th_at s)[t := Outside w], th_ranges := th_ranges s @ ranges\<rparr>)"
| fail: "t < length (th_at s) \<Longrightarrow> th_at s ! t = Inside (Return (Some (Done (Inl e, w)))) \<Longrightarrow>
    thread_step pf U t s (s\<lparr>th_at := (th_at s)[t := Failed e], th_todo := (th_todo s)[t := []]\<rparr>)"
| panic: "t < length (th_at s) \<Longrightarrow> th_at s ! t = Inside (Return (Some Panic)) \<Longrightarrow>
    thread_step pf U t s (s\<lparr>th_at := (th_at s)[t := Panicked], th_todo := (th_todo s)[t := []]\<rparr>)"

definition threads_start :: "'u fleet \<Rightarrow> writer_op list list \<Rightarrow> 'u threads" where
  "threads_start F scripts =
     \<lparr>th_offset = fl_offset F, th_at = map Outside (fl_writers F), th_todo = scripts, th_ranges = []\<rparr>"

text \<open>A run, with the number of its steps.\<close>

inductive thread_run :: "profile \<Rightarrow> 'u uring_api \<Rightarrow> 'u threads \<Rightarrow> nat \<Rightarrow> 'u threads \<Rightarrow> bool"
  for pf :: profile and U :: "'u uring_api" and s0 :: "'u threads" where
  start: "thread_run pf U s0 0 s0"
| step: "thread_run pf U s0 n s \<Longrightarrow> thread_step pf U t s s' \<Longrightarrow> thread_run pf U s0 (Suc n) s'"

definition thread_done :: "'u threads \<Rightarrow> nat \<Rightarrow> bool" where
  "thread_done s t \<longleftrightarrow> (\<exists>w. th_at s ! t = Outside w) \<and> th_todo s ! t = []"

primrec thread_writer :: "'u thread_at \<Rightarrow> 'u RingWriter" where
  "thread_writer (Outside w) = w"

definition as_fleet :: "'u threads \<Rightarrow> 'u fleet" where
  "as_fleet s = \<lparr>fl_offset = th_offset s, fl_writers = map thread_writer (th_at s), fl_ranges = th_ranges s\<rparr>"

section \<open>Interleavings of scripts\<close>

abbreviation of_thread :: "nat \<Rightarrow> (nat \<times> writer_op) list \<Rightarrow> writer_op list" where
  "of_thread t as \<equiv> map snd (filter (\<lambda>a. fst a = t) as)"

definition interleaves :: "writer_op list list \<Rightarrow> (nat \<times> writer_op) list \<Rightarrow> bool" where
  "interleaves scripts as \<longleftrightarrow>
     (\<forall>a \<in> set as. fst a < length scripts) \<and> (\<forall>t < length scripts. of_thread t as = scripts ! t)"

definition within :: "writer_op list list \<Rightarrow> (nat \<times> writer_op) list \<Rightarrow> bool" where
  "within scripts as \<longleftrightarrow>
     (\<forall>a \<in> set as. fst a < length scripts) \<and> (\<forall>t < length scripts. \<exists>rest. of_thread t as @ rest = scripts ! t)"

definition ops_ok :: "writer_op list list \<Rightarrow> bool" where
  "ops_ok scripts \<longleftrightarrow> (\<forall>ops \<in> set scripts. \<forall>op \<in> set ops. length (op_payload op) \<le> 1048576)"

definition script_bytes :: "writer_op list list \<Rightarrow> nat" where
  "script_bytes scripts = (\<Sum>t<length scripts. length (concat (map op_payload (scripts ! t))))"

lemma schedule_bytes_threads:
  "\<forall>a \<in> set as. fst a < N \<Longrightarrow> schedule_bytes as = (\<Sum>t<N. length (concat (map op_payload (of_thread t as))))"
proof (induction as)
  case (Cons a as)
  have "(\<Sum>t<N. length (concat (map op_payload (of_thread t (a # as)))))
      = (\<Sum>t<N. length (concat (map op_payload (of_thread t as))) + (if t = fst a then length (op_payload (snd a)) else 0))"
    by (rule sum.cong) auto
  also have "\<dots> = schedule_bytes as + length (op_payload (snd a))"
    using Cons by (simp add: sum.distrib)
  finally show ?case by (simp add: schedule_bytes_def)
qed (simp add: schedule_bytes_def)

lemma within_schedule:
  assumes "within scripts as" and "ops_ok scripts" and "script_bytes scripts < 2 ^ 64"
  shows "schedule_ok (length scripts) as" and "schedule_bytes as < 2 ^ 64"
proof -
  have th: "\<forall>a \<in> set as. fst a < length scripts"
    and pre: "\<And>t. t < length scripts \<Longrightarrow> \<exists>rest. of_thread t as @ rest = scripts ! t"
    using assms(1) by (simp_all add: within_def)
  have "length (op_payload op) \<le> 1048576" if "(t, op) \<in> set as" for t op
  proof -
    have t: "t < length scripts" using th that by fastforce
    have "op \<in> set (of_thread t as)" using that by force
    then have "op \<in> set (scripts ! t)" using pre [OF t] by (metis Un_iff set_append)
    then show ?thesis using assms(2) t by (auto simp: ops_ok_def)
  qed
  then show "schedule_ok (length scripts) as" using th by (auto simp: schedule_ok_def list_all_iff)
  have "schedule_bytes as \<le> script_bytes scripts"
    unfolding schedule_bytes_threads [OF th] script_bytes_def
  proof (rule sum_mono)
    fix t
    assume "t \<in> {..<length scripts}"
    then obtain rest where "of_thread t as @ rest = scripts ! t" using pre by blast
    then show "length (concat (map op_payload (of_thread t as))) \<le> length (concat (map op_payload (scripts ! t)))"
      by (metis concat_append le_add1 length_append map_append)
  qed
  then show "schedule_bytes as < 2 ^ 64" using assms(3) by simp
qed

section \<open>One more operation of the fleet\<close>

lemma run_fleet_append: "run_fleet pf U (as @ bs) F = try_run (run_fleet pf U as F) (\<lambda>_. run_fleet pf U bs)"
proof (induction as arbitrary: F)
  case (Cons a as)
  consider "fleet_step pf U a F = None" | "fleet_step pf U a F = Some Panic" | "fleet_step pf U a F = Some Undefined"
    | e G where "fleet_step pf U a F = Some (Done (Inl e, G))" | x G where "fleet_step pf U a F = Some (Done (Inr x, G))"
    by (metis not_None_eq outcome.exhaust prod.exhaust sum.exhaust)
  then show ?case by cases (simp_all add: Cons)
qed simp

text \<open>Writers that differ in the stale copy of the counter only.\<close>

definition same_writer :: "'u RingWriter \<Rightarrow> 'u RingWriter \<Rightarrow> bool" where
  "same_writer w v \<longleftrightarrow> set_offset 0 w = set_offset 0 v"

lemma same_writer_offset: "same_writer w v \<Longrightarrow> set_offset c w = set_offset c v"
  unfolding same_writer_def by (metis counter_sel(9))

lemma same_writer_simps [simp]: "same_writer w w" "same_writer w (set_offset c w)"
  by (simp_all add: same_writer_def)

text \<open>The hypotheses under which the fleet always returns.\<close>

definition launched :: "'u uring_api \<Rightarrow> 'u kernel_view \<Rightarrow> 'u fleet \<Rightarrow> writer_op list list \<Rightarrow> bool" where
  "launched U K F scripts \<longleftrightarrow> kernel_ok 256 U K \<and> calls_ok U \<and> fleet_started K F
     \<and> length scripts = length (fl_writers F) \<and> ops_ok scripts \<and> script_bytes scripts < 2 ^ 64"

lemma launched_runs:
  assumes "launched U K F scripts" and "within scripts as"
  obtains F' where "run_fleet pf U as F = Some (Done (Inr (), F'))" and "length (fl_writers F') = length scripts"
proof -
  have l: "kernel_ok 256 U K" "calls_ok U" "fleet_started K F" "length scripts = length (fl_writers F)"
    "ops_ok scripts" "script_bytes scripts < 2 ^ 64"
    using assms(1) by (simp_all add: launched_def)
  note w = within_schedule [OF assms(2) l(5,6)]
  have "fst (fold pack_step as (0, [], \<lambda>_. [])) < 2 ^ 64"
    using packed_end [OF w(1)] w(2) by (simp add: schedule_bytes_def)
  from run_fleet_returns [OF l(1) fleet_started_inv(1) [OF l(3)] w(1) [unfolded l(4)] this, of pf]
  obtain r F' where "run_fleet pf U as F = Some (Done (r, F'))"
    "case r of Inl _ \<Rightarrow> \<not> calls_ok U | Inr _ \<Rightarrow> length (fl_writers F') = length (fl_writers F)"
    unfolding returns_def by (cases "run_fleet pf U as F") (force split: sum.splits)+
  then show thesis using that l(2,4) by (cases r) auto
qed

text \<open>The operation a thread is about to start, run by the fleet as a whole.\<close>

lemma next_operation:
  assumes "launched U K F0 scripts" and "run_fleet pf U as F0 = Some (Done (Inr (), F))"
    and "within scripts (as @ [(t, op)])" and "t < length (fl_writers F)" and "same_writer w (fl_writers F ! t)"
  obtains rs w' where "alone (op_code pf U op w) (fl_offset F) = Some (Done (Inr rs, w'))"
    and "run_fleet pf U (as @ [(t, op)]) F0 = Some (Done (Inr (),
      F\<lparr>fl_offset := rw_file_offset w', fl_writers := (fl_writers F)[t := w'], fl_ranges := fl_ranges F @ rs\<rparr>))"
proof -
  obtain F' where F': "run_fleet pf U (as @ [(t, op)]) F0 = Some (Done (Inr (), F'))"
    by (rule launched_runs [OF assms(1,3)])
  let ?m = "writer_step pf U op ((fl_writers F ! t)\<lparr>rw_file_offset := fl_offset F\<rparr>)"
  have alone: "alone (op_code pf U op w) (fl_offset F) = ?m"
    using same_writer_offset [OF assms(5), of "fl_offset F"] by (simp add: op_code_alone set_offset_def)
  have run: "run_fleet pf U (as @ [(t, op)]) F0 = try_run (fleet_step pf U (t, op) F) (\<lambda>_. run_fleet pf U [])"
    by (simp only: run_fleet_append assms(2) try_run_simps) (simp add: try_run_def bind_run_def split: option.split outcome.split sum.split)
  consider "?m = None" | "?m = Some Panic" | "?m = Some Undefined"
    | e v where "?m = Some (Done (Inl e, v))" | rs v where "?m = Some (Done (Inr rs, v))"
    by (metis not_None_eq outcome.exhaust prod.exhaust sum.exhaust)
  then show thesis
    by cases (use F' run assms(4) alone in \<open>auto simp: fleet_step_def Let_def intro: that\<close>)
qed

section \<open>The simulation\<close>

text \<open>
  An operation takes effect when it accesses the counter, and when it is called if it does
  not access it. Until then it is still to be run by the fleet (third argument), after it the
  ranges it will return are (fourth argument) in the fleet's collection already.
\<close>

inductive stage ::
  "profile \<Rightarrow> 'u uring_api \<Rightarrow> 'u RingWriter \<Rightarrow> 'u thread_at \<Rightarrow> writer_op list \<Rightarrow> CompletedRange list \<Rightarrow> bool"
  for pf :: profile and U :: "'u uring_api" and v :: "'u RingWriter" where
  outside: "same_writer w v \<Longrightarrow> stage pf U v (Outside w) [] []"
| before: "same_writer w v \<Longrightarrow> op_code pf U op w = FetchAdd n k \<Longrightarrow> stage pf U v (Inside (FetchAdd n k)) [op] []"
| after: "same_writer w v \<Longrightarrow> stage pf U v (Inside (Return (Some (Done (Inr rs, w))))) [] rs"

inductive_simps stage_Outside: "stage pf U v (Outside w) pend owed"
inductive_simps stage_FetchAdd: "stage pf U v (Inside (FetchAdd n k)) pend owed"
inductive_simps stage_Return: "stage pf U v (Inside (Return r)) pend owed"

definition serial ::
  "profile \<Rightarrow> 'u uring_api \<Rightarrow> 'u fleet \<Rightarrow> writer_op list list \<Rightarrow> 'u threads \<Rightarrow> (nat \<times> writer_op) list \<Rightarrow> 'u fleet
     \<Rightarrow> (nat \<Rightarrow> writer_op list) \<Rightarrow> (nat \<Rightarrow> CompletedRange list) \<Rightarrow> bool" where
  "serial pf U F0 scripts s as F pend owed \<longleftrightarrow>
     run_fleet pf U as F0 = Some (Done (Inr (), F)) \<and> th_offset s = fl_offset F
     \<and> length (fl_writers F) = length scripts \<and> length (th_at s) = length scripts \<and> length (th_todo s) = length scripts
     \<and> (\<forall>a \<in> set as. fst a < length scripts)
     \<and> (\<forall>t < length scripts. stage pf U (fl_writers F ! t) (th_at s ! t) (pend t) (owed t)
          \<and> of_thread t as @ pend t @ th_todo s ! t = scripts ! t)
     \<and> mset (fl_ranges F) = mset (th_ranges s) + (\<Sum>t<length scripts. mset (owed t))"

lemma serial_start:
  assumes "launched U K F scripts"
  shows "serial pf U F scripts (threads_start F scripts) [] F (\<lambda>_. []) (\<lambda>_. [])"
  using assms by (simp add: serial_def threads_start_def launched_def fleet_started_def stage_Outside)

text \<open>An operation takes effect.\<close>

lemma serial_commit:
  assumes L: "launched U K F0 scripts" and ser: "serial pf U F0 scripts s as F pend owed" and t: "t < length scripts"
    and w: "same_writer w (fl_writers F ! t)" and "owed t = []"
    and script: "of_thread t as @ op # ops = scripts ! t"
    and run: "exec (op_code pf U op w) (th_offset s) = (r, c)"
  shows "\<exists>F' rs. serial pf U F0 scripts
    (s\<lparr>th_offset := c, th_at := (th_at s)[t := Inside (Return r)], th_todo := (th_todo s)[t := ops]\<rparr>)
    (as @ [(t, op)]) F' (pend(t := [])) (owed(t := rs))"
proof -
  have S: "run_fleet pf U as F0 = Some (Done (Inr (), F))" "th_offset s = fl_offset F"
    "length (fl_writers F) = length scripts" "\<forall>a \<in> set as. fst a < length scripts"
    "length (th_at s) = length scripts" "length (th_todo s) = length scripts"
    "\<And>u. u < length scripts \<Longrightarrow> stage pf U (fl_writers F ! u) (th_at s ! u) (pend u) (owed u)
          \<and> of_thread u as @ pend u @ th_todo s ! u = scripts ! u"
    and R: "mset (fl_ranges F) = mset (th_ranges s) + (\<Sum>u<length scripts. mset (owed u))"
    using ser by (simp_all add: serial_def)
  have "\<exists>rest. of_thread u (as @ [(t, op)]) @ rest = scripts ! u" if "u < length scripts" for u
    using S(7) [OF that] script by auto
  then have wi: "within scripts (as @ [(t, op)])" using S(4) t by (simp add: within_def)
  have tF: "t < length (fl_writers F)" using t S(3) by simp
  obtain rs w' where alone: "alone (op_code pf U op w) (fl_offset F) = Some (Done (Inr rs, w'))"
    and F': "run_fleet pf U (as @ [(t, op)]) F0 = Some (Done (Inr (),
      F\<lparr>fl_offset := rw_file_offset w', fl_writers := (fl_writers F)[t := w'], fl_ranges := fl_ranges F @ rs\<rparr>))"
    by (rule next_operation [OF L S(1) wi tF w])
  obtain w'' where r: "r = Some (Done (Inr rs, w''))" "w' = set_offset c w''"
    using alone run S(2) by (auto simp: alone_def at_offset_eq_Done)
  have "(\<Sum>u<length scripts. mset ((owed(t := rs)) u)) = (\<Sum>u<length scripts. mset (owed u)) + mset rs"
    using sum_update_thread [OF t, of mset owed rs] assms(5) by simp
  then have "serial pf U F0 scripts
    (s\<lparr>th_offset := c, th_at := (th_at s)[t := Inside (Return r)], th_todo := (th_todo s)[t := ops]\<rparr>)
    (as @ [(t, op)]) (F\<lparr>fl_offset := rw_file_offset w', fl_writers := (fl_writers F)[t := w'], fl_ranges := fl_ranges F @ rs\<rparr>)
    (pend(t := [])) (owed(t := rs))"
    unfolding serial_def using F' S(3-7) R t script r
    by (auto simp: nth_list_update stage_Return)
  then show ?thesis by blast
qed

lemma serial_step:
  assumes L: "launched U K F0 scripts" and ser: "serial pf U F0 scripts s as F pend owed"
    and st: "thread_step pf U t s s'"
  shows "\<exists>as F pend owed. serial pf U F0 scripts s' as F pend owed"
proof -
  have N: "length (th_at s) = length scripts"
    and at: "\<And>u. u < length scripts \<Longrightarrow> stage pf U (fl_writers F ! u) (th_at s ! u) (pend u) (owed u)"
    and script: "\<And>u. u < length scripts \<Longrightarrow> of_thread u as @ pend u @ th_todo s ! u = scripts ! u"
    using ser by (simp_all add: serial_def)
  show ?thesis
    using st
  proof cases
    case (call w op ops)
    have t: "t < length scripts" using call(2) N by simp
    have w: "same_writer w (fl_writers F ! t)" "pend t = []" "owed t = []"
      using at [OF t] call(3) by (simp_all add: stage_Outside)
    have sc: "of_thread t as @ op # ops = scripts ! t" using script [OF t] w(2) call(4) by simp
    consider r where "op_code pf U op w = Return r" | n k where "op_code pf U op w = FetchAdd n k"
      by (cases "op_code pf U op w")
    then show ?thesis
    proof cases
      case (1 r)
      then have "exec (op_code pf U op w) (th_offset s) = (r, th_offset s)" by simp
      from serial_commit [OF L ser t w(1,3) sc this] show ?thesis by (auto simp: call(1) 1)
    next
      case (2 n k)
      then have "stage pf U (fl_writers F ! t) (Inside (op_code pf U op w)) [op] []"
        using w(1) stage.before by metis
      then have "serial pf U F0 scripts s' as F (pend(t := [op])) (owed(t := []))"
        using ser t sc w(3) by (auto simp: serial_def call(1) nth_list_update fun_upd_idem)
      then show ?thesis by blast
    qed
  next
    case (access n k)
    have t: "t < length scripts" using access(2) N by simp
    obtain w op where w: "same_writer w (fl_writers F ! t)" "op_code pf U op w = FetchAdd n k" "pend t = [op]" "owed t = []"
      using at [OF t] access(3) by (auto simp: stage_FetchAdd)
    obtain g where g: "k = (\<lambda>seen. Return (g seen))"
      using one_access_op [of pf U op w] w(2) by (auto simp: one_access_def)
    have sc: "of_thread t as @ op # th_todo s ! t = scripts ! t" using script [OF t] w(3) by simp
    have "exec (op_code pf U op w) (th_offset s) = (g (th_offset s), th_offset s + n)" by (simp add: w(2) g)
    from serial_commit [OF L ser t w(1,4) sc this] show ?thesis by (auto simp: access(1) g)
  next
    case (return rs w)
    have t: "t < length scripts" using return(2) N by simp
    have w: "same_writer w (fl_writers F ! t)" "pend t = []" "owed t = rs"
      using at [OF t] return(3) by (simp_all add: stage_Return)
    have "(\<Sum>u<length scripts. mset ((owed(t := [])) u)) + mset rs = (\<Sum>u<length scripts. mset (owed u))"
      using sum_update_thread [OF t, of mset owed "[]"] w(3) by simp
    then have "serial pf U F0 scripts s' as F pend (owed(t := []))"
      using ser t w by (auto simp: serial_def return(1) nth_list_update stage_Outside ac_simps)
    then show ?thesis by blast
  next
    case (fail e w)
    then show ?thesis using at [of t] N by (simp add: stage_Return)
  next
    case panic
    then show ?thesis using at [of t] N by (simp add: stage_Return)
  qed
qed

lemma serial_run:
  assumes "launched U K F scripts" and "thread_run pf U (threads_start F scripts) n s"
  shows "\<exists>as F' pend owed. serial pf U F scripts s as F' pend owed"
  using assms(2)
proof (induction rule: thread_run.induct)
  case start
  then show ?case using serial_start [OF assms(1)] by blast
next
  case (step n s t s')
  then show ?case using serial_step [OF assms(1)] by blast
qed

section \<open>Progress\<close>

primrec thread_left :: "'u thread_at \<Rightarrow> nat" where
  "thread_left (Outside w) = 0"
| "thread_left (Inside m) = (case m of Return _ \<Rightarrow> 1 | FetchAdd _ _ \<Rightarrow> 2)"
| "thread_left (Failed e) = 0"
| "thread_left Panicked = 0"

definition steps_left :: "nat \<Rightarrow> 'u threads \<Rightarrow> nat" where
  "steps_left N s = (\<Sum>t<N. thread_left (th_at s ! t) + 3 * length (th_todo s ! t))"

lemma steps_left_start: "steps_left (length (fl_writers F)) (threads_start F scripts)
    = 3 * (\<Sum>t<length (fl_writers F). length (scripts ! t))"
  by (simp add: steps_left_def threads_start_def sum_distrib_left)

text \<open>Every step brings its thread closer to the end.\<close>

lemma step_decreases:
  assumes "serial pf U F0 scripts s as F pend owed" and "thread_step pf U t s s'"
  shows "steps_left (length scripts) s' < steps_left (length scripts) s"
proof -
  have N: "length (th_at s) = length scripts" "length (th_todo s) = length scripts"
    and at: "\<And>u. u < length scripts \<Longrightarrow> stage pf U (fl_writers F ! u) (th_at s ! u) (pend u) (owed u)"
    using assms(1) by (simp_all add: serial_def)
  have t: "t < length scripts" using assms(2) N(1) by cases simp_all
  have others: "th_at s' ! u = th_at s ! u" "th_todo s' ! u = th_todo s ! u" if "u \<noteq> t" for u
    using assms(2) that by (cases; simp)+
  have own: "thread_left (th_at s' ! t) + 3 * length (th_todo s' ! t) < thread_left (th_at s ! t) + 3 * length (th_todo s ! t)"
    using assms(2)
  proof cases
    case (access n k)
    obtain w op where "op_code pf U op w = FetchAdd n k" using at [OF t] access(3) by (auto simp: stage_FetchAdd)
    then obtain g where "k = (\<lambda>seen. Return (g seen))"
      using one_access_op [of pf U op w] by (auto simp: one_access_def)
    then show ?thesis using access t N by simp
  qed (use t N in \<open>simp_all split: code.split\<close>)
  have "t \<in> {..<length scripts}" using t by simp
  then show ?thesis
    unfolding steps_left_def using own others
    by (intro sum_strict_mono_ex1) (metis finite_lessThan less_imp_le order_refl)+
qed

lemma run_length:
  assumes "launched U K F scripts" and "thread_run pf U (threads_start F scripts) n s"
  shows "n + steps_left (length scripts) s \<le> 3 * (\<Sum>t<length scripts. length (scripts ! t))"
  using assms(2)
proof (induction rule: thread_run.induct)
  case start
  then show ?case
    using steps_left_start [of F scripts] assms(1) by (simp add: launched_def)
next
  case (step n s t s')
  obtain as F' pend owed where "serial pf U F scripts s as F' pend owed"
    using serial_run [OF assms(1) step(1)] by blast
  from step_decreases [OF this step(2)] step(3) show ?case by simp
qed

text \<open>No thread waits for another.\<close>

lemma thread_can_step:
  assumes "serial pf U F0 scripts s as F pend owed" and "t < length scripts" and "\<not> thread_done s t"
  shows "\<exists>s'. thread_step pf U t s s'"
proof -
  have t: "t < length (th_at s)" and at: "stage pf U (fl_writers F ! t) (th_at s ! t) (pend t) (owed t)"
    using assms(1,2) by (simp_all add: serial_def)
  show ?thesis
    using at
  proof cases
    case (outside w)
    then obtain op ops where "th_todo s ! t = op # ops"
      using assms(3) unfolding thread_done_def by (cases "th_todo s ! t") auto
    then show ?thesis using thread_step.call [OF t outside(1)] by blast
  next
    case (before w op n k)
    then show ?thesis using thread_step.access [OF t] by blast
  next
    case (after w)
    then show ?thesis using thread_step.return [OF t] by blast
  qed
qed

text \<open>What all threads have done when they are done.\<close>

lemma serial_done:
  assumes "serial pf U F0 scripts s as F pend owed" and "\<forall>t < length scripts. thread_done s t"
  shows "interleaves scripts as" and "run_fleet pf U as F0 = Some (Done (Inr (), F))"
    and "fl_offset (as_fleet s) = fl_offset F" and "mset (fl_ranges (as_fleet s)) = mset (fl_ranges F)"
    and "map (set_offset 0) (fl_writers (as_fleet s)) = map (set_offset 0) (fl_writers F)"
proof -
  have S: "run_fleet pf U as F0 = Some (Done (Inr (), F))" "th_offset s = fl_offset F"
    "length (fl_writers F) = length scripts" "length (th_at s) = length scripts"
    "\<forall>a \<in> set as. fst a < length scripts"
    and at: "\<And>u. u < length scripts \<Longrightarrow> stage pf U (fl_writers F ! u) (th_at s ! u) (pend u) (owed u)"
    and script: "\<And>u. u < length scripts \<Longrightarrow> of_thread u as @ pend u @ th_todo s ! u = scripts ! u"
    and R: "mset (fl_ranges F) = mset (th_ranges s) + (\<Sum>u<length scripts. mset (owed u))"
    using assms(1) by (simp_all add: serial_def)
  have fin: "\<exists>w. th_at s ! u = Outside w \<and> same_writer w (fl_writers F ! u)" "pend u = []" "owed u = []" "th_todo s ! u = []"
    if "u < length scripts" for u
    using at [OF that] assms(2) that by (auto simp: thread_done_def stage_Outside)
  show "run_fleet pf U as F0 = Some (Done (Inr (), F))" using S(1) .
  show "interleaves scripts as" using S(5) script fin(2,4) by (simp add: interleaves_def)
  show "fl_offset (as_fleet s) = fl_offset F" by (simp add: as_fleet_def S(2))
  show "mset (fl_ranges (as_fleet s)) = mset (fl_ranges F)" using R fin(3) by (simp add: as_fleet_def)
  show "map (set_offset 0) (fl_writers (as_fleet s)) = map (set_offset 0) (fl_writers F)"
    using S(3,4) fin(1) by (intro nth_equalityI) (fastforce simp: as_fleet_def same_writer_def)+
qed

text \<open>Every run can be continued to the end.\<close>

lemma runs_to_end:
  assumes "launched U K F scripts" and "thread_run pf U (threads_start F scripts) n s"
  shows "\<exists>m s'. thread_run pf U (threads_start F scripts) m s' \<and> (\<forall>t < length scripts. thread_done s' t)"
  using assms(2)
proof (induction "steps_left (length scripts) s" arbitrary: n s rule: less_induct)
  case less
  obtain as F' pend owed where ser: "serial pf U F scripts s as F' pend owed"
    using serial_run [OF assms(1) less.prems] by blast
  show ?case
  proof (cases "\<forall>t < length scripts. thread_done s t")
    case False
    then obtain t s' where st: "thread_step pf U t s s'" using thread_can_step [OF ser] by blast
    show ?thesis using less.hyps [OF step_decreases [OF ser st] thread_run.step [OF less.prems st]] .
  qed (use less.prems in blast)
qed

text \<open>
  C10: Whole operations are enough. Let any number of new writers share one counter, each working
  off its operations in its own thread, with payloads of at most one megabyte, fewer than
  \<open>2 ^ 64\<close> bytes in all, a kernel that keeps its documented promises and system calls that
  succeed; the threads are interleaved at every access to the counter. At every
  moment every thread that is not done can take its next step, whatever the others do; there are
  at most three steps for each operation; and when all threads are done, the counter,
  the ranges handed out and every writer are what \<open>run_fleet\<close> leaves on some interleaving of
  the threads' operations as a whole. So what is shown for these interleavings holds for the threads.
\<close>
theorem threads_serialize:
  assumes "kernel_ok 256 U K" and "calls_ok U" and "fleet_started K F"
    and "length scripts = length (fl_writers F)" and "ops_ok scripts" and "script_bytes scripts < 2 ^ 64"
    and "thread_run pf U (threads_start F scripts) n s"
  shows "(\<forall>t < length scripts. \<not> thread_done s t \<longrightarrow> (\<exists>s'. thread_step pf U t s s'))
    \<and> n \<le> 3 * (\<Sum>t<length scripts. length (scripts ! t))
    \<and> ((\<forall>t < length scripts. thread_done s t) \<longrightarrow>
        (\<exists>as F'. interleaves scripts as \<and> run_fleet pf U as F = Some (Done (Inr (), F'))
           \<and> th_offset s = fl_offset F' \<and> mset (th_ranges s) = mset (fl_ranges F')
           \<and> map (set_offset 0) (fl_writers (as_fleet s)) = map (set_offset 0) (fl_writers F')))"
proof -
  have L: "launched U K F scripts" using assms(1-6) by (simp add: launched_def)
  obtain as F' pend owed where ser: "serial pf U F scripts s as F' pend owed"
    using serial_run [OF L assms(7)] by blast
  have "n \<le> 3 * (\<Sum>t<length scripts. length (scripts ! t))" using run_length [OF L assms(7)] by simp
  moreover have "\<exists>as F'. interleaves scripts as \<and> run_fleet pf U as F = Some (Done (Inr (), F'))
      \<and> th_offset s = fl_offset F' \<and> mset (th_ranges s) = mset (fl_ranges F')
      \<and> map (set_offset 0) (fl_writers (as_fleet s)) = map (set_offset 0) (fl_writers F')"
    if "\<forall>t < length scripts. thread_done s t"
    using serial_done [OF ser that] by (auto simp: as_fleet_def)
  ultimately show ?thesis using thread_can_step [OF ser] by blast
qed

definition demo_scripts :: "writer_op list list" where
  "demo_scripts = [[Append [1, 2], Flush, Append [3], Finish], [Append [9], Finish]]"

lemma demo_launched: "launched (dk_api 256 False res) dk_view demo_fleet demo_scripts"
proof -
  have "ops_ok demo_scripts" by (simp add: ops_ok_def demo_scripts_def)
  moreover have "script_bytes demo_scripts < 2 ^ 64" by (simp add: script_bytes_def demo_scripts_def)
  moreover have "length demo_scripts = length (fl_writers demo_fleet)" by (simp add: demo_scripts_def demo_fleet_def)
  ultimately show ?thesis using dk_kernel_ok dk_calls_ok demo_fleet_started by (simp add: launched_def)
qed

theorem threads_serialize_witness:
  "\<exists>n s as F'. thread_run Debug (dk_api 256 False (\<lambda>_. 0)) (threads_start demo_fleet demo_scripts) n s
     \<and> (\<forall>t < 2. thread_done s t) \<and> n \<le> 18
     \<and> interleaves demo_scripts as
     \<and> run_fleet Debug (dk_api 256 False (\<lambda>_. 0)) as demo_fleet = Some (Done (Inr (), F'))
     \<and> th_offset s = fl_offset F'"
proof -
  have len: "length demo_scripts = 2" by (simp add: demo_scripts_def)
  have L: "launched (dk_api 256 False (\<lambda>_. 0)) dk_view demo_fleet demo_scripts" by (rule demo_launched)
  obtain n s where run: "thread_run Debug (dk_api 256 False (\<lambda>_. 0)) (threads_start demo_fleet demo_scripts) n s"
    and fin: "\<forall>t < length demo_scripts. thread_done s t"
    using runs_to_end [OF L thread_run.start] by blast
  have l: "length demo_scripts = length (fl_writers demo_fleet)" "ops_ok demo_scripts" "script_bytes demo_scripts < 2 ^ 64"
    using L by (simp_all add: launched_def)
  note ser = threads_serialize [OF dk_kernel_ok dk_calls_ok demo_fleet_started l run]
  have "n \<le> 18" using conjunct1 [OF conjunct2 [OF ser]] by (simp add: demo_scripts_def numeral_2_eq_2)
  then show ?thesis using conjunct2 [OF conjunct2 [OF ser]] fin run unfolding len by blast
qed

end
