(* ===== verification/Text_Lines.thy ===== *)
theory Text_Lines
  imports Message_Format "HOL-Library.Multiset"
begin

text \<open>
  Reading a file line by line, as the last part of \<open>main\<close> in \<^verbatim>\<open>model.rs\<close> does: \<open>BufRead::lines\<close> of
  the standard library (a line ends after a line feed or at the end of the file, it is an
  error unless it is UTF-8, and its line ending is removed), and the \<open>i32\<close> that counts the
  lines read without error.
\<close>

section \<open>UTF-8\<close>

text \<open>
  \<open>str::from_utf8\<close>: the well-formed byte sequences of the Unicode standard, which leave out
  overlong encodings, the surrogates and everything above the last code point.
\<close>

definition utf8_cont :: "u8 \<Rightarrow> bool" where
  "utf8_cont b \<longleftrightarrow> 0x80 \<le> b \<and> b \<le> 0xBF"

text \<open>The second byte after a first byte of a sequence of three or four.\<close>

definition utf8_second :: "u8 \<Rightarrow> u8 \<Rightarrow> bool" where
  "utf8_second a b \<longleftrightarrow>
     (if a = 0xE0 then 0xA0 \<le> b \<and> b \<le> 0xBF
      else if a = 0xED then 0x80 \<le> b \<and> b \<le> 0x9F
      else if a = 0xF0 then 0x90 \<le> b \<and> b \<le> 0xBF
      else if a = 0xF4 then 0x80 \<le> b \<and> b \<le> 0x8F
      else utf8_cont b)"

fun utf8_valid :: "u8 list \<Rightarrow> bool" where
  "utf8_valid [] = True"
| "utf8_valid (a # xs) =
     (if a < 0x80 then utf8_valid xs
      else if 0xC2 \<le> a \<and> a \<le> 0xDF then
        (case xs of b # ys \<Rightarrow> utf8_cont b \<and> utf8_valid ys | _ \<Rightarrow> False)
      else if 0xE0 \<le> a \<and> a \<le> 0xEF then
        (case xs of b # c # ys \<Rightarrow> utf8_second a b \<and> utf8_cont c \<and> utf8_valid ys | _ \<Rightarrow> False)
      else if 0xF0 \<le> a \<and> a \<le> 0xF4 then
        (case xs of b # c # d # ys \<Rightarrow> utf8_second a b \<and> utf8_cont c \<and> utf8_cont d \<and> utf8_valid ys
         | _ \<Rightarrow> False)
      else False)"

lemma utf8_valid_ascii: "\<forall>b \<in> set xs. b < 0x80 \<Longrightarrow> utf8_valid xs"
  by (induction xs) simp_all

text \<open>The two ends of the range of three-byte sequences around the surrogates, and an overlong one.\<close>

lemma utf8_valid_samples:
  "utf8_valid [0xE2, 0x82, 0xAC]" "utf8_valid [0xED, 0x9F, 0xBF]" "\<not> utf8_valid [0xED, 0xA0, 0x80]"
  "\<not> utf8_valid [0xC0, 0x80]" "\<not> utf8_valid [0xE2, 0x82]"
  by (simp_all add: utf8_second_def utf8_cont_def)

section \<open>Lines\<close>

datatype line_error = InvalidData

text \<open>\<open>read_until(b'\n')\<close>: the bytes up to and with the next line feed, and the rest of the file.\<close>

definition read_until_newline :: "u8 list \<Rightarrow> u8 list \<times> u8 list" where
  "read_until_newline xs =
     (case dropWhile (\<lambda>b. b \<noteq> 10) xs of
        [] \<Rightarrow> (xs, [])
      | b # rest \<Rightarrow> (takeWhile (\<lambda>b. b \<noteq> 10) xs @ [b], rest))"

text \<open>What \<open>Lines::next\<close> removes: one line feed, and then one carriage return.\<close>

definition strip_newline :: "u8 list \<Rightarrow> u8 list" where
  "strip_newline l =
     (if l \<noteq> [] \<and> last l = 10 then
        let k = butlast l in if k \<noteq> [] \<and> last k = 13 then butlast k else k
      else l)"

definition read_line :: "u8 list \<Rightarrow> line_error + u8 list" where
  "read_line l = (if utf8_valid l then Inr (strip_newline l) else Inl InvalidData)"

lemma read_until_newline_shorter:
  "read_until_newline (b # bs) = (l, rest) \<Longrightarrow> length rest < length (b # bs)"
  using length_dropWhile_le [of "\<lambda>b. b \<noteq> 10" "b # bs"]
  by (auto simp: read_until_newline_def split: list.splits)

function text_lines :: "u8 list \<Rightarrow> (line_error + u8 list) list" where
  "text_lines [] = []"
| "text_lines (b # bs) =
     (case read_until_newline (b # bs) of (l, rest) \<Rightarrow> read_line l # text_lines rest)"
  by pat_completeness auto
termination by (relation "measure length") (simp, metis in_measure read_until_newline_shorter)

text \<open>
  The counter. \<open>let mut line_count = 0\<close> is an \<open>i32\<close>, whose \<open>+=\<close> overflows like that of every
  integer type.
\<close>

type_synonym i32 = "32 word"

definition add_i32 :: "profile \<Rightarrow> i32 \<Rightarrow> i32 \<Rightarrow> i32 outcome" where
  "add_i32 pf a b =
     (if - (2 ^ 31) \<le> sint a + sint b \<and> sint a + sint b < 2 ^ 31 then Done (a + b)
      else case pf of Debug \<Rightarrow> Panic | Release \<Rightarrow> Done (a + b))"

primrec count_lines :: "profile \<Rightarrow> (line_error + u8 list) list \<Rightarrow> i32 \<Rightarrow> i32 outcome" where
  "count_lines pf [] n = Done n"
| "count_lines pf (l # ls) n =
     (case l of
        Inr _ \<Rightarrow> bind_outcome (add_i32 pf n 1) (count_lines pf ls)
      | Inl _ \<Rightarrow> count_lines pf ls n)"

section \<open>Lemmas\<close>

text \<open>A text of whole lines: what follows it starts a new line.\<close>

definition whole_lines :: "u8 list \<Rightarrow> bool" where
  "whole_lines xs \<longleftrightarrow> xs = [] \<or> last xs = 10"

lemma whole_lines_Nil [simp]: "whole_lines []"
  by (simp add: whole_lines_def)

lemma whole_lines_append [simp]: "whole_lines xs \<Longrightarrow> whole_lines ys \<Longrightarrow> whole_lines (xs @ ys)"
  by (cases "ys = []") (simp_all add: whole_lines_def)

lemma whole_lines_split:
  assumes "whole_lines xs" and "xs \<noteq> []"
  shows "\<exists>l rest. 10 \<notin> set l \<and> xs = l @ 10 # rest \<and> whole_lines rest"
proof -
  have "10 \<in> set xs" using assms last_in_set by (fastforce simp: whole_lines_def)
  then obtain l rest where xs: "xs = l @ 10 # rest" "10 \<notin> set l" by (meson split_list_first)
  then have "whole_lines rest" using assms by (auto simp: whole_lines_def split: if_splits)
  then show ?thesis using xs by blast
qed

lemma text_lines_line:
  assumes "10 \<notin> set l"
  shows "text_lines (l @ 10 # rest) = read_line (l @ [10]) # text_lines rest"
proof -
  have "\<forall>b \<in> set l. b \<noteq> 10" using assms by blast
  then have "read_until_newline (l @ 10 # rest) = (l @ [10], rest)"
    by (simp add: read_until_newline_def takeWhile_append2 dropWhile_append2 split: list.splits)
  then show ?thesis by (cases l) simp_all
qed

lemma text_lines_append: "whole_lines xs \<Longrightarrow> text_lines (xs @ ys) = text_lines xs @ text_lines ys"
proof (induction "length xs" arbitrary: xs rule: less_induct)
  case less
  show ?case
  proof (cases "xs = []")
    case False
    then obtain l rest where "10 \<notin> set l" "xs = l @ 10 # rest" "whole_lines rest"
      using whole_lines_split [OF less.prems] by blast
    then show ?thesis using less.hyps [of rest] by (simp add: text_lines_line)
  qed simp
qed

lemma text_lines_concat:
  "\<forall>xs \<in> set xss. whole_lines xs \<Longrightarrow> text_lines (concat xss) = concat (map text_lines xss)"
  by (induction xss) (simp_all add: text_lines_append)

lemma add_i32_no_overflow: "0 \<le> n \<Longrightarrow> n + 1 < 2 ^ 31 \<Longrightarrow> add_i32 pf (word_of_int n) 1 = Done (word_of_int (n + 1))"
proof -
  assume n: "0 \<le> n" "n + 1 < 2 ^ 31"
  then have "sint (word_of_int n :: i32) = n" "sint (1 :: i32) = 1"
    by (simp_all add: sint_uint uint_word_of_int signed_take_bit_int_eq_self)
  then show ?thesis using n by (simp add: add_i32_def)
qed

text \<open>The counter counts the lines without error, as long as they fit an \<open>i32\<close>.\<close>

lemma count_lines_exact:
  "0 \<le> n \<Longrightarrow> n + int (length (filter (\<lambda>l. \<not> isl l) ls)) < 2 ^ 31 \<Longrightarrow>
     count_lines pf ls (word_of_int n) = Done (word_of_int (n + int (length (filter (\<lambda>l. \<not> isl l) ls))))"
proof (induction ls arbitrary: n)
  case (Cons l ls)
  then show ?case
    using Cons.IH [of "n + 1"] add_i32_no_overflow [of n pf]
    by (cases l) (simp_all add: algebra_simps)
qed simp

end
