(* ===== verification/Model_Main.thy ===== *)
theory Model_Main
  imports Writer_Interleaving Text_Lines
begin

text \<open>
  The end of \<open>main\<close> in \<^verbatim>\<open>model.rs\<close>: joining the five threads, counting their messages,
  reading the ranges back, and the last pass over the file, line by line. What it prints is
  right: every message is a line of the file, and nothing else is.
\<close>

section \<open>The end of main\<close>

text \<open>
  Joining the threads in the order they were spawned. \<open>total_messages\<close> grows by a constant for each of
  them, \<open>all_ranges\<close> by what the thread's \<open>finish\<close> returned; a thread that ended with an error or a
  panic makes \<open>main\<close> panic.
\<close>

type_synonym thread_result = "(io_error + CompletedRange list) outcome"

fun join_all ::
  "profile \<Rightarrow> thread_result list \<Rightarrow> usize \<times> CompletedRange list \<Rightarrow> (usize \<times> CompletedRange list) outcome" where
  "join_all pf [] st = Done st"
| "join_all pf (Undefined # handles) st = Undefined"
| "join_all pf (Panic # handles) st = Panic"
| "join_all pf (Done (Inl e) # handles) st = Panic"
| "join_all pf (Done (Inr ranges) # handles) st =
     bind_outcome (add_usize pf (fst st) 30000) (\<lambda>total_messages. join_all pf handles (total_messages, snd st @ ranges))"

text \<open>
  What \<open>main\<close> prints after the threads: the messages written, the buffers read back in the order of their
  offsets, and the lines logged. \<open>read_file\<close> and \<open>log_file\<close> are the results of the two
  calls of \<open>File::open\<close>, for reading back and for the last pass.
\<close>

definition main_end ::
  "profile \<Rightarrow> io_error + unit \<Rightarrow> io_error + unit \<Rightarrow> u8 list \<Rightarrow> thread_result list
     \<Rightarrow> (io_error + usize \<times> u8 list list \<times> i32) outcome" where
  "main_end pf read_file log_file disk handles =
     bind_outcome (join_all pf handles (0, [])) (\<lambda>(total_messages, all_ranges).
       case read_file of
         Inl e \<Rightarrow> Done (Inl e)
       | Inr _ \<Rightarrow>
           (case read_back disk all_ranges of
              Inl e \<Rightarrow> Done (Inl e)
            | Inr bufs \<Rightarrow>
                (case log_file of
                   Inl e \<Rightarrow> Done (Inl e)
                 | Inr _ \<Rightarrow>
                     bind_outcome (count_lines pf (text_lines disk) 0) (\<lambda>line_count.
                       Done (Inr (total_messages, bufs, line_count))))))"

text \<open>Threads that all came to their end.\<close>

abbreviation all_fine :: "CompletedRange list list \<Rightarrow> thread_result list" where
  "all_fine handles \<equiv> map (\<lambda>ranges. Done (Inr ranges)) handles"

lemma join_all_exact:
  "unat k + 30000 * length handles < 2 ^ 64 \<Longrightarrow>
     join_all pf (all_fine handles) (k, rs) = Done (k + 30000 * word_of_nat (length handles), rs @ concat handles)"
proof (induction handles arbitrary: k rs)
  case (Cons h hs)
  then have "unat (k + 30000) = unat k + 30000"
    using unat_add_no_overflow [of k 30000] by simp
  moreover have "add_usize pf k 30000 = Done (k + 30000)"
    by (rule add_usize_no_overflow) (use Cons.prems in simp)
  ultimately show ?case using Cons by (simp add: algebra_simps)
qed simp

section \<open>The messages as lines\<close>

definition model_line :: "nat \<Rightarrow> nat \<Rightarrow> u8 list" where
  "model_line thread_id message_num =
     ascii ''['' @ padded 2 thread_id @ ascii ''] [Thread-'' @ decimal thread_id @ ascii ''] Message ''
       @ padded 6 message_num"

definition printable :: "u8 \<Rightarrow> bool" where
  "printable b \<longleftrightarrow> 32 \<le> b \<and> b < 0x80"

lemma digit_printable: "k < 10 \<Longrightarrow> printable (48 + word_of_nat k)"
proof -
  assume k: "k < 10"
  then have "unat (word_of_nat k :: u8) = k" by (simp add: unsigned_of_nat take_bit_nat_eq_self)
  then have "unat (48 + word_of_nat k :: u8) = 48 + k" using k by (simp add: unat_word_ariths)
  then show ?thesis using k by (simp add: printable_def word_le_nat_alt word_less_nat_alt)
qed

lemma decimal_printable: "list_all printable (decimal n)"
proof (induction n rule: decimal.induct)
  case (1 n)
  then show ?case
    using digit_printable [of n] digit_printable [of "n mod 10"] by (simp add: decimal.simps [of n])
qed

lemma padded_printable: "list_all printable (padded k n)"
  using decimal_printable [of n] digit_printable [of 0]
  by (auto simp: padded_def list_all_iff simp del: set_replicate_conv_if)

lemma model_line_printable: "list_all printable (model_line t m)"
proof -
  have "list_all printable (ascii ''['')" "list_all printable (ascii ''] [Thread-'')"
    "list_all printable (ascii ''] Message '')"
    by (simp_all add: ascii_def printable_def)
  then show ?thesis by (simp add: model_line_def padded_printable decimal_printable)
qed

lemma model_message_line: "model_message t m = model_line t m @ [10]"
  by (simp add: model_message_def model_line_def)

lemma whole_message [simp]: "whole_lines (model_message t m)"
  by (simp add: model_message_line whole_lines_def)

lemma text_lines_message: "text_lines (model_message t m) = [Inr (model_line t m)]"
proof -
  let ?l = "model_line t m"
  have p: "\<forall>b \<in> set ?l. 32 \<le> b \<and> b < 0x80"
    using model_line_printable [of t m] by (simp add: list_all_iff printable_def)
  then have "10 \<notin> set ?l" by fastforce
  then have "text_lines (?l @ 10 # []) = [read_line (?l @ [10])]" using text_lines_line [of ?l "[]"] by simp
  moreover have "utf8_valid (?l @ [10])" using p by (intro utf8_valid_ascii) auto
  moreover have "strip_newline (?l @ [10]) = ?l"
    using p by (auto simp: strip_newline_def Let_def dest!: last_in_set)
  ultimately show ?thesis by (simp add: model_message_line read_line_def)
qed

section \<open>The lines of a packed file\<close>

text \<open>Threads that append whole lines seal chunks of whole lines.\<close>

lemma pack_all_whole_lines:
  assumes "\<forall>a \<in> set as. fst a < N \<and> whole_lines (op_payload (snd a))"
  shows "case pack_all as of (n, C, cur) \<Rightarrow>
    (\<forall>t. whole_lines (cur t)) \<and> (\<forall>c \<in> set C. fst c < N \<and> whole_lines (snd (snd c)))"
  using assms
proof (induction as rule: rev_induct)
  case (snoc a as)
  obtain t op where a: "a = (t, op)" by fastforce
  obtain n C cur where st: "pack_all as = (n, C, cur)" by (metis prod_cases3)
  have IH: "\<forall>t. whole_lines (cur t)" "\<forall>c \<in> set C. fst c < N \<and> whole_lines (snd (snd c))"
    and new: "t < N" "whole_lines (op_payload op)"
    using snoc by (simp_all add: st a)
  then have "whole_lines (op_leaves op (cur t))" by (cases op) (simp_all add: op_leaves_def)
  then show ?case using IH new by (simp add: pack_all_snoc st a)
qed (simp add: pack_all_def)

lemma mset_concat_upt: "mset (concat (map f [0..<n])) = (\<Sum>t<n. mset (f t))"
  by (induction n) simp_all

text \<open>Such a file has the lines of the threads.\<close>

lemma lines_by_thread:
  "\<forall>c \<in> set C. fst c < N \<and> whole_lines (snd (snd c)) \<Longrightarrow>
     mset (text_lines (concat (map (\<lambda>c. snd (snd c)) C))) = (\<Sum>t<N. mset (text_lines (thread_bytes t C)))"
proof (induction C)
  case (Cons c C)
  let ?ls = "text_lines (snd (snd c))"
  have "mset (text_lines (thread_bytes t (c # C)))
      = (if fst c = t then mset ?ls else {#}) + mset (text_lines (thread_bytes t C))" for t
    using Cons.prems by (simp add: thread_bytes_def text_lines_append)
  then have "(\<Sum>t<N. mset (text_lines (thread_bytes t (c # C))))
      = mset ?ls + (\<Sum>t<N. mset (text_lines (thread_bytes t C)))"
    using Cons.prems by (simp add: sum.distrib)
  then show ?case using Cons by (simp add: text_lines_append)
qed (simp add: thread_bytes_def)

definition thread_lines :: "nat \<Rightarrow> (line_error + u8 list) list" where
  "thread_lines t = map (\<lambda>i. Inr (model_line t (i + MESSAGES * t))) [0..<MESSAGES]"

lemma thread_text_lines: "text_lines (thread_text t) = thread_lines t"
proof -
  have "text_lines (concat (map (\<lambda>i. model_message t (g i)) is)) = map (\<lambda>i. Inr (model_line t (g i))) is"
    for g :: "nat \<Rightarrow> nat" and "is" by (induction "is") (simp_all add: text_lines_append text_lines_message)
  then show ?thesis by (simp add: thread_text_def thread_lines_def)
qed

lemma main_schedule_whole_lines:
  assumes "main_schedule as"
  shows "\<forall>a \<in> set as. fst a < 5 \<and> whole_lines (op_payload (snd a))"
proof
  fix a
  assume a: "a \<in> set as"
  then have "fst a < 5" using assms by (simp add: main_schedule_def)
  moreover have "snd a \<in> set (thread_script (fst a))" by (rule main_schedule_script [OF assms a])
  ultimately show "fst a < 5 \<and> whole_lines (op_payload (snd a))" by (auto simp: thread_script_def)
qed

lemma main_file_lines:
  assumes "main_schedule as" and "\<forall>t < 5. thread_bytes t (packed_log as) = thread_text t"
  shows "mset (text_lines (concat (map (\<lambda>c. snd (snd c)) (packed_log as))))
    = mset (concat (map thread_lines [0..<5]))"
proof -
  have "\<forall>c \<in> set (packed_log as). fst c < 5 \<and> whole_lines (snd (snd c))"
    using pack_all_whole_lines [OF main_schedule_whole_lines [OF assms(1)]]
    by (simp add: packed_log_def split: prod.splits)
  from lines_by_thread [OF this]
  have "mset (text_lines (concat (map (\<lambda>c. snd (snd c)) (packed_log as))))
      = (\<Sum>t<5. mset (text_lines (thread_bytes t (packed_log as))))" .
  also have "\<dots> = (\<Sum>t<5. mset (thread_lines t))"
    by (rule sum.cong) (use assms(2) in \<open>simp_all add: thread_text_lines\<close>)
  also have "\<dots> = mset (concat (map thread_lines [0..<5]))" by (rule mset_concat_upt [symmetric])
  finally show ?thesis .
qed

lemma thread_lines_count: "length (filter (\<lambda>l. \<not> isl l) (concat (map thread_lines [0..<5]))) = 150000"
proof -
  have "length (filter (\<lambda>l. \<not> isl l) (thread_lines t)) = MESSAGES" for t
    by (simp add: thread_lines_def filter_map comp_def)
  then show ?thesis by (simp add: upt_rec MESSAGES_def)
qed

lemma main_end_logs:
  assumes "main_schedule as" and "\<forall>t < 5. thread_bytes t (packed_log as) = thread_text t"
    and "read_back file (concat handles) = Inr (map (\<lambda>c. snd (snd c)) (packed_log as))"
    and "file = concat (map (\<lambda>c. snd (snd c)) (packed_log as))" and "length handles = 5"
  shows "main_end pf (Inr ()) (Inr ()) file (all_fine handles) = Done (Inr (150000, map (\<lambda>c. snd (snd c)) (packed_log as), 150000))"
    and "mset (text_lines file) = mset (concat (map thread_lines [0..<5]))"
proof -
  show lines: "mset (text_lines file) = mset (concat (map thread_lines [0..<5]))"
    using main_file_lines [OF assms(1,2)] assms(4) by simp
  have "length (filter (\<lambda>l. \<not> isl l) (text_lines file)) = 150000"
    using thread_lines_count lines by (metis mset_filter size_mset)
  then have "count_lines pf (text_lines file) 0 = Done 150000"
    using count_lines_exact [of 0 "text_lines file" pf] by simp
  moreover have "join_all pf (all_fine handles) (0, []) = Done (150000, concat handles)"
    using join_all_exact [of 0 handles pf "[]"] assms(5) by simp
  ultimately show "main_end pf (Inr ()) (Inr ()) file (all_fine handles) = Done (Inr (150000, map (\<lambda>c. snd (snd c)) (packed_log as), 150000))"
    using assms(3) by (simp add: main_end_def)
qed

text \<open>
  For every interleaving of the five threads' operations as a whole, the run returns, and
  what \<open>main\<close> prints after it is right.
\<close>
theorem main_logs_every_message:
  assumes "kernel_ok 256 U K" and "kernel_reliable U K" and "calls_ok U" and "fleet_started K F"
    and "length (fl_writers F) = 5" and "main_schedule as"
  shows "\<exists>F'. run_fleet pf U as F = Some (Done (Inr (), F'))
    \<and> (\<forall>writes handles. mset writes = landed_chunks K F' \<and> length handles = 5
          \<and> mset (concat handles) = mset (fl_ranges F') \<longrightarrow>
        main_end pf (Inr ()) (Inr ()) (perform writes []) (all_fine handles)
          = Done (Inr (150000, map (\<lambda>c. snd (snd c)) (packed_log as), 150000))
        \<and> mset (text_lines (perform writes [])) = mset (concat (map thread_lines [0..<5])))"
proof -
  obtain F' where run: "run_fleet pf U as F = Some (Done (Inr (), F'))"
    and read: "\<And>writes rs. mset writes = landed_chunks K F' \<Longrightarrow> mset rs = mset (fl_ranges F') \<Longrightarrow>
      read_back (perform writes []) rs = Inr (map (\<lambda>c. snd (snd c)) (packed_log as))
      \<and> perform writes [] = concat (map (\<lambda>c. snd (snd c)) (packed_log as))"
    and bytes: "\<forall>t < 5. thread_bytes t (packed_log as) = thread_text t"
    using main_run [OF assms] by blast
  show ?thesis
  proof (intro exI [of _ F'] conjI allI impI run; elim conjE)
    fix writes handles
    assume "length handles = 5" and "mset writes = landed_chunks K F'" "mset (concat handles) = mset (fl_ranges F')"
    with main_end_logs [OF assms(6) bytes] read
    show "main_end pf (Inr ()) (Inr ()) (perform writes []) (all_fine handles) = Done (Inr (150000, map (\<lambda>c. snd (snd c)) (packed_log as), 150000))"
      "mset (text_lines (perform writes [])) = mset (concat (map thread_lines [0..<5]))"
      by blast+
  qed
qed

theorem main_logs_every_message_witness:
  "\<exists>as F' writes. main_schedule as
     \<and> run_fleet Debug (dk_api 256 False (\<lambda>e. int (length (sqe_bytes e)))) as five_writers = Some (Done (Inr (), F'))
     \<and> (\<exists>bufs. main_end Debug (Inr ()) (Inr ()) (perform writes []) (all_fine [fl_ranges F', [], [], [], []]) = Done (Inr (150000, bufs, 150000)))
     \<and> Inr (model_line 4 149999) \<in> set (text_lines (perform writes []))"
proof -
  have five: "length (fl_writers five_writers) = 5" by (simp add: five_writers_def)
  let ?as = "concat (map (\<lambda>u. map (Pair u) (thread_script u)) [0, 1, 2, 3, 4])"
  obtain F' where run: "run_fleet Debug (dk_api 256 False (\<lambda>e. int (length (sqe_bytes e)))) ?as five_writers
      = Some (Done (Inr (), F'))"
    and e: "\<And>writes handles. mset writes = landed_chunks dk_view F' \<and> length handles = 5
          \<and> mset (concat handles) = mset (fl_ranges F') \<Longrightarrow>
        main_end Debug (Inr ()) (Inr ()) (perform writes []) (all_fine handles)
          = Done (Inr (150000, map (\<lambda>c. snd (snd c)) (packed_log ?as), 150000))
        \<and> mset (text_lines (perform writes [])) = mset (concat (map thread_lines [0..<5]))"
    using main_logs_every_message [OF dk_kernel_ok dk_kernel_reliable dk_calls_ok five_writers_started five
        main_schedule_exists, of Debug] by blast
  obtain writes where "mset writes = landed_chunks dk_view F'" using ex_mset by blast
  with e [of writes "[fl_ranges F', [], [], [], []]"]
  have out: "main_end Debug (Inr ()) (Inr ()) (perform writes []) (all_fine [fl_ranges F', [], [], [], []])
      = Done (Inr (150000, map (\<lambda>c. snd (snd c)) (packed_log ?as), 150000))"
    and lines: "mset (text_lines (perform writes [])) = mset (concat (map thread_lines [0..<5]))"
    by simp_all
  have "Inr (model_line 4 149999) = (\<lambda>i. Inr (model_line 4 (i + MESSAGES * 4)) :: line_error + u8 list) 29999"
    "29999 \<in> set [0..<MESSAGES]"
    by (simp_all add: MESSAGES_def)
  then have "Inr (model_line 4 149999) \<in> set (thread_lines 4)"
    unfolding thread_lines_def set_map by blast
  then have "Inr (model_line 4 149999) \<in> set (concat (map thread_lines [0..<5]))" by auto
  then have "Inr (model_line 4 149999) \<in> set (text_lines (perform writes []))"
    by (simp only: mset_eq_setD [OF lines])
  then show ?thesis using main_schedule_exists run out by blast
qed

section \<open>The threads of main, access by access\<close>

definition main_scripts :: "writer_op list list" where
  "main_scripts = map thread_script [0..<5]"

lemma main_scripts_schedule: "interleaves main_scripts as \<longleftrightarrow> main_schedule as"
  by (auto simp: interleaves_def main_schedule_def main_scripts_def)

lemma main_launched:
  assumes "kernel_ok 256 U K" and "calls_ok U" and "fleet_started K F" and "length (fl_writers F) = 5"
  shows "launched U K F main_scripts"
proof -
  obtain as where as: "main_schedule as" using main_schedule_exists by blast
  have th: "\<forall>a \<in> set as. fst a < length main_scripts" using as by (simp add: main_schedule_def main_scripts_def)
  have of: "of_thread t as = main_scripts ! t" if "t < length main_scripts" for t
    using as that unfolding main_scripts_schedule [symmetric] interleaves_def by simp
  have "script_bytes main_scripts = schedule_bytes as"
    unfolding schedule_bytes_threads [OF th] script_bytes_def by (rule sum.cong) (simp_all add: of)
  then have "script_bytes main_scripts < 2 ^ 64" using main_schedule_facts(3) [OF as] by simp
  moreover have "ops_ok main_scripts"
  proof -
    have small: "length (op_payload (snd a)) \<le> 1048576" if "a \<in> set as" for a
      using main_schedule_facts(1) [OF as] that by (auto simp: schedule_ok_def list_all_iff)
    have "length (op_payload op) \<le> 1048576" if "t < length main_scripts" "op \<in> set (main_scripts ! t)" for t op
      using that small unfolding of [OF that(1), symmetric] by auto
    then show ?thesis by (metis in_set_conv_nth ops_ok_def)
  qed
  ultimately show ?thesis using assms by (simp add: launched_def main_scripts_def)
qed

lemma landed_chunks_same:
  assumes "map (set_offset 0) (fl_writers F) = map (set_offset 0) (fl_writers G)"
  shows "landed_chunks K F = landed_chunks K G"
proof -
  have "landed_chunks K H = mset_all (\<lambda>w. image_mset entry_chunk (kv_landed K (rw_ring w))) (map (set_offset 0) (fl_writers H))" for H
    by (simp add: landed_chunks_def mset_all_def comp_def)
  then show ?thesis by (simp add: assms)
qed

text \<open>
  C11: The numbers \<open>main\<close> of \<^verbatim>\<open>model.rs\<close> prints agree. For every run of its five threads,
  interleaved at every access to the shared counter, on a kernel that keeps its documented
  promises and completes every write in full, with system calls and \<open>File::open\<close> succeeding,
  every order of the kernel's writes and every
  distribution of the completed ranges over the joined threads, in both build profiles: a
  thread that is not done can go on, the threads take at most 450 015 steps, and then
  \<open>main\<close> comes to its end without error and without overflow; it has written 150 000 messages and logs
  150 000 lines; the buffers it reads back are chunks of whole messages, packed in the order of some
  interleaving; and the lines of the file, read by \<open>BufReader::lines\<close>, are exactly the
  messages of the five threads, each once, none torn and none merged.
\<close>
theorem main_threads_log_every_message:
  assumes "kernel_ok 256 U K" and "kernel_reliable U K" and "calls_ok U" and "fleet_started K F"
    and "length (fl_writers F) = 5" and "thread_run pf U (threads_start F main_scripts) n s"
  shows "(\<forall>t < 5. \<not> thread_done s t \<longrightarrow> (\<exists>s'. thread_step pf U t s s')) \<and> n \<le> 450015
    \<and> ((\<forall>t < 5. thread_done s t) \<longrightarrow> (\<exists>as. main_schedule as
        \<and> (\<forall>writes handles. mset writes = landed_chunks K (as_fleet s) \<and> length handles = 5
              \<and> mset (concat handles) = mset (th_ranges s) \<longrightarrow>
            main_end pf (Inr ()) (Inr ()) (perform writes []) (all_fine handles)
              = Done (Inr (150000, map (\<lambda>c. snd (snd c)) (packed_log as), 150000))
            \<and> mset (text_lines (perform writes [])) = mset (concat (map thread_lines [0..<5])))))"
proof -
  note L = main_launched [OF assms(1,3,4,5)]
  have len: "length main_scripts = 5" by (simp add: main_scripts_def)
  have ops: "(\<Sum>t<(5 :: nat). length (main_scripts ! t)) = 150005"
    by (simp add: main_scripts_def thread_script_def MESSAGES_def)
  obtain as F' pend owed where ser: "serial pf U F main_scripts s as F' pend owed"
    using serial_run [OF L assms(6)] by blast
  have "n \<le> 450015" using run_length [OF L assms(6)] ops by (simp add: len)
  moreover have "\<exists>as. main_schedule as
      \<and> (\<forall>writes handles. mset writes = landed_chunks K (as_fleet s) \<and> length handles = 5
              \<and> mset (concat handles) = mset (th_ranges s) \<longrightarrow>
            main_end pf (Inr ()) (Inr ()) (perform writes []) (all_fine handles)
              = Done (Inr (150000, map (\<lambda>c. snd (snd c)) (packed_log as), 150000))
            \<and> mset (text_lines (perform writes [])) = mset (concat (map thread_lines [0..<5])))"
    if fin: "\<forall>t < 5. thread_done s t"
  proof -
    note d = serial_done [OF ser fin [folded len]]
    have as: "main_schedule as" using d(1) by (simp add: main_scripts_schedule)
    obtain G where "run_fleet pf U as F = Some (Done (Inr (), G))"
      and read: "\<And>writes rs. mset writes = landed_chunks K G \<Longrightarrow> mset rs = mset (fl_ranges G) \<Longrightarrow>
        read_back (perform writes []) rs = Inr (map (\<lambda>c. snd (snd c)) (packed_log as))
        \<and> perform writes [] = concat (map (\<lambda>c. snd (snd c)) (packed_log as))"
      and bytes: "\<forall>t < 5. thread_bytes t (packed_log as) = thread_text t"
      using main_run [OF assms(1-5) as] by blast
    then have G: "landed_chunks K G = landed_chunks K (as_fleet s)" "mset (fl_ranges G) = mset (th_ranges s)"
      using d(2,4) landed_chunks_same [OF d(5)] by (simp_all add: as_fleet_def)
    show ?thesis using as main_end_logs [OF as bytes] read [unfolded G] by blast
  qed
  ultimately show ?thesis using thread_can_step [OF ser] unfolding len by blast
qed

theorem main_threads_log_every_message_witness:
  "\<exists>n s writes. thread_run Debug (dk_api 256 False (\<lambda>e. int (length (sqe_bytes e)))) (threads_start five_writers main_scripts) n s
     \<and> (\<exists>bufs. main_end Debug (Inr ()) (Inr ()) (perform writes []) (all_fine [th_ranges s, [], [], [], []]) = Done (Inr (150000, bufs, 150000)))"
proof -
  let ?U = "dk_api 256 False (\<lambda>e. int (length (sqe_bytes e)))"
  have five: "length (fl_writers five_writers) = 5" by (simp add: five_writers_def)
  have len: "length main_scripts = 5" by (simp add: main_scripts_def)
  obtain n s where run: "thread_run Debug ?U (threads_start five_writers main_scripts) n s"
    and fin: "\<forall>t < 5. thread_done s t"
    using runs_to_end [OF main_launched [OF dk_kernel_ok dk_calls_ok five_writers_started five] thread_run.start,
        of Debug "\<lambda>e. int (length (sqe_bytes e))"]
    unfolding len by blast
  obtain writes where "mset writes = landed_chunks dk_view (as_fleet s)" using ex_mset by blast
  moreover have "length [th_ranges s, [], [], [], []] = 5" "mset (concat [th_ranges s, [], [], [], []]) = mset (th_ranges s)"
    by simp_all
  ultimately show ?thesis
    using main_threads_log_every_message [OF dk_kernel_ok dk_kernel_reliable dk_calls_ok five_writers_started five run] fin run
    by blast
qed

end
