(* ===== verification/Log_Client.thy ===== *)
theory Log_Client
  imports Ring_Properties
begin

text \<open>
  The client of the ring in \<^verbatim>\<open>src/examples/log.rs\<close>: the retry loop that writes one
  message, and the read-back of the completed ranges. Both run without interference by
  other threads, like the ring's methods.
\<close>

section \<open>Writing a message\<close>

text \<open>The loop may not return; \<open>yield_now\<close> has no effect on the state.\<close>

partial_function (option) log_message ::
  "profile \<Rightarrow> 'u uring_api \<Rightarrow> u8 list \<Rightarrow> 'u BufferRing
     \<Rightarrow> ((BufferError + BufferMsg) \<times> 'u BufferRing) outcome option" where
  "log_message pf U payload r =
     bind_run (Some (current_buffer r)) (\<lambda>current.
     bind_run (Some (reserve_space pf (\<lambda>b. b) (word_of_nat (length payload)) (br_ring r ! current)))
       (\<lambda>(reserve_result, b).
         let r1 = on_buffer current (\<lambda>_. b) r in
         if reserve_result = Inl FailedReservation \<or> reserve_result = Inl EncounteredSealedBuffer
         then log_message pf U payload r1
         else bind_run (Some (put pf U current reserve_result payload r1)) (\<lambda>(x, r2).
           case x of
             Inr msg \<Rightarrow> Some (Done (Inr msg, r2))
           | Inl e \<Rightarrow>
               if e = EncounteredSealedBuffer \<or> e = RingExhausted
               then bind_run (check_cque U r2) (\<lambda>(_, r3). log_message pf U payload r3)
               else Some (Done (Inl e, r2)))))"

lemma on_buffer_id [simp]: "on_buffer i (\<lambda>_. br_ring r ! i) r = r"
  by (simp add: on_buffer_def)

text \<open>A reservation on the current buffer, with nobody interfering.\<close>

lemma reserve_cases:
  assumes "unat n \<le> 1048576"
  shows "reserve_space pf (\<lambda>b. b) n b =
    (let w = fb_state b in
     if \<not> open_word w then Done (Inl EncounteredSealedBuffer, b)
     else if 1048576 < unat (state_offset w) + unat n then Done (Inl InsufficientSpace, b)
     else Done (Inr (state_offset w), b\<lparr>fb_state := w + n * OFFSET_ONE + WRITER_ONE\<rparr>))"
  using assms by (simp add: reserve_space_def reserve_check_eq cas_state_def Let_def not_le)

text \<open>
  A message that fits is stored. When the current buffer is open and has room,
  \<open>log_message\<close> returns \<open>SuccessfullWrite\<close> in its first round; the message is at the
  buffer's old offset, the offset has moved past it, the writer count is as before, and no other
  byte of the ring's buffers and nothing else in the ring has changed.
\<close>
lemma log_message_stores:
  assumes "br_current r = Some i" and "i < length (br_ring r)" and "w = fb_state (br_ring r ! i)"
    and "open_word w" and "unat (state_writers w) < 2 ^ 24 - 1"
    and "unat (state_offset w) + length payload \<le> 1048576"
    and "1048576 \<le> length (buf_mem (fb_buf (br_ring r ! i)))"
  shows "\<exists>v. log_message pf U payload r = Some (Done (Inr SuccessfullWrite, on_buffer i (\<lambda>b.
      b\<lparr>fb_buf := (fb_buf b)\<lparr>buf_mem := blit (unat (state_offset w)) payload (buf_mem (fb_buf b))\<rparr>, fb_state := v\<rparr>) r))
    \<and> fields_of v = (fields_of w)\<lparr>f_offset := unat (state_offset w) + length payload\<rparr>"
proof -
  let ?n = "word_of_nat (length payload) :: usize"
  let ?v = "w + ?n * OFFSET_ONE + WRITER_ONE"
  let ?r1 = "on_buffer i (\<lambda>b. b\<lparr>fb_state := ?v\<rparr>) r"
  have n: "unat ?n = length payload" using assms(6) by (simp add: unat_word_of_nat_usize)
  have f: "fields_of ?v = (fields_of w)\<lparr>f_offset := unat (state_offset w) + length payload,
      f_writers := unat (state_writers w) + 1\<rparr>"
    using fields_of_reserve [OF _ assms(5), of ?n] assms(6) n by simp
  have sel: "unat (state_writers ?v) = unat (state_writers w) + 1" "\<not> state_sealed ?v"
    using reserve_sel [OF _ assms(5), of ?n] assms(4,6) n by simp_all
  have res: "reserve_space pf (\<lambda>b. b) ?n (br_ring r ! i) = Done (Inr (state_offset w), (br_ring r ! i)\<lparr>fb_state := ?v\<rparr>)"
    using assms(3,4,6) n by (simp add: reserve_cases Let_def)
  have r1: "on_buffer i (\<lambda>_. (br_ring r ! i)\<lparr>fb_state := ?v\<rparr>) r = ?r1" by (simp add: on_buffer_def)
  have len: "i < length (br_ring ?r1)" using assms(2) by simp
  have "put pf U i (Inr (state_offset w)) payload ?r1
      = Done (Inr SuccessfullWrite, on_buffer i (written (state_offset w) payload) ?r1)"
    using put_writes [OF len, of "state_offset w" payload pf U] assms(2,6,7) sel(2) by (simp add: Let_def)
  moreover have "fields_of (?v - WRITER_ONE) = (fields_of w)\<lparr>f_offset := unat (state_offset w) + length payload\<rparr>"
    using fields_of_drop_writer [of ?v] sel(1) f by simp
  moreover have "on_buffer i (written (state_offset w) payload) ?r1 = on_buffer i (\<lambda>b. b\<lparr>
      fb_buf := (fb_buf b)\<lparr>buf_mem := blit (unat (state_offset w)) payload (buf_mem (fb_buf b))\<rparr>,
      fb_state := ?v - WRITER_ONE\<rparr>) r"
    using assms(2) by (simp add: written_def)
  ultimately show ?thesis
    using assms(1) by (intro exI [of _ "?v - WRITER_ONE"], subst log_message.simps)
      (simp add: current_buffer_def res r1)
qed

theorem log_message_stores_witness:
  "\<exists>v. log_message Debug sim_api [1, 2] (demo_ring [0, 0] 1048576 None True)
      = Some (Done (Inr SuccessfullWrite, on_buffer 0 (\<lambda>b.
          b\<lparr>fb_buf := (fb_buf b)\<lparr>buf_mem := blit 0 [1, 2] (buf_mem (fb_buf b))\<rparr>, fb_state := v\<rparr>)
          (demo_ring [0, 0] 1048576 None True)))
    \<and> fields_of v = (fields_of 0)\<lparr>f_offset := 2\<rparr>"
proof -
  let ?r = "demo_ring [0, 0] 1048576 (None :: sim QuikIO option) True"
  have "0 < length (br_ring ?r)" "br_current ?r = Some 0" "0 = fb_state (br_ring ?r ! 0)"
    "1048576 \<le> length (buf_mem (fb_buf (br_ring ?r ! 0)))" by simp_all
  moreover have "open_word 0" "unat (state_writers 0) < 2 ^ 24 - 1"
    "unat (state_offset 0) + length [1, 2 :: u8] \<le> 1048576" by simp_all
  ultimately show ?thesis
    using log_message_stores [of ?r 0 0 "[1, 2]" Debug sim_api] by (simp add: numeral_2_eq_2)
qed

section \<open>Messages lost\<close>

lemma sealed_ring_mem:
  assumes "j < length (br_ring r)"
  shows "fb_buf (br_ring (sealed_ring i r) ! j) = fb_buf (br_ring r ! j)"
proof -
  have keep: "fb_buf (br_ring (snd (rotate_after_seal p s)) ! j) = fb_buf (br_ring s ! j)" if "j < length (br_ring s)"
    for p and s :: "'a BufferRing"
    using that by (auto simp: rotate_after_seal_def rotate_scan_eq Let_def reserve_buf_addr_nth split: option.splits)
  show ?thesis using assms by (auto simp: sealed_ring_def Let_def keep on_buffer_nth)
qed

lemma dispatch_mem:
  assumes "ring_ok r" and "i < length (br_ring r)" and "roomy (br_ring r ! i)"
  shows "\<exists>r'. dispatch pf U i r = Done r' \<and> length (br_ring r') = length (br_ring r)
    \<and> (\<forall>j < length (br_ring r). fb_buf (br_ring r' ! j) = fb_buf (br_ring r ! j))"
proof (cases "br_store r \<noteq> None \<and> br_auto_flush r")
  case True
  then obtain q where q: "br_store r = Some q" by auto
  have "buffer_wf (fb_buf (br_ring r ! i))" using assms(1,2) by (simp add: ring_ok_def buffer_ok_def)
  then have "submittable (br_ring r ! i)" using assms(3) by (rule roomy_submittable)
  with assms(2) q obtain e where "flush pf U i r = Done (submitted U q i e (flag_flush i r))"
    by (rule flush_submits)
  then show ?thesis
    using True by (auto simp: dispatch_pos [OF assms(1,2)] submitted_def flag_flush_def on_buffer_nth split: option.splits)
next
  case False
  then have "dispatch pf U i r = Done (reset_buffer i r)" using dispatch_pos [OF assms(1,2)] by metis
  then show ?thesis using assms(2) by (simp add: reset_buffer_eq on_buffer_nth)
qed

text \<open>The first round of a message that does not fit, with no writer inside.\<close>

lemma log_message_full:
  assumes "br_current r = Some i" and "i < length (br_ring r)" and "w = fb_state (br_ring r ! i)"
    and "open_word w" and "state_writers w = 0" and "length payload \<le> 1048576"
    and "1048576 < unat (state_offset w) + length payload"
    and "dispatch pf U i (flag_flush i (sealed_ring i r)) = Done r'"
  shows "log_message pf U payload r = Some (Done (Inr SuccessfullWriteFlush, r'))"
proof -
  let ?n = "word_of_nat (length payload) :: usize"
  have n: "unat ?n = length payload" using assms(6) by (simp add: unat_word_of_nat_usize)
  have res: "reserve_space pf (\<lambda>b. b) ?n (br_ring r ! i) = Done (Inl InsufficientSpace, br_ring r ! i)"
    using assms(3,4,6,7) n by (simp add: reserve_cases Let_def)
  have "put pf U i (Inl InsufficientSpace) payload r = Done (Inr SuccessfullWriteFlush, r')"
    using assms(3-5,8) by (simp add: put_insufficient [OF assms(2)] Let_def)
  then show ?thesis using assms(1) by (subst log_message.simps) (simp add: current_buffer_def res)
qed

text \<open>
  C22: The message that seals a buffer is lost. When the message does not fit the current
  buffer and no writer is inside, \<open>log_message\<close> returns \<open>SuccessfullWriteFlush\<close>, which its caller
  counts as logged, in the first round: the buffer has been sealed, the ring rotated and the buffer flushed,
  but the message is nowhere: every buffer of the ring holds the bytes it held before.
\<close>
theorem log_message_loses_payload:
  assumes "ring_ok r" and "br_current r = Some i" and "i < length (br_ring r)" and "w = fb_state (br_ring r ! i)"
    and "open_word w" and "state_writers w = 0" and "length payload \<le> 1048576"
    and "1048576 < unat (state_offset w) + length payload" and "roomy (br_ring r ! i)"
  shows "\<exists>r'. log_message pf U payload r = Some (Done (Inr SuccessfullWriteFlush, r'))
    \<and> length (br_ring r') = length (br_ring r)
    \<and> (\<forall>j < length (br_ring r). fb_buf (br_ring r' ! j) = fb_buf (br_ring r ! j))"
proof -
  let ?s = "flag_flush i (sealed_ring i r)"
  have ok: "ring_ok ?s" using assms(1) by (intro ring_ok_flag_flush ring_ok_sealed_ring)
  have len: "i < length (br_ring ?s)" and room: "roomy (br_ring ?s ! i)"
    using assms(3) sealed_ring_roomy [OF assms(3,9)] by simp_all
  obtain r' where r': "dispatch pf U i ?s = Done r'" "length (br_ring r') = length (br_ring ?s)"
    "\<forall>j < length (br_ring ?s). fb_buf (br_ring r' ! j) = fb_buf (br_ring ?s ! j)"
    using dispatch_mem [OF ok len room] by blast
  note run = log_message_full [OF assms(2-8) r'(1)]
  have "fb_buf (br_ring r' ! j) = fb_buf (br_ring r ! j)" if "j < length (br_ring r)" for j
    using r'(3) that sealed_ring_mem [OF that, of i] sealed_ring_mem [OF assms(3), of i] by (simp add: flag_flush_def on_buffer_nth)
  then show ?thesis using run r'(2) by auto
qed

theorem log_message_loses_payload_witness:
  "\<exists>r'. log_message Debug sim_api [1, 2] (demo_ring [0xFFFFF00000000, 0] 1048576 (Some demo_quik) True)
      = Some (Done (Inr SuccessfullWriteFlush, r'))
    \<and> fb_buf (br_ring r' ! 1) = fb_buf (br_ring (demo_ring [0xFFFFF00000000, 0] 1048576 (Some demo_quik) True) ! 1)"
proof -
  let ?r = "demo_ring [0xFFFFF00000000, 0] 1048576 (Some demo_quik) True"
  have "ring_ok ?r" by (rule demo_ring_ok) simp_all
  moreover have "unat (state_offset 0xFFFFF00000000) = 1048575" "state_writers 0xFFFFF00000000 = 0"
    "open_word 0xFFFFF00000000"
    by (simp_all add: state_offset_def state_writers_def state_sealed_def state_flush_in_progress_def layout_consts)
  moreover have "br_current ?r = Some 0" "0 < length (br_ring ?r)" "0xFFFFF00000000 = fb_state (br_ring ?r ! 0)"
    by simp_all
  moreover have "roomy (br_ring ?r ! 0)" using calculation(2) by (simp add: roomy_def)
  ultimately show ?thesis
    using log_message_loses_payload [of ?r 0 "0xFFFFF00000000" "[1, 2]" Debug sim_api] by auto
qed

section \<open>Waiting for ever\<close>

lemma log_message_closed:
  assumes "br_current r = Some i" and "\<not> open_word (fb_state (br_ring r ! i))" and "length payload \<le> 1048576"
  shows "log_message pf U payload r = None"
proof -
  have "\<not> (br_current r = Some i \<and> \<not> open_word (fb_state (br_ring r ! i)) \<and> length payload \<le> 1048576)"
    if "log_message pf U payload r = Some x" for x
  proof (rule log_message.raw_induct [where P = "\<lambda>pf U payload r x.
        \<not> (br_current r = Some i \<and> \<not> open_word (fb_state (br_ring r ! i)) \<and> length payload \<le> 1048576)", OF _ that],
      rule notI)
    fix loop pf x and U :: "'a uring_api" and payload and r :: "'a BufferRing"
    assume IH: "\<And>pf U payload r x. loop pf U payload r = Some x \<Longrightarrow>
        \<not> (br_current r = Some i \<and> \<not> open_word (fb_state (br_ring r ! i)) \<and> length payload \<le> 1048576)"
      and step: "bind_run (Some (current_buffer r)) (\<lambda>current.
         bind_run (Some (reserve_space pf (\<lambda>b. b) (word_of_nat (length payload)) (br_ring r ! current)))
           (\<lambda>(reserve_result, b). let r1 = on_buffer current (\<lambda>_. b) r in
             if reserve_result = Inl FailedReservation \<or> reserve_result = Inl EncounteredSealedBuffer
             then loop pf U payload r1
             else bind_run (Some (put pf U current reserve_result payload r1)) (\<lambda>(x, r2).
               case x of Inl e \<Rightarrow> if e = EncounteredSealedBuffer \<or> e = RingExhausted
                   then bind_run (check_cque U r2) (\<lambda>(_, r3). loop pf U payload r3)
                   else Some (Done (Inl e, r2))
               | Inr msg \<Rightarrow> Some (Done (Inr msg, r2))))) = Some x"
      and closed: "br_current r = Some i \<and> \<not> open_word (fb_state (br_ring r ! i)) \<and> length payload \<le> 1048576"
    have "unat (word_of_nat (length payload) :: usize) \<le> 1048576"
      using closed by (simp add: unat_word_of_nat_usize)
    then have "loop pf U payload r = Some x"
      using step closed by (simp add: current_buffer_def reserve_cases Let_def)
    then show False using IH closed by blast
  qed
  then show ?thesis using assms by (cases "log_message pf U payload r") auto
qed

text \<open>
  The loop does not reap. While the current buffer is sealed or being flushed, as it stays
  when a rotation found no available buffer, \<open>log_message\<close> goes round without ever calling
  \<open>check_cque\<close>, which alone could free a buffer: on its own it never returns, whatever
  completions are waiting in the queue.
\<close>
lemma log_message_spins:
  assumes "br_current r = Some i" and "\<not> open_word (fb_state (br_ring r ! i))" and "length payload \<le> 1048576"
  shows "log_message pf U payload r = None"
  by (rule log_message_closed [OF assms])

theorem log_message_spins_witness:
  "log_message Release sim_api [1, 2] (demo_ring [3, 3] 1048576 (Some (quik_with [\<lparr>cqe_user_data = 64, cqe_result = 4096\<rparr>])) True)
    = None"
proof -
  let ?r = "demo_ring [3, 3] 1048576 (Some (quik_with [\<lparr>cqe_user_data = 64, cqe_result = 4096\<rparr>])) True"
  have "state_sealed 3" by (simp add: state_sealed_def layout_consts)
  then have "\<not> open_word (fb_state (br_ring ?r ! 0))" by simp
  then show ?thesis using log_message_spins [of ?r 0 "[1, 2]" Release sim_api] by simp
qed

section \<open>Reading the completed ranges\<close>

text \<open>
  The \<open>i\<close>-th read allocates its window with \<open>alloc i\<close>; an error of a read is returned at
  once. The buffers are only printed.
\<close>

fun read_ranges ::
  "profile \<Rightarrow> 'u uring_api \<Rightarrow> (nat \<Rightarrow> layout \<Rightarrow> u64) \<Rightarrow> nat \<Rightarrow> (u64 \<times> usize) list \<Rightarrow> 'u QuikIO
     \<Rightarrow> ((io_error + u8 list list) \<times> 'u QuikIO) outcome" where
  "read_ranges pf U alloc i [] q = Done (Inr [], q)"
| "read_ranges pf U alloc i ((file_offset, byte_count) # rs) q =
     bind_outcome (quik_read pf U (alloc i) byte_count file_offset q) (\<lambda>(r, q1).
       case r of
         Inl e \<Rightarrow> Done (Inl e, q1)
       | Inr buf \<Rightarrow>
           bind_outcome (read_ranges pf U alloc (Suc i) rs q1) (\<lambda>(r', q2).
             Done (map_sum id ((#) buf) r', q2)))"

definition read_completed_ranges ::
  "profile \<Rightarrow> 'u uring_api \<Rightarrow> (nat \<Rightarrow> layout \<Rightarrow> u64) \<Rightarrow> (u64 \<times> usize) list \<Rightarrow> 'u QuikIO
     \<Rightarrow> ((io_error + u8 list list) \<times> 'u QuikIO) outcome" where
  "read_completed_ranges pf U alloc completions q = read_ranges pf U alloc 0 (sort_key fst completions) q"

lemma read_ranges_exact:
  assumes "serves_reads U contents idle" and "\<And>i l. alloc i l \<noteq> 0"
  shows "list_all range_ok rs \<Longrightarrow> idle (quik_ring q) \<Longrightarrow>
    \<exists>q'. read_ranges pf U alloc i rs q
      = Done (Inr (map (\<lambda>(off, n). file_window contents (unat off) (unat n)) rs), q') \<and> idle (quik_ring q')"
proof (induction rs arbitrary: i q)
  case (Cons r rs)
  obtain off n where r: "r = (off, n)" by fastforce
  have ok: "range_ok (off, n)" using Cons.prems(1) r by simp
  obtain u' where u': "quik_read pf U (alloc i) n off q
      = Done (Inr (file_window contents (unat off) (unat n)), set_ring u' q)" "idle u'"
    by (rule idle_read [OF assms(1) Cons.prems(2) ok, where alloc = "alloc i" and pf = pf]) (simp_all add: assms(2))
  have "idle (quik_ring (set_ring u' q))" using u'(2) by simp
  with Cons obtain q' where "read_ranges pf U alloc (Suc i) rs (set_ring u' q)
      = Done (Inr (map (\<lambda>(off, n). file_window contents (unat off) (unat n)) rs), q')" "idle (quik_ring q')"
    by fastforce
  then show ?case using u'(1) by (simp add: r)
qed simp

text \<open>
  The read-back returns what the file holds, range by range, in the order of the file offsets,
  whatever the order of the completions.
\<close>
lemma read_completed_ranges_exact:
  assumes "serves_reads U contents idle" and "idle (quik_ring q)" and "list_all range_ok completions"
    and "\<And>i l. alloc i l \<noteq> 0"
  shows "\<exists>q' rs. read_completed_ranges pf U alloc completions q
      = Done (Inr (map (\<lambda>(off, n). file_window contents (unat off) (unat n)) rs), q')
    \<and> mset rs = mset completions \<and> sorted (map fst rs)"
proof -
  let ?rs = "sort_key fst completions"
  have "list_all range_ok ?rs" using assms(3) by (simp add: list_all_iff)
  with assms(1,2,4) obtain q' where "read_ranges pf U alloc 0 ?rs q
      = Done (Inr (map (\<lambda>(off, n). file_window contents (unat off) (unat n)) ?rs), q')"
    using read_ranges_exact [of U contents idle alloc ?rs q pf 0] by blast
  then show ?thesis by (intro exI [of _ q'] exI [of _ ?rs]) (simp add: read_completed_ranges_def)
qed

lemma sim_serves_reads:
  "serves_reads sim_api contents
     (\<lambda>s. sim_sq s = [] \<and> sim_cq s = [] \<and> sim_flight s = [] \<and> 0 < sim_cap s \<and> sim_file s = contents)"
  by (auto simp: serves_reads_def serves_read_def sim_api_def sim_submit_def sim_complete_def sim_exec_def)

theorem read_completed_ranges_exact_witness:
  "\<exists>q'. read_completed_ranges Debug sim_api (\<lambda>_ _. 8192) [(4, 2), (0, 3)]
      (Searalized \<lparr>bs_store = 3, bs_flusher = sim_init 8 [1, 2, 3, 4, 5, 6], bs_mode = SerializedWrites\<rparr>)
    = Done (Inr [[1, 2, 3], [5, 6]], q')"
proof -
  let ?q = "Searalized \<lparr>bs_store = 3, bs_flusher = sim_init 8 [1, 2, 3, 4, 5, 6], bs_mode = SerializedWrites\<rparr>"
  let ?idle = "\<lambda>s. sim_sq s = [] \<and> sim_cq s = [] \<and> sim_flight s = [] \<and> 0 < sim_cap s \<and> sim_file s = [1, 2, 3, 4, 5, 6]"
  have idle: "?idle (quik_ring ?q)" by (simp add: quik_ring_def sim_init_def)
  have ok: "list_all range_ok [(4, 2), (0, 3)]" by (simp add: range_ok_def)
  have nz: "(8192 :: u64) \<noteq> 0" by simp
  obtain q' and rs :: "(u64 \<times> usize) list" where r: "read_completed_ranges Debug sim_api (\<lambda>_ _. 8192) [(4, 2), (0, 3)] ?q
      = Done (Inr (map (\<lambda>(off, n). file_window [1, 2, 3, 4, 5, 6] (unat off) (unat n)) rs), q')"
    "mset rs = mset [(4, 2), (0, 3)]" "sorted (map fst rs)"
    using read_completed_ranges_exact [OF sim_serves_reads idle ok, of "\<lambda>_ _. 8192" Debug, OF nz] by blast
  have "rs = [(0, 3), (4, 2)]"
  proof -
    have "length rs = 2" using arg_cong [OF r(2), of size] by simp
    then obtain a b where "rs = [a, b]" by (auto simp: numeral_2_eq_2 length_Suc_conv)
    then show ?thesis using r(2,3) by (auto simp: add_eq_conv_ex)
  qed
  then show ?thesis using r(1) by (auto simp: file_window_def upt_rec)
qed

section \<open>From the buffer to the file and back\<close>




end
