(* ===== verification/O_Direct.thy ===== *)
theory O_Direct
  imports Log_Client
begin

text \<open>
  The example \<^verbatim>\<open>src/examples/o_direct.rs\<close>: opening a store, and its \<open>main\<close>, which writes
  one page by hand and reads it back. The file system is a parameter: \<open>create_dirs\<close> is the
  result of creating the parent directory (\<open>None\<close> if the path has no parent), \<open>open_file\<close>
  maps the options the file is opened with to the descriptor or an error.
\<close>

record OpenOptions =
  oo_read :: bool
  oo_write :: bool
  oo_create :: bool
  oo_direct :: bool

definition store_options :: OpenOptions where
  "store_options = \<lparr>oo_read = True, oo_write = True, oo_create = True, oo_direct = True\<rparr>"

definition open_store ::
  "profile \<Rightarrow> (nat \<Rightarrow> layout \<Rightarrow> u64) \<Rightarrow> (nat \<Rightarrow> u64) \<Rightarrow> (nat \<Rightarrow> io_error + 'u) \<Rightarrow> (io_error + unit) option
     \<Rightarrow> (OpenOptions \<Rightarrow> io_error + int) \<Rightarrow> WriteMode \<Rightarrow> (io_error + 'u BufferRing \<times> 'u QuikIO) outcome" where
  "open_store pf alloc place new_uring create_dirs open_file write_mode =
     (case create_dirs of
        Some (Inl e) \<Rightarrow> Done (Inl e)
      | _ \<Rightarrow>
        (case open_file store_options of
           Inl e \<Rightarrow> Done (Inl e)
         | Inr fd \<Rightarrow>
             bind_outcome (case write_mode of
                 TailLocalizedWrites \<Rightarrow> QuikIO_new new_uring fd
               | SerializedWrites \<Rightarrow> QuikIO_link new_uring fd) (\<lambda>flusher.
             bind_outcome (set_buffer_size pf ONE_MEGABYTE_BLOCK
                 (set_auto_rotate False (set_auto_flush False options_new))) (\<lambda>opts.
             bind_outcome (with_options alloc place
                 (set_io_instance flusher (set_capacity RING_SIZE opts))) (\<lambda>(ring, _).
               Done (Inr (ring, flusher)))))))"

text \<open>
  \<open>main\<close> after \<open>open\<close>. The dispatcher \<open>io\<close> is the one the ring also holds; nothing here goes
  through the ring's reference. The result of \<open>wait_for_all\<close> is dropped. A failed
  \<open>unwrap\<close>, \<open>expect\<close> or \<open>assert_eq\<close> panics.
\<close>

definition o_direct_main ::
  "profile \<Rightarrow> 'u uring_api \<Rightarrow> (layout \<Rightarrow> u64) \<Rightarrow> u8 list \<Rightarrow> 'u BufferRing \<Rightarrow> 'u QuikIO \<Rightarrow> 'u QuikIO outcome option" where
  "o_direct_main pf U alloc data store io =
     bind_run (Some (current_buffer store)) (\<lambda>buffer.
       case set_address (\<lambda>b. b) 0 (br_ring store ! buffer) of
         (Inl _, _) \<Rightarrow> Some Panic
       | (Inr _, b1) \<Rightarrow>
           bind_run (Some (increment_offset pf (word_of_nat (length data)) b1)) (\<lambda>(r, b2).
             case r of
               Inl _ \<Rightarrow> Some Panic
             | Inr offset \<Rightarrow>
                 bind_run (Some (write_buffer offset data b2)) (\<lambda>b3.
                 bind_run (Some (submit_buffer U (flush_buffer_methods pf) b3 io)) (\<lambda>(io1, b4).
                   case wait_for_all U io1 of
                     None \<Rightarrow> None
                   | Some (_, io2) \<Rightarrow>
                       bind_run (Some (quik_read pf U alloc 4096 0 io2)) (\<lambda>(res, io3).
                         case res of
                           Inl _ \<Rightarrow> Some Panic
                         | Inr read_buffer \<Rightarrow>
                             if read_buffer = data then Some (Done io3) else Some Panic)))))"

section \<open>Opening\<close>

abbreviation opened_store :: "int \<Rightarrow> WriteMode \<Rightarrow> 'u \<Rightarrow> 'u QuikIO" where
  "opened_store fd mode u \<equiv>
     (case mode of
        TailLocalizedWrites \<Rightarrow> TailLocalized (BackingStore_new u fd mode)
      | SerializedWrites \<Rightarrow> Searalized (BackingStore_new u fd mode))"

lemma open_store_ring:
  assumes "\<And>j l. alloc j l \<noteq> 0" and "new_uring 8 = Inr u" and "\<And>e. create_dirs \<noteq> Some (Inl e)"
    and "open_file store_options = Inr fd"
    and bs: "new_buffers alloc place ONE_MEGABYTE_BLOCK 0 4 = Done bs" "length bs = 4"
  shows "open_store pf alloc place new_uring create_dirs open_file mode = Done (Inr
    (\<lparr>br_current = Some 0, br_ring = bs, br_next_index = 1, br_next_address_range = 0,
      br_store = Some (opened_store fd mode u), br_auto_flush = False, br_auto_rotate = False,
      br_size = 4, br_cq_tx = None\<rparr>, opened_store fd mode u))"
proof -
  have "bs \<noteq> []" using bs(2) by auto
  then show ?thesis
    using assms(2-4) bs(1)
    by (cases create_dirs; cases mode)
      (auto simp: open_store_def QuikIO_new_def QuikIO_link_def set_buffer_size_megabyte with_options_def options_new_def
        set_auto_rotate_def set_auto_flush_def set_io_instance_def set_capacity_def RING_SIZE_def
        split: sum.split)
qed

text \<open>
  \<open>open\<close> gives a ring of four available, zeroed one-megabyte buffers, the first one
  current, with automatic flushing and rotation off, attached to a dispatcher on the opened
  file in the requested mode; a failure of the file system is returned, and a failure to
  create the \<open>IoUring\<close> instance panics.
\<close>
lemma open_store_builds:
  assumes "\<And>j l. alloc j l \<noteq> 0"
  shows "case create_dirs of Some (Inl e) \<Rightarrow>
        open_store pf alloc place new_uring create_dirs open_file mode = Done (Inl e)
    | _ \<Rightarrow> (case open_file store_options of
        Inl e \<Rightarrow> open_store pf alloc place new_uring create_dirs open_file mode = Done (Inl e)
      | Inr fd \<Rightarrow> (case new_uring 8 of
          Inl _ \<Rightarrow> open_store pf alloc place new_uring create_dirs open_file mode = Panic
        | Inr u \<Rightarrow> \<exists>ring. open_store pf alloc place new_uring create_dirs open_file mode
              = Done (Inr (ring, opened_store fd mode u))
            \<and> ring_ok ring \<and> br_current ring = Some 0 \<and> length (br_ring ring) = 4
            \<and> br_store ring = Some (opened_store fd mode u) \<and> \<not> br_auto_flush ring \<and> \<not> br_auto_rotate ring
            \<and> (\<forall>b \<in> set (br_ring ring). is_available b \<and> buf_size (fb_buf b) = ONE_MEGABYTE_BLOCK)))"
proof -
  obtain bs where bs: "new_buffers alloc place ONE_MEGABYTE_BLOCK 0 4 = Done bs" "length bs = 4"
    "\<forall>k < 4. bs ! k = zeroed_buffer alloc place k"
    using megabyte_buffers [where alloc = alloc and place = place, OF assms] by blast
  have one: "0 < unat ONE_MEGABYTE_BLOCK" "unat ONE_MEGABYTE_BLOCK \<le> 2 ^ 63 - 4096"
    by (simp_all add: ONE_MEGABYTE_BLOCK_def)
  have av: "\<forall>b \<in> set bs. is_available b \<and> buf_size (fb_buf b) = ONE_MEGABYTE_BLOCK"
    using bs(2,3) by (auto simp: is_available_def in_set_conv_nth)
  have good: "ring_ok ring"
    if "br_ring ring = bs" "br_size ring = 4" "br_current ring = Some 0" for ring :: "'a BufferRing"
    using that bs(2,3) assms one by (auto simp: ring_ok_def buffer_ok_def buffer_wf_def)
  have run: "open_store pf alloc place new_uring create_dirs open_file mode = Done (Inr
      (\<lparr>br_current = Some 0, br_ring = bs, br_next_index = 1, br_next_address_range = 0,
        br_store = Some (opened_store fd mode u), br_auto_flush = False, br_auto_rotate = False,
        br_size = 4, br_cq_tx = None\<rparr>, opened_store fd mode u))"
    if "new_uring 8 = Inr u" "\<And>e. create_dirs \<noteq> Some (Inl e)" "open_file store_options = Inr fd" for u fd
    by (rule open_store_ring [where alloc = alloc and new_uring = new_uring and create_dirs = create_dirs
        and open_file = open_file, OF assms that bs(1,2)])
  have fail: "open_store pf alloc place new_uring create_dirs open_file mode = Panic"
    if "new_uring 8 = Inl e'" "\<And>e. create_dirs \<noteq> Some (Inl e)" "open_file store_options = Inr fd" for e' fd
    using that by (cases mode) (auto simp: open_store_def QuikIO_new_def QuikIO_link_def split: option.split sum.split)
  have built: "case open_file store_options of
        Inl e \<Rightarrow> open_store pf alloc place new_uring create_dirs open_file mode = Done (Inl e)
      | Inr fd \<Rightarrow> (case new_uring 8 of
          Inl _ \<Rightarrow> open_store pf alloc place new_uring create_dirs open_file mode = Panic
        | Inr u \<Rightarrow> \<exists>ring. open_store pf alloc place new_uring create_dirs open_file mode
              = Done (Inr (ring, opened_store fd mode u))
            \<and> ring_ok ring \<and> br_current ring = Some 0 \<and> length (br_ring ring) = 4
            \<and> br_store ring = Some (opened_store fd mode u) \<and> \<not> br_auto_flush ring \<and> \<not> br_auto_rotate ring
            \<and> (\<forall>b \<in> set (br_ring ring). is_available b \<and> buf_size (fb_buf b) = ONE_MEGABYTE_BLOCK))"
    if nd: "\<And>e. create_dirs \<noteq> Some (Inl e)"
  proof (cases "open_file store_options")
    case (Inl e)
    then show ?thesis using nd by (auto simp: open_store_def split: option.split sum.split)
  next
    case fd: (Inr fd)
    show ?thesis
      using run [OF _ nd fd] fail [OF _ nd fd] fd good av bs(2)
      by (cases "new_uring 8") auto
  qed
  show ?thesis
    using built by (cases create_dirs) (auto simp: open_store_def split: sum.split)
qed

theorem open_store_builds_witness:
  "open_store Debug (\<lambda>_ _. 4096) (\<lambda>k. word_of_nat (64 * k + 64)) (\<lambda>_. Inr (sim_init 8 [])) None
       (\<lambda>_. Inl (Other ''no such file'')) SerializedWrites = Done (Inl (Other ''no such file''))
   \<and> (\<exists>ring. open_store Debug (\<lambda>_ _. 4096) (\<lambda>k. word_of_nat (64 * k + 64)) (\<lambda>_. Inr (sim_init 8 [])) None
       (\<lambda>_. Inr 3) SerializedWrites = Done (Inr (ring, demo_quik)) \<and> length (br_ring ring) = 4)"
  using open_store_builds [where alloc = "\<lambda>_ _. 4096" and create_dirs = None and pf = Debug
      and place = "\<lambda>k. word_of_nat (64 * k + 64)" and new_uring = "\<lambda>_. Inr (sim_init 8 [])"
      and open_file = "\<lambda>_. Inl (Other ''no such file'')" and mode = SerializedWrites]
    open_store_builds [where alloc = "\<lambda>_ _. 4096" and create_dirs = None and pf = Debug
      and place = "\<lambda>k. word_of_nat (64 * k + 64)" and new_uring = "\<lambda>_. Inr (sim_init 8 [])"
      and open_file = "\<lambda>_. Inr 3" and mode = SerializedWrites]
  by (auto simp: BackingStore_new_def)

section \<open>Writing and reading one page\<close>

text \<open>
  The example's assertion. On the store \<open>open\<close> returns, \<open>main\<close> pushes exactly one entry, for
  one page at file offset 0 with the page's bytes; when the queue accepts it and the kernel has
  performed it by the time \<open>wait_for_all\<close> is done, the page is read back and the assertion
  holds, whatever the file held before.
\<close>
lemma o_direct_reads_back:
  assumes "\<And>j l. alloc j l \<noteq> 0" and "\<And>l. alloc' l \<noteq> 0" and "length data = 4096"
    and "open_store pf alloc place (\<lambda>_. Inr u) create_dirs open_file mode = Done (Inr (ring, io))"
    and "open_file store_options = Inr fd"
    and "e = \<lparr>sqe_opcode = WriteOp (alloc 0 (ONE_MEGABYTE_BLOCK, FOUR_KB_BLOCK)) 4096, sqe_fd = fd, sqe_offset = 0,
          sqe_io_link = (mode = SerializedWrites), sqe_io_drain = False, sqe_user_data = place 0, sqe_bytes = data\<rparr>"
    and "sq_push U e u = Some u1"
    and "wait_for_all U (set_ring (snd (ring_submit U u1)) io) = Some (res, io2)"
    and "serves_reads U (file_write 0 data contents) idle" and "idle (quik_ring io2)"
  shows "\<exists>io3. o_direct_main pf U alloc' data ring io = Some (Done io3)"
proof -
  obtain bs where bs: "new_buffers alloc place ONE_MEGABYTE_BLOCK 0 4 = Done bs" "length bs = 4"
    "\<forall>k < 4. bs ! k = zeroed_buffer alloc place k"
    using megabyte_buffers [where alloc = alloc and place = place, OF assms(1)] by blast
  have nd: "create_dirs \<noteq> Some (Inl e')" for e' using assms(4) by (auto simp: open_store_def)
  have io: "io = opened_store fd mode u" and ring: "br_current ring = Some 0" "br_ring ring = bs"
    using open_store_ring [where alloc = alloc and new_uring = "\<lambda>_. Inr u" and create_dirs = create_dirs
        and open_file = open_file and pf = pf and mode = mode, OF assms(1) refl nd assms(5) bs(1,2)] assms(4) by auto
  have n: "unat (word_of_nat (length data) :: usize) = 4096" by (simp add: assms(3))
  obtain b where b: "b = zeroed_buffer alloc place 0" by blast
  let ?w = "4096 * OFFSET_ONE :: usize"
  let ?b3 = "b\<lparr>fb_state := ?w, fb_buf := (fb_buf b)\<lparr>buf_mem := blit 0 data (buf_mem (fb_buf b))\<rparr>\<rparr>"
  have b0: "br_ring ring ! 0 = b" using ring(2) bs(3) b by simp
  have addr: "set_address (\<lambda>b. b) 0 b = (Inr 0, b)" by (simp add: set_address_def b)
  have entry: "write_entry (alloc 0 (ONE_MEGABYTE_BLOCK, FOUR_KB_BLOCK), data) 0 (place 0) (get_backing_store io) = e"
    by (cases mode) (simp_all add: write_entry_def io BackingStore_new_def assms(3,6))
  have qu: "quik_ring io = u" by (cases mode) (simp_all add: io quik_ring_def BackingStore_new_def)
  have zero: "fb_state b = 0" "length (buf_mem (fb_buf b)) = 1048576" by (simp_all add: b ONE_MEGABYTE_BLOCK_def)
  note page = page_by_hand [OF zero(1) assms(3) zero(2) refl refl]
  have inc: "increment_offset pf (word_of_nat (length data)) b = Done (Inr 0, b\<lparr>fb_state := ?w\<rparr>)"
    and wr: "write_buffer 0 data (b\<lparr>fb_state := ?w\<rparr>) = Done ?b3" by (rule page)+
  have sub: "submit_buffer U (flush_buffer_methods pf) ?b3 io
      = Done (set_ring (snd (ring_submit U u1)) io, ?b3\<lparr>fb_sqe := Some e\<rparr>)"
    using page(3) [of U pf io] entry by (simp add: b qu assms(7))
  have small: "range_ok (0, 4096)" by (simp add: range_ok_def)
  obtain u' where rd: "quik_read pf U alloc' 4096 0 io2
      = Done (Inr (file_window (file_write 0 data contents) (unat (0 :: u64)) (unat (4096 :: usize))), set_ring u' io2)"
    by (rule idle_read [where pf = pf and alloc = alloc', OF assms(9,10) small assms(2)])
  have "take (length data) (drop 0 (file_write 0 data contents)) = data" by (rule file_write_reads_back)
  from file_window_prefix [OF this, of "length data"]
  have win: "file_window (file_write 0 data contents) 0 4096 = data" by (simp only: assms(3) order_refl) (simp add: assms(3))
  show ?thesis
    using assms(8) rd win
    by (simp add: o_direct_main_def current_buffer_def ring(1) b0 addr inc wr sub)
qed

lemma eager_wait:
  assumes "quik_ring q = u\<lparr>sim_cq := [c]\<rparr>" and "sim_sq u = []" and "0 \<le> cqe_result c"
  shows "wait_for_all eager_api q = Some (Inr (), set_ring (u\<lparr>sim_cq := []\<rparr>) q)"
proof -
  have "drain_cq eager_api [] (u\<lparr>sim_cq := [c]\<rparr>) = Some ([c], u\<lparr>sim_cq := []\<rparr>)"
    by (subst drain_cq.simps, simp add: sim_api_def, subst drain_cq.simps, simp)
  then have "quik_cqe eager_api q = Some ([c], set_ring (u\<lparr>sim_cq := []\<rparr>) q)"
    using assms(1) by (simp add: quik_cqe_def sim_api_def)
  then show ?thesis
    using assms(2,3) by (subst wait_for_all.simps) (cases q, auto simp: sim_api_def set_ring_def quik_ring_def)
qed

theorem o_direct_reads_back_witness:
  "\<exists>ring io io3. open_store Debug (\<lambda>_ _. 4096) (\<lambda>k. word_of_nat (64 * k + 64)) (\<lambda>_. Inr (sim_init 8 [])) None
      (\<lambda>_. Inr 3) SerializedWrites = Done (Inr (ring, io))
    \<and> o_direct_main Debug eager_api (\<lambda>_. 4096) (replicate 4096 5) ring io = Some (Done io3)"
proof -
  let ?u = "sim_init 8 []" and ?data = "replicate 4096 5 :: u8 list" and ?place = "\<lambda>k. word_of_nat (64 * k + 64) :: u64"
  let ?e = "\<lparr>sqe_opcode = WriteOp 4096 4096, sqe_fd = 3, sqe_offset = 0, sqe_io_link = True,
      sqe_io_drain = False, sqe_user_data = 64, sqe_bytes = ?data\<rparr>"
  let ?open = "open_store Debug (\<lambda>_ _. 4096) ?place (\<lambda>_. Inr ?u) None (\<lambda>_. Inr 3) SerializedWrites"
  let ?io = "opened_store 3 SerializedWrites ?u" and ?f = "file_write 0 ?data []"
  obtain bs where "new_buffers (\<lambda>_ _. 4096) ?place ONE_MEGABYTE_BLOCK 0 4 = Done bs" "length bs = 4"
    using megabyte_buffers [of "\<lambda>_ _. 4096" ?place] by auto
  then obtain ring where ring: "?open = Done (Inr (ring, ?io))"
    using open_store_ring [of "\<lambda>_ _. 4096" "\<lambda>_. Inr ?u" ?u None "\<lambda>_. Inr 3" 3 ?place bs Debug SerializedWrites] by simp
  have push: "sq_push eager_api ?e ?u = Some (?u\<lparr>sim_sq := [?e]\<rparr>)" by (simp add: sim_api_def sim_init_def)
  let ?done = "?u\<lparr>sim_file := ?f, sim_cq := [\<lparr>cqe_user_data = 64, cqe_result = 4096\<rparr>]\<rparr>"
  have fin: "snd (ring_submit eager_api (?u\<lparr>sim_sq := [?e]\<rparr>)) = ?done"
    by (simp add: sim_submit_def sim_complete_def sim_exec_def sim_init_def)
  have "wait_for_all eager_api (set_ring ?done ?io) = Some (Inr (), set_ring (?u\<lparr>sim_file := ?f, sim_cq := []\<rparr>) (set_ring ?done ?io))"
    using eager_wait [where q = "set_ring ?done ?io" and u = "?u\<lparr>sim_file := ?f\<rparr>" and c = "\<lparr>cqe_user_data = 64, cqe_result = 4096\<rparr>"]
    by (simp add: sim_init_def)
  then have wait: "wait_for_all eager_api (set_ring (snd (ring_submit eager_api (?u\<lparr>sim_sq := [?e]\<rparr>))) ?io)
      = Some (Inr (), set_ring (?u\<lparr>sim_file := ?f, sim_cq := []\<rparr>) (set_ring ?done ?io))"
    by (simp only: fin)
  have "\<exists>io3. o_direct_main Debug eager_api (\<lambda>_. 4096) ?data ring ?io = Some (Done io3)"
    by (rule o_direct_reads_back [where alloc = "\<lambda>_ _. 4096" and place = ?place and create_dirs = None
          and open_file = "\<lambda>_. Inr 3" and mode = SerializedWrites and fd = 3 and contents = "[]" and e = ?e,
          OF _ _ _ ring _ _ push wait eager_serves_reads])
      (simp_all add: sim_init_def)
  with ring show ?thesis by blast
qed

end
