(* ===== verification/Log_Main.thy ===== *)
theory Log_Main
  imports Log_Client Message_Format
begin

text \<open>
  \<open>main\<close> of \<^verbatim>\<open>src/examples/log.rs\<close>: the ring it opens, the messages its five threads log,
  and what it does after joining them. The threads' calls of \<open>log_message\<close> run one at a
  time, in any order that keeps each thread's; \<open>sleep\<close> is what the kernel does while \<open>main\<close>
  sleeps.
\<close>

definition log_ring ::
  "profile \<Rightarrow> (nat \<Rightarrow> layout \<Rightarrow> u64) \<Rightarrow> (nat \<Rightarrow> u64) \<Rightarrow> (nat \<Rightarrow> io_error + 'u) \<Rightarrow> int \<Rightarrow> 'u BufferRing outcome" where
  "log_ring pf alloc place new_uring fd =
     bind_outcome (QuikIO_link new_uring fd) (\<lambda>io_dispatcher.
     bind_outcome (set_buffer_size pf ONE_MEGABYTE_BLOCK (set_capacity 4 (completion_receiver options_new))) (\<lambda>opts.
     bind_outcome (with_options alloc place
         (set_auto_rotate True (set_auto_flush True (set_io_instance io_dispatcher opts)))) (\<lambda>(ring, _).
     Done ring)))"

definition log_text :: "nat \<Rightarrow> nat \<Rightarrow> u8 list" where
  "log_text thread_id message_num =
     ascii ''['' @ padded 2 thread_id @ ascii ''] [Thread-'' @ decimal thread_id @ ascii ''] Message ''
       @ padded 3 message_num @ ascii '' '' @ [10]"

text \<open>
  Each of the five threads makes 30 000 calls of \<open>log_message\<close>. \<open>turns\<close> tells whose call is next,
  and \<open>made t\<close> how many calls thread \<open>t\<close> has made, its loop variable.
\<close>

fun log_calls :: "(nat \<Rightarrow> nat) \<Rightarrow> nat list \<Rightarrow> u8 list list" where
  "log_calls made [] = []"
| "log_calls made (t # turns) = log_text t (made t + 30000 * t) # log_calls (made(t := made t + 1)) turns"

definition log_schedule :: "nat list \<Rightarrow> bool" where
  "log_schedule turns \<longleftrightarrow> set turns \<subseteq> {..<5} \<and> (\<forall>t < 5. count_list turns t = 30000)"

text \<open>Log the messages one after the other, and count the calls that return \<open>Ok\<close>.\<close>

fun log_all ::
  "profile \<Rightarrow> 'u uring_api \<Rightarrow> u8 list list \<Rightarrow> 'u BufferRing \<Rightarrow> (nat \<times> 'u BufferRing) outcome option" where
  "log_all pf U [] r = Some (Done (0, r))"
| "log_all pf U (m # ms) r =
     bind_run (log_message pf U m r) (\<lambda>(x, r1).
     bind_run (log_all pf U ms r1) (\<lambda>(n, r2).
       Some (Done (case x of Inl _ \<Rightarrow> n | Inr _ \<Rightarrow> Suc n, r2))))"

text \<open>What \<open>main\<close> does after the join. The dispatcher is the one the ring holds.\<close>

definition asleep :: "('u \<Rightarrow> 'u) \<Rightarrow> 'u BufferRing \<Rightarrow> 'u BufferRing" where
  "asleep sleep r = r\<lparr>br_store := map_option (\<lambda>q. set_ring (sleep (quik_ring q)) q) (br_store r)\<rparr>"

definition log_finish ::
  "profile \<Rightarrow> 'u uring_api \<Rightarrow> (nat \<Rightarrow> layout \<Rightarrow> u64) \<Rightarrow> ('u \<Rightarrow> 'u) \<Rightarrow> 'u BufferRing
     \<Rightarrow> ((io_error + u8 list list) \<times> 'u BufferRing) outcome option" where
  "log_finish pf U alloc sleep r =
     bind_run (Some (flush_current pf U r)) (\<lambda>(_, r1).
     bind_run (check_cque U (asleep sleep r1)) (\<lambda>(_, r2).
       case br_store r2 of
         None \<Rightarrow> Some Panic
       | Some q \<Rightarrow>
           (case sync_data U q of
              (Inl e, q1) \<Rightarrow> Some (Done (Inl e, r2\<lparr>br_store := Some q1\<rparr>))
            | (Inr _, q1) \<Rightarrow>
                bind_run (check_cque U (asleep sleep (r2\<lparr>br_store := Some q1\<rparr>))) (\<lambda>(_, r3).
                  case (br_store r3, br_cq_tx r3) of
                    (Some q2, Some completions) \<Rightarrow>
                      bind_run (Some (read_completed_ranges pf U alloc completions q2)) (\<lambda>(x, q3).
                        Some (Done (x, r3\<lparr>br_store := Some q3, br_cq_tx := Some []\<rparr>)))
                  | _ \<Rightarrow> Some Panic))))"

text \<open>The whole of \<open>main\<close>: the number of messages it reports, and the texts it reads back.\<close>

definition log_main ::
  "profile \<Rightarrow> 'u uring_api \<Rightarrow> (nat \<Rightarrow> layout \<Rightarrow> u64) \<Rightarrow> (nat \<Rightarrow> layout \<Rightarrow> u64) \<Rightarrow> (nat \<Rightarrow> u64)
     \<Rightarrow> (nat \<Rightarrow> io_error + 'u) \<Rightarrow> int \<Rightarrow> ('u \<Rightarrow> 'u) \<Rightarrow> nat list
     \<Rightarrow> (nat \<times> (io_error + u8 list list)) outcome option" where
  "log_main pf U alloc alloc' place new_uring fd sleep turns =
     bind_run (Some (log_ring pf alloc place new_uring fd)) (\<lambda>ring.
     bind_run (log_all pf U (log_calls (\<lambda>_. 0) turns) ring) (\<lambda>(total_messages, r1).
     bind_run (log_finish pf U alloc' sleep r1) (\<lambda>(texts, _).
       Some (Done (total_messages, texts)))))"

section \<open>The ring main opens\<close>

abbreviation log_dispatcher :: "int \<Rightarrow> 'u \<Rightarrow> 'u QuikIO" where
  "log_dispatcher fd u \<equiv> Searalized (BackingStore_new u fd SerializedWrites)"

lemma log_ring_Done:
  assumes "\<And>j l. alloc j l \<noteq> 0" and "new_uring 8 = Inr u"
  obtains bs where "length bs = 4" and "\<And>k. k < 4 \<Longrightarrow> bs ! k = zeroed_buffer alloc place k"
    and "log_ring pf alloc place new_uring fd = Done
      \<lparr>br_current = Some 0, br_ring = bs, br_next_index = 1, br_next_address_range = 0,
       br_store = Some (log_dispatcher fd u), br_auto_flush = True, br_auto_rotate = True,
       br_size = 4, br_cq_tx = Some []\<rparr>"
proof -
  obtain bs where bs: "new_buffers alloc place ONE_MEGABYTE_BLOCK 0 4 = Done bs" "length bs = 4"
    "\<forall>k < 4. bs ! k = zeroed_buffer alloc place k"
    using megabyte_buffers [where alloc = alloc and place = place] assms(1) by auto
  have "bs \<noteq> []" using bs(2) by auto
  then show ?thesis
    using bs assms(2) that [of bs]
    by (simp add: log_ring_def QuikIO_link_def with_options_def options_new_def set_auto_rotate_def
        set_auto_flush_def set_io_instance_def set_buffer_size_megabyte set_capacity_def completion_receiver_def)
qed

section \<open>Running out of buffers\<close>

lemma rotate_map:
  assumes "\<And>b a. f (b\<lparr>fb_local_address := a\<rparr>) = f b"
  shows "map f (br_ring (snd (rotate_after_seal p r))) = map f (br_ring r)"
proof (rule nth_equalityI)
  fix j
  assume "j < length (map f (br_ring (snd (rotate_after_seal p r))))"
  then show "map f (br_ring (snd (rotate_after_seal p r))) ! j = map f (br_ring r) ! j"
    using assms by (auto simp: rotate_after_seal_def rotate_scan_eq Let_def reserve_buf_addr_nth split: option.splits)
qed (auto simp: rotate_after_seal_def rotate_scan_eq Let_def split: option.splits)

lemma sealed_ring_words:
  assumes "i < length (br_ring r)" and "j < length (br_ring r)"
  shows "fb_state (br_ring (sealed_ring i r) ! j)
    = (if j = i then fb_state (br_ring r ! i) OR SEALED_BIT else fb_state (br_ring r ! j))"
proof -
  have "map fb_state (br_ring (sealed_ring i r)) = (map fb_state (br_ring r))[i := fb_state (br_ring r ! i) OR SEALED_BIT]"
    by (simp add: sealed_ring_def Let_def rotate_map) (simp add: on_buffer_def map_update)
  then have "map fb_state (br_ring (sealed_ring i r)) ! j
      = (map fb_state (br_ring r))[i := fb_state (br_ring r ! i) OR SEALED_BIT] ! j" by simp
  then show ?thesis using assms by (simp add: nth_list_update)
qed

lemma rotate_auto_rotate [simp]: "br_auto_rotate (snd (rotate_after_seal p r)) = br_auto_rotate r"
  by (auto simp: rotate_after_seal_def rotate_scan_eq Let_def reserve_buf_addr_def incrment_address_def split: option.splits)

lemma sealed_ring_sel [simp]:
  "br_store (sealed_ring i r) = br_store r" "br_auto_flush (sealed_ring i r) = br_auto_flush r"
  "br_auto_rotate (sealed_ring i r) = br_auto_rotate r"
  by (simp_all add: sealed_ring_def Let_def)

lemma roomy_cong:
  "fb_buf b = fb_buf b' \<Longrightarrow> state_offset (fb_state b) = state_offset (fb_state b') \<Longrightarrow> roomy b = roomy b'"
  by (simp add: roomy_def)

text \<open>
  \<open>logging i r\<close>: buffer \<open>i\<close> is current and open with nobody inside, every other buffer is
  new or closed, and full buffers are flushed and rotated away from automatically.
\<close>

definition logging :: "nat \<Rightarrow> 'u BufferRing \<Rightarrow> bool" where
  "logging i r \<longleftrightarrow> ring_ok r \<and> br_current r = Some i \<and> i < length (br_ring r)
     \<and> (\<forall>j < length (br_ring r). roomy (br_ring r ! j))
     \<and> open_word (fb_state (br_ring r ! i)) \<and> state_writers (fb_state (br_ring r ! i)) = 0
     \<and> (\<forall>j < length (br_ring r). j \<noteq> i \<longrightarrow> fb_state (br_ring r ! j) = 0 \<or> \<not> open_word (fb_state (br_ring r ! j)))
     \<and> br_store r \<noteq> None \<and> br_auto_flush r \<and> br_auto_rotate r"

definition spare :: "nat \<Rightarrow> 'u BufferRing \<Rightarrow> nat" where
  "spare i r = card {j. j < length (br_ring r) \<and> j \<noteq> i \<and> fb_state (br_ring r ! j) = 0}"

text \<open>How many bytes of messages of at most \<open>L\<close> bytes the ring can still take or lose.\<close>

definition bytes_left :: "nat \<Rightarrow> nat \<Rightarrow> 'u BufferRing \<Rightarrow> nat" where
  "bytes_left L i r = (spare i r + 1) * (1048576 + L) - unat (state_offset (fb_state (br_ring r ! i)))"

definition stuck :: "'u BufferRing \<Rightarrow> bool" where
  "stuck r \<longleftrightarrow> (\<exists>c. br_current r = Some c \<and> \<not> open_word (fb_state (br_ring r ! c)))"

lemma ring_ok_wf: "ring_ok r \<Longrightarrow> i < length (br_ring r) \<Longrightarrow> buffer_wf (fb_buf (br_ring r ! i))"
  by (simp add: ring_ok_def buffer_ok_def)

lemma roomy_mem: "ring_ok r \<Longrightarrow> i < length (br_ring r) \<Longrightarrow> roomy (br_ring r ! i) \<Longrightarrow>
    1048576 \<le> length (buf_mem (fb_buf (br_ring r ! i)))"
  by (auto simp: ring_ok_def buffer_ok_def buffer_wf_def roomy_def)

lemma logging_fits:
  assumes "logging i r" and "unat (state_offset (fb_state (br_ring r ! i))) + length m \<le> 1048576"
  obtains r' where "log_message pf U m r = Some (Done (Inr SuccessfullWrite, r'))" and "logging i r'"
    and "length m + bytes_left L i r' = bytes_left L i r"
proof -
  let ?w = "fb_state (br_ring r ! i)"
  have l: "ring_ok r" "br_current r = Some i" "i < length (br_ring r)" "\<forall>j < length (br_ring r). roomy (br_ring r ! j)"
    "open_word ?w" "state_writers ?w = 0"
    "\<forall>j < length (br_ring r). j \<noteq> i \<longrightarrow> fb_state (br_ring r ! j) = 0 \<or> \<not> open_word (fb_state (br_ring r ! j))"
    "br_store r \<noteq> None" "br_auto_flush r" "br_auto_rotate r"
    using assms(1) by (simp_all add: logging_def)
  have room: "roomy (br_ring r ! i)" using l(3,4) by simp
  note mem = roomy_mem [OF l(1,3) room]
  let ?f = "\<lambda>v b. b\<lparr>fb_buf := (fb_buf b)\<lparr>buf_mem := blit (unat (state_offset ?w)) m (buf_mem (fb_buf b))\<rparr>, fb_state := v\<rparr>"
  obtain v where v: "log_message pf U m r = Some (Done (Inr SuccessfullWrite, on_buffer i (?f v) r))"
    "fields_of v = (fields_of ?w)\<lparr>f_offset := unat (state_offset ?w) + length m\<rparr>"
    using log_message_stores [OF l(2,3) refl l(5) _ assms(2) mem, of pf U] l(6) by auto
  have f: "unat (state_offset v) = unat (state_offset ?w) + length m" "state_writers v = 0" "open_word v"
    using v(2) l(5,6) by (simp_all add: fields_of_def unsigned_eq_0_iff)
  have at: "br_ring (on_buffer i (?f v) r) ! j = (if j = i then ?f v (br_ring r ! i) else br_ring r ! j)"
    if "j < length (br_ring r)" for j using that by (rule on_buffer_nth)
  have "ring_ok (on_buffer i (?f v) r)"
    using l(1) mem assms(2) by (auto simp: ring_ok_def on_buffer_nth buffer_ok_def buffer_wf_def)
  moreover have "roomy (?f v (br_ring r ! i))" using room f(1) assms(2) by (simp add: roomy_def)
  ultimately have "logging i (on_buffer i (?f v) r)"
    using l f by (auto simp: logging_def at)
  moreover have "spare i (on_buffer i (?f v) r) = spare i r"
    unfolding spare_def by (rule arg_cong [where f = card]) (auto simp: at)
  moreover have "unat (state_offset ?w) + length m \<le> (spare i r + 1) * (1048576 + L)"
    using assms(2) by (simp add: trans_le_add1)
  ultimately show ?thesis using that v(1) f(1) at [OF l(3)] by (auto simp: bytes_left_def)
qed

lemma submitted_buf:
  "j < length (br_ring r) \<Longrightarrow> fb_buf (br_ring (submitted U q i e r) ! j) = fb_buf (br_ring r ! j)"
  by (auto simp: submitted_def on_buffer_nth split: option.splits)

lemma submitted_roomy:
  "j < length (br_ring r) \<Longrightarrow> roomy (br_ring (submitted U q i e r) ! j) = roomy (br_ring r ! j)"
  by (rule roomy_cong) (simp_all add: submitted_buf submitted_sel)

text \<open>
  A message that does not fit: the buffer is closed and submitted, every other state word and
  all contents stay, and either a new buffer is current or the old one still is.
\<close>

lemma log_message_closes:
  assumes "logging i r" and "1048576 < unat (state_offset (fb_state (br_ring r ! i))) + length m"
    and "length m \<le> 1048576"
  obtains r' where "log_message pf U m r = Some (Done (Inr SuccessfullWriteFlush, r'))"
    and "ring_ok r'" and "length (br_ring r') = length (br_ring r)" and "br_store r' \<noteq> None"
    and "br_auto_flush r'" and "br_auto_rotate r'" and "br_current r' = br_current (sealed_ring i r)"
    and "\<forall>j < length (br_ring r). roomy (br_ring r' ! j) \<and> fb_state (br_ring r' ! j)
      = (if j = i then (fb_state (br_ring r ! i) OR SEALED_BIT) OR FLUSH_IN_PROGRESS_BIT else fb_state (br_ring r ! j))"
proof -
  let ?w = "fb_state (br_ring r ! i)" and ?s = "flag_flush i (sealed_ring i r)"
  have l: "ring_ok r" "br_current r = Some i" "i < length (br_ring r)" "\<forall>j < length (br_ring r). roomy (br_ring r ! j)"
    "open_word ?w" "state_writers ?w = 0" "br_store r \<noteq> None" "br_auto_flush r" "br_auto_rotate r"
    using assms(1) by (simp_all add: logging_def)
  obtain q where q: "br_store r = Some q" using l(7) by blast
  have ok: "ring_ok ?s" using l(1) by (intro ring_ok_flag_flush ring_ok_sealed_ring)
  have words: "fb_state (br_ring ?s ! j)
      = (if j = i then (?w OR SEALED_BIT) OR FLUSH_IN_PROGRESS_BIT else fb_state (br_ring r ! j))"
    if "j < length (br_ring r)" for j
    using that l(3) by (simp add: flag_flush_def on_buffer_nth sealed_ring_words)
  have bufs: "fb_buf (br_ring ?s ! j) = fb_buf (br_ring r ! j)" if "j < length (br_ring r)" for j
    using that sealed_ring_mem [OF that, of i] by (auto simp: flag_flush_def on_buffer_nth)
  have rooms: "roomy (br_ring ?s ! j)" if "j < length (br_ring r)" for j
    using that l(4) roomy_cong [OF bufs [OF that]] words [OF that] by simp
  have "buffer_wf (fb_buf (br_ring ?s ! i))" by (rule ring_ok_wf [OF ok]) (simp add: l(3))
  then have sub: "submittable (br_ring ?s ! i)" using rooms [OF l(3)] by (intro roomy_submittable)
  have len: "i < length (br_ring ?s)" and st: "br_store ?s = Some q" using l(3) q by simp_all
  from len st sub obtain e where "flush pf U i ?s = Done (submitted U q i e (flag_flush i ?s))"
    by (rule flush_submits [where pf = pf and U = U])
  then have "dispatch pf U i ?s = Done (submitted U q i e ?s)"
    using l(3,8) st by (simp add: dispatch_pos [OF ok len])
  note run = log_message_full [OF l(2,3) refl l(5,6) assms(3,2) this]
  let ?r' = "submitted U q i e ?s"
  have "\<forall>j < length (br_ring r). roomy (br_ring ?r' ! j) \<and> fb_state (br_ring ?r' ! j)
      = (if j = i then (?w OR SEALED_BIT) OR FLUSH_IN_PROGRESS_BIT else fb_state (br_ring r ! j))"
    using rooms words submitted_roomy [of _ ?s] submitted_sel(3) [of _ ?s] by simp
  moreover have "length (br_ring ?r') = length (br_ring r)" "br_store ?r' \<noteq> None" "br_auto_flush ?r'" "br_auto_rotate ?r'"
    using l(8,9) q by (auto simp: submitted_def flag_flush_def split: option.splits)
  moreover have "br_current ?r' = br_current (sealed_ring i r)" by (simp add: flag_flush_def)
  ultimately show ?thesis using that run submitted_ok [OF ok] by blast
qed

lemma logging_full:
  assumes "logging i r" and "1048576 < unat (state_offset (fb_state (br_ring r ! i))) + length m"
    and "length m \<le> L" and "L \<le> 1048576"
  obtains r' where "log_message pf U m r = Some (Done (Inr SuccessfullWriteFlush, r'))"
    and "length m \<le> bytes_left L i r"
    and "stuck r' \<or> (\<exists>j. logging j r' \<and> length m + bytes_left L j r' \<le> bytes_left L i r)"
proof -
  let ?w = "fb_state (br_ring r ! i)" and ?s = "sealed_ring i r"
  have l: "ring_ok r" "br_current r = Some i" "i < length (br_ring r)" "roomy (br_ring r ! i)" "br_auto_rotate r"
    "\<forall>j < length (br_ring r). j \<noteq> i \<longrightarrow> fb_state (br_ring r ! j) = 0 \<or> \<not> open_word (fb_state (br_ring r ! j))"
    using assms(1) by (simp_all add: logging_def)
  have "length m \<le> 1048576" using assms(3,4) by simp
  from assms(1,2) this obtain r' where run: "log_message pf U m r = Some (Done (Inr SuccessfullWriteFlush, r'))"
    and r': "ring_ok r'" "length (br_ring r') = length (br_ring r)" "br_store r' \<noteq> None"
      "br_auto_flush r'" "br_auto_rotate r'" "br_current r' = br_current ?s"
      "\<forall>j < length (br_ring r). roomy (br_ring r' ! j) \<and> fb_state (br_ring r' ! j)
        = (if j = i then (?w OR SEALED_BIT) OR FLUSH_IN_PROGRESS_BIT else fb_state (br_ring r ! j))"
    by (rule log_message_closes [where pf = pf and U = U])
  have "state_sealed ((?w OR SEALED_BIT) OR FLUSH_IN_PROGRESS_BIT)" "\<not> state_sealed 0" by simp_all
  then have closed: "(?w OR SEALED_BIT) OR FLUSH_IN_PROGRESS_BIT \<noteq> 0" by metis
  have off: "unat (state_offset ?w) \<le> 1048576" using l(4) by (simp add: roomy_def)
  have "1048576 + L \<le> (spare i r + 1) * (1048576 + L)" by simp
  then have left: "length m \<le> bytes_left L i r"
    using off assms(3) unfolding bytes_left_def by linarith
  have "stuck r' \<or> (\<exists>j. logging j r' \<and> length m + bytes_left L j r' \<le> bytes_left L i r)"
    using sealed_ring_cases [OF l(1,3,2,5)]
  proof (elim conjE disjE exE)
    fix j
    assume j: "j < length (br_ring r)" "j \<noteq> i" "is_available (br_ring r ! j)" "br_current ?s = Some j"
    have "open_word (fb_state (br_ring r ! j))"
      using j(3) by (simp add: is_available_def flags_clear_iff)
    then have new: "fb_state (br_ring r ! j) = 0" using l(6) j(1,2) by blast
    have "logging j r'"
      unfolding logging_def r'(2) using r' j(1,2,4) new l(6) by simp
    moreover have "spare i r = Suc (spare j r')"
    proof -
      let ?A = "\<lambda>i r. {k. k < length (br_ring r) \<and> k \<noteq> i \<and> fb_state (br_ring r ! k) = 0}"
      have "?A i r = insert j (?A j r')"
        unfolding r'(2) using j(1,2) new closed r'(7) by (auto split: if_splits)
      then show ?thesis by (simp add: spare_def)
    qed
    then have "length m + bytes_left L j r' \<le> bytes_left L i r"
      using r'(7) j(1,2) new off assms(3) by (simp add: bytes_left_def)
    ultimately show ?thesis by blast
  next
    assume "br_current ?s = Some i"
    then show ?thesis using r'(6,7) l(3) by (auto simp: stuck_def)
  qed
  then show ?thesis using that run left by blast
qed

lemma log_all_stuck:
  assumes "stuck r" and "ms \<noteq> []" and "\<forall>m \<in> set ms. length m \<le> 1048576"
  shows "log_all pf U ms r = None"
proof -
  obtain m ms' where "ms = m # ms'" using assms(2) by (cases ms) auto
  then show ?thesis using assms(1,3) log_message_closed [of r _ m pf U] by (auto simp: stuck_def)
qed

lemma log_all_hangs:
  assumes "logging i r" and "\<forall>m \<in> set ms. length m \<le> L" and "L \<le> 1048576"
    and "bytes_left L i r < length (concat ms)"
  shows "log_all pf U ms r = None"
  using assms(1,2,4)
proof (induction ms arbitrary: i r)
  case (Cons m ms)
  let ?o = "unat (state_offset (fb_state (br_ring r ! i)))"
  have m: "length m \<le> L" and ms: "\<forall>m \<in> set ms. length m \<le> L" using Cons.prems(2) by simp_all
  obtain x r' where x: "log_message pf U m r = Some (Done (x, r'))" "length m \<le> bytes_left L i r"
    and onward: "stuck r' \<or> (\<exists>j. logging j r' \<and> length m + bytes_left L j r' \<le> bytes_left L i r)"
  proof (cases "?o + length m \<le> 1048576")
    case True
    then show ?thesis by (rule logging_fits [OF Cons.prems(1), of m pf U L]) (metis le_add1 order_refl that)
  next
    case False
    then have "1048576 < ?o + length m" by simp
    from Cons.prems(1) this m assms(3) show ?thesis
      by (rule logging_full [where pf = pf and U = U]) (rule that)
  qed
  have "ms \<noteq> []" using x(2) Cons.prems(3) by auto
  have "log_all pf U ms r' = None"
    using onward
  proof
    assume "stuck r'"
    then show ?thesis using \<open>ms \<noteq> []\<close> ms assms(3) by (intro log_all_stuck) auto
  next
    assume "\<exists>j. logging j r' \<and> length m + bytes_left L j r' \<le> bytes_left L i r"
    then show ?thesis using Cons.IH ms Cons.prems(3) by fastforce
  qed
  then show ?case by (simp add: x(1))
qed simp

section \<open>The messages of main\<close>

lemma log_text_length:
  assumes "t < 5" and "n < 150000"
  shows "29 \<le> length (log_text t n)" and "length (log_text t n) \<le> 40"
proof -
  have "length (decimal t) \<le> 1" "length (decimal n) \<le> 6"
    using length_decimal_digits [of t 0] length_decimal_digits [of n 5] assms by simp_all
  then show "29 \<le> length (log_text t n)" "length (log_text t n) \<le> 40"
    using length_decimal_pos [of t] by (simp_all add: log_text_def length_padded Suc_le_eq max_def del: length_greater_0_conv)
qed

lemma length_concat_ge: "\<forall>x \<in> set xs. k \<le> length x \<Longrightarrow> k * length xs \<le> length (concat xs)"
  by (induction xs) auto

lemma log_calls_length:
  assumes "set turns \<subseteq> {..<5}" and "\<forall>t < 5. made t + count_list turns t \<le> 30000"
  shows "\<forall>m \<in> set (log_calls made turns). 29 \<le> length m \<and> length m \<le> 40"
  using assms
proof (induction turns arbitrary: made)
  case (Cons t turns)
  have t: "t < 5" "made t < 30000" using Cons.prems by (auto dest: spec [of _ t])
  then have "29 \<le> length (log_text t (made t + 30000 * t))" "length (log_text t (made t + 30000 * t)) \<le> 40"
    using log_text_length [of t "made t + 30000 * t"] by simp_all
  moreover have "\<forall>u < 5. (made(t := made t + 1)) u + count_list turns u \<le> 30000"
    using Cons.prems(2) by (auto dest: spec [of _ t])
  then have "\<forall>m \<in> set (log_calls (made(t := made t + 1)) turns). 29 \<le> length m \<and> length m \<le> 40"
    using Cons.prems(1) by (intro Cons.IH) simp_all
  ultimately show ?case by (simp del: fun_upd_apply)
qed simp

lemma log_calls_count [simp]: "length (log_calls made turns) = length turns"
  by (induction turns arbitrary: made) simp_all

lemma log_schedule_facts:
  assumes "log_schedule turns"
  shows "\<forall>m \<in> set (log_calls (\<lambda>_. 0) turns). 29 \<le> length m \<and> length m \<le> 40" and "length turns = 150000"
proof -
  show "\<forall>m \<in> set (log_calls (\<lambda>_. 0) turns). 29 \<le> length m \<and> length m \<le> 40"
    using assms by (intro log_calls_length) (simp_all add: log_schedule_def)
  have "length turns = (\<Sum>t<5. count_list turns t)"
    by (rule sum_count_set [symmetric]) (use assms in \<open>simp_all add: log_schedule_def\<close>)
  also have "\<dots> = (\<Sum>t<(5 :: nat). 30000)" by (rule sum.cong) (use assms in \<open>simp_all add: log_schedule_def\<close>)
  finally show "length turns = 150000" by simp
qed

lemma log_ring_logging:
  assumes "\<And>j l. alloc j l \<noteq> 0" and "new_uring 8 = Inr u"
    and "log_ring pf alloc place new_uring fd = Done r"
  shows "logging 0 r" and "bytes_left L 0 r = 4 * (1048576 + L)"
proof -
  obtain bs where bs: "length bs = 4" "\<And>k. k < 4 \<Longrightarrow> bs ! k = zeroed_buffer alloc place k"
    and r: "r = \<lparr>br_current = Some 0, br_ring = bs, br_next_index = 1, br_next_address_range = 0,
       br_store = Some (log_dispatcher fd u), br_auto_flush = True, br_auto_rotate = True,
       br_size = 4, br_cq_tx = Some []\<rparr>"
    using log_ring_Done [where alloc = alloc and place = place and pf = pf and fd = fd and new_uring = new_uring,
        OF assms(1,2)] assms(3) by (metis outcome.inject)
  show "logging 0 r"
    using bs assms(1)
    by (auto simp: logging_def r ring_ok_def buffer_ok_def buffer_wf_def roomy_def ONE_MEGABYTE_BLOCK_def)
  have "{j. j < 4 \<and> j \<noteq> 0 \<and> fb_state (bs ! j) = 0} = {1, 2, 3}" using bs(2) by auto
  then show "bytes_left L 0 r = 4 * (1048576 + L)" using bs by (simp add: bytes_left_def spare_def r)
qed

text \<open>
  C23: With its own messages the example cannot end on its own. For every order of the five threads'
  150 000 calls of \<open>log_message\<close>, run one at a time, and whatever the kernel does, \<open>main\<close> of \<^verbatim>\<open>log.rs\<close>
  never returns: the four buffers are filled, sealed and submitted, and then the next call
  goes round for ever, because only a \<open>put\<close> that loses a race reaps completions.
\<close>
theorem log_main_hangs:
  assumes "\<And>j l. alloc j l \<noteq> 0" and "new_uring 8 = Inr u" and "log_schedule turns"
  shows "log_main pf U alloc alloc' place new_uring fd sleep turns = None"
proof -
  let ?ms = "log_calls (\<lambda>_. 0) turns"
  obtain r where r: "log_ring pf alloc place new_uring fd = Done r"
    using log_ring_Done [where alloc = alloc and place = place and pf = pf and fd = fd and new_uring = new_uring,
        OF assms(1,2)] by blast
  note l = log_ring_logging(1) [where alloc = alloc, OF assms(1,2) r]
    log_ring_logging(2) [where alloc = alloc and L = 40, OF assms(1,2) r]
  note m = log_schedule_facts [OF assms(3)]
  have "29 * length ?ms \<le> length (concat ?ms)"
    using m(1) by (intro length_concat_ge) blast
  then have "bytes_left 40 0 r < length (concat ?ms)" using l(2) m(2) by simp
  then have "log_all pf U ?ms r = None"
    using l(1) m(1) by (intro log_all_hangs [where L = 40]) auto
  then show ?thesis by (simp add: log_main_def r)
qed

lemma log_schedule_exists: "log_schedule (concat (map (replicate 30000) [0..<5]))"
proof -
  have "count_list (replicate n x) y = (if x = y then n else 0)" for n and x y :: nat by (induction n) auto
  then have "count_list (concat (map (replicate 30000) xs)) t = 30000 * count_list xs t" for xs and t :: nat
    by (induction xs) simp_all
  moreover have "count_list [0..<5] t = 1" if "t < 5" for t using that by (auto simp: upt_rec less_Suc_eq numeral_eq_Suc)
  moreover have "set (concat (map (replicate 30000) [0..<5])) \<subseteq> {..<5 :: nat}" by auto
  ultimately show ?thesis unfolding log_schedule_def by simp
qed

theorem log_main_hangs_witness:
  "\<exists>turns. log_schedule turns \<and> log_main Release sim_api (\<lambda>_ _. 4096) (\<lambda>_ _. 8192) (\<lambda>k. word_of_nat (64 * k + 64))
     (\<lambda>_. Inr (sim_init 8 [])) 3 sim_complete turns = None"
  using log_schedule_exists
    log_main_hangs [where alloc = "\<lambda>_ _. 4096" and new_uring = "\<lambda>_. Inr (sim_init 8 [])", OF _ refl log_schedule_exists]
  by fastforce

end
