(* ===== verification/Quik_Tests.thy ===== *)
theory Quik_Tests
  imports Ring_Invariant Message_Format Uring_Kernel
begin

text \<open>
  The tests of \<^verbatim>\<open>src/src/quik_io.rs\<close>. The temporary file is a parameter: \<open>temp_file contents\<close>
  is the descriptor of a file with these contents and, for each number of entries, what
  \<open>IoUring::new\<close> then returns. A failed \<open>unwrap\<close>, \<open>expect\<close> or \<open>assert_eq\<close> panics. A read
  on an instance with nothing outstanding returns the file's bytes, so the three tests
  that only read pass; the test that writes can fail on a kernel in no hurry.
\<close>

type_synonym 'u temp_file = "u8 list \<Rightarrow> int \<times> (nat \<Rightarrow> io_error + 'u)"

section \<open>Reading\<close>

text \<open>A read that must succeed and return \<open>expected\<close>.\<close>

definition read_and_compare ::
  "profile \<Rightarrow> 'u uring_api \<Rightarrow> (layout \<Rightarrow> u64) \<Rightarrow> usize \<Rightarrow> u64 \<Rightarrow> u8 list \<Rightarrow> 'u QuikIO \<Rightarrow> 'u QuikIO outcome" where
  "read_and_compare pf U alloc len offset expected quickio =
     bind_outcome (quik_read pf U alloc len offset quickio) (\<lambda>(r, q).
       case r of Inl _ \<Rightarrow> Panic | Inr buffer \<Rightarrow> if buffer = expected then Done q else Panic)"




section \<open>Writing and reading back\<close>

definition expected_blocks :: "u8 list list" where
  "expected_blocks = [replicate 4096 0, replicate 4096 1, replicate 4096 2, replicate 4096 3, replicate 4096 4]"

text \<open>Buffers \<open>i\<close> and on, \<open>n\<close> of them, each with its own address slot.\<close>

fun test_buffers :: "(nat \<Rightarrow> layout \<Rightarrow> u64) \<Rightarrow> (nat \<Rightarrow> u64) \<Rightarrow> nat \<Rightarrow> nat \<Rightarrow> FlushBuffer list outcome" where
  "test_buffers alloc place i 0 = Done []"
| "test_buffers alloc place i (Suc n) =
     bind_outcome (default_buffer (alloc i) (place i)) (\<lambda>buf.
       case set_address (\<lambda>b. b) (word_of_nat (i * 4096)) buf of
         (Inl _, _) \<Rightarrow> Panic
       | (Inr _, buf1) \<Rightarrow>
           bind_outcome (test_buffers alloc place (Suc i) n) (\<lambda>bufs. Done (buf1 # bufs)))"

fun submit_each ::
  "profile \<Rightarrow> 'u uring_api \<Rightarrow> (FlushBuffer \<times> u8 list) list \<Rightarrow> 'u QuikIO \<Rightarrow> 'u QuikIO outcome" where
  "submit_each pf U [] quickio = Done quickio"
| "submit_each pf U ((buf, data) # rest) quickio =
     bind_outcome (increment_offset pf (word_of_nat (length data)) buf) (\<lambda>(r, buf1).
       case r of
         Inl _ \<Rightarrow> Panic
       | Inr offset \<Rightarrow>
           bind_outcome (write_buffer offset data buf1) (\<lambda>buf2.
           bind_outcome (submit_buffer U (flush_buffer_methods pf) buf2 quickio) (\<lambda>(quickio1, _).
             submit_each pf U rest quickio1)))"

fun verify_each ::
  "profile \<Rightarrow> 'u uring_api \<Rightarrow> (nat \<Rightarrow> layout \<Rightarrow> u64) \<Rightarrow> nat \<Rightarrow> u8 list list \<Rightarrow> 'u QuikIO \<Rightarrow> 'u QuikIO outcome" where
  "verify_each pf U alloc i [] quickio = Done quickio"
| "verify_each pf U alloc i (check_against # rest) quickio =
     bind_outcome (read_and_compare pf U (alloc i) 4096 (word_of_nat (i * 4096)) check_against quickio)
       (\<lambda>quickio1. verify_each pf U alloc (Suc i) rest quickio1)"

definition read_write_test ::
  "profile \<Rightarrow> 'u uring_api \<Rightarrow> (nat \<Rightarrow> layout \<Rightarrow> u64) \<Rightarrow> (nat \<Rightarrow> u64) \<Rightarrow> (nat \<Rightarrow> layout \<Rightarrow> u64)
     \<Rightarrow> 'u temp_file \<Rightarrow> 'u QuikIO outcome option" where
  "read_write_test pf U alloc place alloc' temp_file =
     (let (file_handle, new_uring) = temp_file [] in
      bind_run (Some (QuikIO_new new_uring file_handle)) (\<lambda>quickio.
      bind_run (Some (test_buffers alloc place 0 (length expected_blocks))) (\<lambda>buffers.
      bind_run (Some (submit_each pf U (zip buffers expected_blocks) quickio)) (\<lambda>quickio1.
        case sync_data U quickio1 of
          (Inl _, _) \<Rightarrow> Some Panic
        | (Inr _, quickio2) \<Rightarrow>
            (case wait_for_all U quickio2 of
               None \<Rightarrow> None
             | Some (Inl _, _) \<Rightarrow> Some Panic
             | Some (Inr _, quickio3) \<Rightarrow> Some (verify_each pf U alloc' 0 expected_blocks quickio3))))))"

section \<open>The slots of the buffers\<close>

abbreviation slot_buffer :: "(nat \<Rightarrow> layout \<Rightarrow> u64) \<Rightarrow> (nat \<Rightarrow> u64) \<Rightarrow> nat \<Rightarrow> FlushBuffer" where
  "slot_buffer alloc place i \<equiv> (zeroed_buffer alloc place i)\<lparr>fb_pos := 0, fb_local_address := word_of_nat (i * 4096)\<rparr>"

lemma test_buffers_Done:
  assumes "\<And>j l. alloc j l \<noteq> 0"
  shows "test_buffers alloc place i n = Done (map (slot_buffer alloc place) [i..<i + n])"
proof (induction n arbitrary: i)
  case (Suc n)
  have "default_buffer (alloc i) (place i) = Done ((zeroed_buffer alloc place i)\<lparr>fb_pos := 0\<rparr>)"
    using assms by (simp add: default_buffer_def new_aligned_Done ONE_MEGABYTE_BLOCK_def)
  then show ?case using Suc.IH [of "Suc i"] by (simp add: set_address_def upt_rec [of i])
qed simp

lemma unat_slot: "i < 2 ^ 32 \<Longrightarrow> unat (word_of_nat (i * 4096) :: u64) = i * 4096"
  by (intro unat_word_of_nat_usize) simp


lemma quik_ring_new [simp]: "quik_ring (TailLocalized (BackingStore_new u fd mode)) = u"
  by (simp add: quik_ring_def BackingStore_new_def)

lemma expected_blocks_length: "list_all (\<lambda>b. length b = 4096) expected_blocks" "length expected_blocks = 5"
  by (simp_all add: expected_blocks_def)

section \<open>What a read may rely on\<close>





section \<open>A kernel in no hurry\<close>

text \<open>
  An instance that keeps the documented promises and completes, in order, no more entries than
  a call waits for. Its memory starts out zeroed, as the reads allocate it; a completion
  is kept as the entry it completes.
\<close>

record lag =
  lag_sq :: "sqe list"
  lag_flight :: "sqe list"
  lag_cq :: "sqe list"
  lag_landed :: "sqe list"
  lag_file :: "u8 list"
  lag_mem :: "u64 \<Rightarrow> u8 list"

definition lag_init :: lag where
  "lag_init = \<lparr>lag_sq = [], lag_flight = [], lag_cq = [], lag_landed = [], lag_file = [],
     lag_mem = (\<lambda>_. replicate 4096 0)\<rparr>"

definition lag_exec :: "sqe \<Rightarrow> lag \<Rightarrow> lag" where
  "lag_exec e s =
     (case sqe_opcode e of
        WriteOp p n \<Rightarrow> s\<lparr>lag_file := file_write (unat (sqe_offset e)) (sqe_bytes e) (lag_file s)\<rparr>
      | ReadOp p n \<Rightarrow> s\<lparr>lag_mem := (lag_mem s)(p := file_window (lag_file s) (unat (sqe_offset e)) (unat n))\<rparr>
      | FsyncOp \<Rightarrow> s)\<lparr>lag_cq := lag_cq s @ [e]\<rparr>"

primrec lag_complete :: "nat \<Rightarrow> lag \<Rightarrow> lag" where
  "lag_complete 0 s = s"
| "lag_complete (Suc n) s =
     (case lag_flight s of [] \<Rightarrow> s | e # es \<Rightarrow> lag_complete n ((lag_exec e s)\<lparr>lag_flight := es\<rparr>))"

definition lag_result :: "sqe \<Rightarrow> int" where
  "lag_result e = (case sqe_opcode e of
     WriteOp p n \<Rightarrow> int (length (sqe_bytes e)) | ReadOp p n \<Rightarrow> int (unat n) | FsyncOp \<Rightarrow> 0)"

definition lag_submit :: "lag \<Rightarrow> lag" where
  "lag_submit s = s\<lparr>lag_flight := lag_flight s @ lag_sq s, lag_sq := []\<rparr>"

definition lag_api :: "lag uring_api" where
  "lag_api =
     \<lparr>sq_push = (\<lambda>e s. if length (lag_sq s) < 8 then Some (s\<lparr>lag_sq := lag_sq s @ [e]\<rparr>) else None),
      ring_submit = (\<lambda>s. (Inr (length (lag_sq s)), lag_submit s)),
      ring_submit_and_wait = (\<lambda>n s. (Inr (length (lag_sq s)), lag_complete (n - length (lag_cq s)) (lag_submit s))),
      cq_sync = (\<lambda>s. s),
      cq_next = (\<lambda>s. case lag_cq s of
          [] \<Rightarrow> (None, s)
        | e # es \<Rightarrow> (Some \<lparr>cqe_user_data = sqe_user_data e, cqe_result = lag_result e\<rparr>,
            s\<lparr>lag_cq := es, lag_landed := (if lag_result e = int (length (sqe_bytes e)) then e # lag_landed s else lag_landed s)\<rparr>)),
      sq_len = (\<lambda>s. length (lag_sq s)),
      cq_len = (\<lambda>s. length (lag_cq s)),
      mem_at = (\<lambda>p n s. lag_mem s p)\<rparr>"

definition lag_view :: "lag kernel_view" where
  "lag_view =
     \<lparr>kv_waiting = (\<lambda>s. mset (lag_sq s) + mset (lag_flight s) + mset (lag_cq s)),
      kv_ready = (\<lambda>s. length (lag_cq s)), kv_landed = (\<lambda>s. mset (lag_landed s))\<rparr>"

lemma lag_exec_sel [simp]:
  "lag_sq (lag_exec e s) = lag_sq s" "lag_flight (lag_exec e s) = lag_flight s"
  "lag_cq (lag_exec e s) = lag_cq s @ [e]" "lag_landed (lag_exec e s) = lag_landed s"
  by (auto simp: lag_exec_def split: opcode.split)

lemma lag_complete_keeps:
  "lag_sq (lag_complete n s) = lag_sq s" "lag_landed (lag_complete n s) = lag_landed s"
  "lag_cq (lag_complete n s) = lag_cq s @ take n (lag_flight s)"
  "lag_flight (lag_complete n s) = drop n (lag_flight s)"
  by (induction n arbitrary: s) (auto split: list.split)

lemma lag_kernel_ok: "kernel_ok 8 lag_api lag_view"
proof -
  have "push_promise 8 lag_api lag_view"
    by (auto simp: push_promise_def lag_api_def lag_view_def)
  moreover have "mset (take n xs) + mset (drop n xs) = mset xs" for n and xs :: "sqe list"
    by (metis append_take_drop_id mset_append)
  then have "call_promise lag_api lag_view"
    by (auto simp: call_promise_def lag_api_def lag_view_def Let_def lag_submit_def lag_complete_keeps
        min_def algebra_simps)
  moreover have "reap_promise lag_api lag_view"
    by (auto simp: reap_promise_def lag_api_def lag_view_def split: list.splits)
  ultimately show ?thesis by (simp add: kernel_ok_def)
qed

text \<open>The \<open>k\<close> oldest entries in flight are writes, and no read has been performed.\<close>

definition behind :: "nat \<Rightarrow> lag \<Rightarrow> bool" where
  "behind k u \<longleftrightarrow> lag_sq u = [] \<and> lag_cq u = [] \<and> lag_mem u = (\<lambda>_. replicate 4096 0)
     \<and> (\<exists>ws es. lag_flight u = ws @ es \<and> length ws = k \<and> (\<forall>e \<in> set ws. \<exists>p n. sqe_opcode e = WriteOp p n))"

lemma lag_write_exec:
  "sqe_opcode w = WriteOp p n \<Longrightarrow> lag_mem (lag_exec w u) = lag_mem u" "sqe_opcode w = WriteOp p n \<Longrightarrow> 0 \<le> lag_result w"
  by (simp_all add: lag_exec_def lag_result_def)

text \<open>A write pushed and submitted is in flight behind the others.\<close>

lemma behind_write:
  assumes "behind k u" and "length (lag_flight u) = k" and "sqe_opcode e = WriteOp p n"
  shows "behind (Suc k) (lag_submit (u\<lparr>lag_sq := [e]\<rparr>))" "length (lag_flight (lag_submit (u\<lparr>lag_sq := [e]\<rparr>))) = Suc k"
proof -
  have "\<forall>e \<in> set (lag_flight u). \<exists>p n. sqe_opcode e = WriteOp p n"
  proof -
    obtain ws es where ws: "lag_flight u = ws @ es" "length ws = k" "\<forall>e \<in> set ws. \<exists>p n. sqe_opcode e = WriteOp p n"
      using assms(1) unfolding behind_def by blast
    then have "es = []" using assms(2) by simp
    then show ?thesis using ws by simp
  qed
  then have "\<exists>ws es. lag_flight u @ [e] = ws @ es \<and> length ws = Suc k \<and> (\<forall>e \<in> set ws. \<exists>p n. sqe_opcode e = WriteOp p n)"
    using assms(2,3) by (intro exI [of _ "lag_flight u @ [e]"] exI [of _ "[]"]) simp
  then show "behind (Suc k) (lag_submit (u\<lparr>lag_sq := [e]\<rparr>))"
    using assms(1) by (simp add: behind_def lag_submit_def)
  show "length (lag_flight (lag_submit (u\<lparr>lag_sq := [e]\<rparr>))) = Suc k"
    using assms(2) by (simp add: lag_submit_def)
qed

lemma submit_each_lag:
  shows "list_all (\<lambda>b. length b = 4096) blocks \<Longrightarrow> behind m (quik_ring q) \<Longrightarrow> length (lag_flight (quik_ring q)) = m \<Longrightarrow>
    \<exists>u'. submit_each pf lag_api (zip (map (slot_buffer alloc place) [i..<i + length blocks]) blocks) q = Done (set_ring u' q)
      \<and> behind (m + length blocks) u' \<and> length (lag_flight u') = m + length blocks"
proof (induction blocks arbitrary: i m q)
  case Nil
  have "set_ring (quik_ring q) q = q" by (cases q) (simp_all add: set_ring_def quik_ring_def)
  then show ?case using Nil by (intro exI [of _ "quik_ring q"]) simp
next
  case (Cons d ds)
  let ?b = "slot_buffer alloc place i" and ?u = "quik_ring q"
  let ?e = "write_entry (buf_ptr (fb_buf ?b), d) (fb_local_address ?b) (fb_addr ?b) (get_backing_store q)"
  let ?u1 = "lag_submit (?u\<lparr>lag_sq := [?e]\<rparr>)"
  have len: "length d = 4096" using Cons.prems(1) by simp
  have "fb_state ?b = 0" "length (buf_mem (fb_buf ?b)) = 1048576" by (simp_all add: ONE_MEGABYTE_BLOCK_def)
  note page = page_by_hand [OF this(1) len this(2) refl refl]
  have "sqe_opcode ?e = WriteOp (buf_ptr (fb_buf ?b)) (word_of_nat (length d))" by (simp add: write_entry_def)
  note u1 = behind_write [OF Cons.prems(2,3) this]
  have push: "sq_push lag_api ?e ?u = Some (?u\<lparr>lag_sq := [?e]\<rparr>)"
    using Cons.prems(2) by (simp add: lag_api_def behind_def)
  have sub: "snd (ring_submit lag_api v) = lag_submit v" for v by (simp add: lag_api_def)
  obtain u' where u': "submit_each pf lag_api (zip (map (slot_buffer alloc place) [Suc i..<Suc i + length ds]) ds) (set_ring ?u1 q)
      = Done (set_ring u' (set_ring ?u1 q))" "behind (Suc m + length ds) u'" "length (lag_flight u') = Suc m + length ds"
    using Cons.IH [of "Suc m" "set_ring ?u1 q" "Suc i"] Cons.prems(1) u1 by auto
  have "[i..<i + length (d # ds)] = i # [Suc i..<Suc i + length ds]"
    using upt_conv_Cons [of i "i + length (d # ds)"] by (simp del: upt_Suc)
  then have "submit_each pf lag_api (zip (map (slot_buffer alloc place) [i..<i + length (d # ds)]) (d # ds)) q
      = Done (set_ring u' q)"
    using page(1,2) page(3) [of lag_api pf q] push sub u'(1) by simp
  then show ?case using u'(2,3) by auto
qed

text \<open>Whoever pushes an entry and waits for one completion gets that of the oldest write.\<close>

lemma behind_wait:
  assumes "behind (Suc k) u"
  obtains u1 c u2 where "ring_submit_and_wait lag_api 1 (u\<lparr>lag_sq := [e]\<rparr>) = (Inr 1, u1)"
    and "lag_sq u1 = []" and "cq_next lag_api u1 = (Some c, u2)" and "0 \<le> cqe_result c" and "behind k u2"
    and "lag_mem u2 = (\<lambda>_. replicate 4096 0)"
proof -
  obtain w ws es p n where fl: "lag_flight u = w # ws @ es" "length ws = k" "sqe_opcode w = WriteOp p n"
    and ws: "\<forall>e \<in> set ws. \<exists>p n. sqe_opcode e = WriteOp p n"
    using assms by (auto simp: behind_def length_Suc_conv)
  have u: "lag_sq u = []" "lag_cq u = []" "lag_mem u = (\<lambda>_. replicate 4096 0)" using assms by (simp_all add: behind_def)
  let ?v = "lag_submit (u\<lparr>lag_sq := [e]\<rparr>)"
  let ?u1 = "(lag_exec w ?v)\<lparr>lag_flight := ws @ es @ [e]\<rparr>"
  let ?u2 = "?u1\<lparr>lag_cq := [], lag_landed := (if lag_result w = int (length (sqe_bytes w)) then w # lag_landed ?u1 else lag_landed ?u1)\<rparr>"
  have v: "lag_flight ?v = w # ws @ es @ [e]" "lag_cq ?v = []" "lag_mem ?v = lag_mem u" "lag_sq ?v = []"
    using fl(1) u by (simp_all add: lag_submit_def)
  then have one: "lag_complete 1 ?v = ?u1" by simp
  have "ring_submit_and_wait lag_api 1 (u\<lparr>lag_sq := [e]\<rparr>) = (Inr 1, ?u1)"
    using one u(2) by (simp add: lag_api_def)
  moreover have "cq_next lag_api ?u1 = (Some \<lparr>cqe_user_data = sqe_user_data w, cqe_result = lag_result w\<rparr>, ?u2)"
    using v(2) by (simp add: lag_api_def)
  moreover have "behind k ?u2" "lag_mem ?u2 = (\<lambda>_. replicate 4096 0)" "lag_sq ?u1 = []"
    using v u(3) fl(2) ws lag_write_exec(1) [OF fl(3), of ?v] by (auto simp: behind_def)
  moreover have "0 \<le> lag_result w" using lag_write_exec(2) [OF fl(3)] .
  ultimately show ?thesis using that by simp
qed

lemma behind_read:
  assumes "behind (Suc k) (quik_ring q)" and "unat off mod 4096 = 0" and "\<And>l. alloc l \<noteq> 0"
  obtains u' where "quik_read pf lag_api alloc 4096 off q = Done (Inr (replicate 4096 0), set_ring u' q)" and "behind k u'"
proof -
  have len: "0 < unat (4096 :: usize)" "unat (4096 :: usize) < 2 ^ 32 - 8192" by simp_all
  let ?p = "alloc (word_of_nat (window_len 4096 off), FOUR_KB_BLOCK)" and ?u = "quik_ring q"
  let ?e = "read_entry ?p 4096 off q"
  have push: "sq_push lag_api ?e ?u = Some (?u\<lparr>lag_sq := [?e]\<rparr>)"
    using assms(1) by (simp add: lag_api_def behind_def)
  obtain u1 c u2 where w: "ring_submit_and_wait lag_api 1 (?u\<lparr>lag_sq := [?e]\<rparr>) = (Inr 1, u1)"
    "cq_next lag_api u1 = (Some c, u2)" "0 \<le> cqe_result c" "behind k u2" "lag_mem u2 = (\<lambda>_. replicate 4096 0)"
    by (rule behind_wait [OF assms(1), where e = ?e])
  have lag: "cq_sync lag_api v = v" "mem_at lag_api p n v = lag_mem v p" for p n v by (simp_all add: lag_api_def)
  have "quik_read pf lag_api alloc 4096 off q = Done (Inr (replicate 4096 0), set_ring u2 q)"
    unfolding quik_read_eq [where alloc = alloc and offset = off, OF len refl assms(3)]
    using push w lag assms(2) by (simp del: One_nat_def)
  then show ?thesis using that w(4) by blast
qed

lemma behind_wait_for_all:
  assumes "lag_sq u1 = []" and "cq_next lag_api u1 = (Some c, u2)" and "0 \<le> cqe_result c" and "behind k u2"
    and "quik_ring q = u1"
  shows "wait_for_all lag_api q = Some (Inr (), set_ring u2 q)"
proof -
  have lag: "cq_sync lag_api v = v" for v by (simp add: lag_api_def)
  have empty: "lag_cq u2 = []" "lag_sq u2 = []" using assms(4) by (simp_all add: behind_def)
  have "cq_next lag_api u2 = (None, u2)" using empty by (simp add: lag_api_def)
  then have "delivers lag_api u1 [c] u2" using assms(2) by (blast intro: delivers_some delivers_none)
  from wait_for_all_round [of lag_api q "[c]" u2] this assms(3,5) lag empty show ?thesis
    by (simp add: lag_api_def)
qed

section \<open>Properties\<close>


text \<open>An instance with a file: it performs its entries when their completions are taken.\<close>

record file_kernel =
  fk_sq :: "sqe list"
  fk_cq :: "sqe list"
  fk_landed :: "sqe list"
  fk_file :: "u8 list"
  fk_mem :: "u64 \<Rightarrow> u8 list"

definition fk_init :: "u8 list \<Rightarrow> file_kernel" where
  "fk_init contents = \<lparr>fk_sq = [], fk_cq = [], fk_landed = [], fk_file = contents, fk_mem = (\<lambda>_. [])\<rparr>"

definition fk_exec :: "sqe \<Rightarrow> file_kernel \<Rightarrow> file_kernel" where
  "fk_exec e s = (case sqe_opcode e of
     WriteOp p n \<Rightarrow> s\<lparr>fk_file := file_write (unat (sqe_offset e)) (sqe_bytes e) (fk_file s)\<rparr>
   | ReadOp p n \<Rightarrow> s\<lparr>fk_mem := (fk_mem s)(p := file_window (fk_file s) (unat (sqe_offset e)) (unat n))\<rparr>
   | FsyncOp \<Rightarrow> s)"


definition fk_view :: "file_kernel kernel_view" where
  "fk_view =
     \<lparr>kv_waiting = (\<lambda>s. mset (fk_sq s) + mset (fk_cq s)),
      kv_ready = (\<lambda>s. length (fk_cq s)),
      kv_landed = (\<lambda>s. mset (fk_landed s))\<rparr>"

lemma fk_exec_sel [simp]: "fk_sq (fk_exec e s) = fk_sq s" "fk_cq (fk_exec e s) = fk_cq s"
  by (simp_all add: fk_exec_def split: opcode.split)




lemma fk_init_sel [simp]: "kv_waiting fk_view (fk_init contents) = {#}" "fk_file (fk_init contents) = contents"
  by (simp_all add: fk_view_def fk_init_def)





text \<open>
  C30: \<open>sync_data\<close> returns before the data are synced. Its comment promises that every write
  submitted before is durable when it returns, but it waits for any one completion, and the
  drained \<open>fsync\<close> completes last: on an instance that keeps every documented promise, with two
  writes submitted, it returns \<open>Ok\<close> with the second write and the \<open>fsync\<close> still in flight, and
  the file holds the first page only.
\<close>
theorem sync_data_returns_early:
  "let w = demo_entry\<lparr>sqe_offset := 4096\<rparr>;
       (r, q) = sync_data lag_api (TailLocalized (BackingStore_new (lag_init\<lparr>lag_flight := [demo_entry, w]\<rparr>) 3 TailLocalizedWrites))
   in kernel_ok 8 lag_api lag_view \<and> r = Inr ()
     \<and> (\<exists>fsync. sqe_opcode fsync = FsyncOp \<and> sqe_io_drain fsync \<and> lag_flight (quik_ring q) = [w, fsync])
     \<and> lag_file (quik_ring q) = replicate 4096 7"
proof -
  have "file_write 0 (replicate 4096 7) [] = (replicate 4096 7 :: u8 list)"
    by (simp add: file_write_def blit_def)
  then show ?thesis
    using lag_kernel_ok
    by (simp add: sync_data_def BackingStore_new_def set_ring_def quik_ring_def lag_api_def lag_init_def lag_submit_def
        lag_exec_def demo_entry_def)
qed

text \<open>
  C29: The test that writes depends on the kernel's timing. On an instance that keeps every
  documented promise but completes one entry at a time, \<open>sync_data\<close> and \<open>wait_for_all\<close>
  return while four of the five writes and the \<open>fsync\<close> are in flight; the reads then take
  the completions of those writes for their own and return memory no read has filled, and
  the assertion for slot 1 fails.
\<close>
theorem read_write_test_races:
  "kernel_ok 8 lag_api lag_view \<and> calls_ok lag_api
     \<and> read_write_test Debug lag_api (\<lambda>_ _. 4096) (\<lambda>k. word_of_nat (64 * k + 64)) (\<lambda>_ _. 8192)
         (\<lambda>_. (3, \<lambda>_. Inr lag_init)) = Some Panic"
proof -
  let ?alloc = "\<lambda>_ _. 4096 :: u64" and ?place = "\<lambda>k. word_of_nat (64 * k + 64) :: u64" and ?read = "\<lambda>_ :: layout. 8192 :: u64"
  let ?q = "TailLocalized (BackingStore_new lag_init 3 TailLocalizedWrites)" and ?n = "length expected_blocks"
  have "behind 0 (quik_ring ?q)" "length (lag_flight (quik_ring ?q)) = 0" by (simp_all add: behind_def lag_init_def)
  then obtain u1 where u1: "submit_each Debug lag_api (zip (map (slot_buffer ?alloc ?place) [0..<0 + ?n]) expected_blocks) ?q
      = Done (set_ring u1 ?q)" "behind (0 + ?n) u1"
    using submit_each_lag [OF expected_blocks_length(1), of 0 ?q Debug ?alloc ?place 0] by blast
  let ?q1 = "set_ring u1 ?q"
  let ?f = "\<lparr>sqe_opcode = FsyncOp, sqe_fd = bs_store (get_backing_store ?q1), sqe_offset = 0, sqe_io_link = False,
      sqe_io_drain = True, sqe_user_data = 0, sqe_bytes = []\<rparr>"
  have five: "behind (Suc 4) u1" using u1(2) expected_blocks_length(2) by simp
  obtain u2 c u3 where w: "ring_submit_and_wait lag_api 1 (u1\<lparr>lag_sq := [?f]\<rparr>) = (Inr 1, u2)" "lag_sq u2 = []"
    "cq_next lag_api u2 = (Some c, u3)" "0 \<le> cqe_result c" "behind 4 u3"
    by (rule behind_wait [OF five, where e = ?f])
  have "bs_flusher (get_backing_store ?q1) = u1" by (simp add: set_ring_def)
  moreover have "sq_push lag_api ?f u1 = Some (u1\<lparr>lag_sq := [?f]\<rparr>)" using five by (simp add: lag_api_def behind_def)
  ultimately have sync: "sync_data lag_api ?q1 = (Inr (), set_ring u2 ?q1)"
    using w(1) by (simp add: sync_data_def Let_def del: One_nat_def)
  have wait: "wait_for_all lag_api (set_ring u2 ?q1) = Some (Inr (), set_ring u3 (set_ring u2 ?q1))"
    by (rule behind_wait_for_all [OF w(2-5)]) simp
  have reads: "unat (0 :: u64) mod 4096 = 0" "unat (4096 :: u64) mod 4096 = 0" "\<And>l. ?read l \<noteq> 0" by simp_all
  have "behind (Suc 3) (quik_ring (set_ring u3 ?q))" using w(5) by simp
  then obtain u4 where u4: "quik_read Debug lag_api ?read 4096 0 (set_ring u3 ?q)
      = Done (Inr (replicate 4096 0), set_ring u4 (set_ring u3 ?q))" "behind 3 u4"
    by (rule behind_read [OF _ reads(1,3)])
  then have "behind (Suc 2) (quik_ring (set_ring u4 ?q))" by simp
  then obtain u5 where u5: "quik_read Debug lag_api ?read 4096 4096 (set_ring u4 ?q)
      = Done (Inr (replicate 4096 0), set_ring u5 (set_ring u4 ?q))"
    by (rule behind_read [OF _ reads(2,3)])
  have "replicate 4096 0 \<noteq> (replicate 4096 1 :: u8 list)" by (simp add: replicate_eq_replicate)
  then have "verify_each Debug lag_api (\<lambda>_. ?read) 0 expected_blocks (set_ring u3 ?q) = Panic"
    using u4(1) u5 by (simp add: expected_blocks_def read_and_compare_def)
  then show ?thesis
    using u1(1) sync wait lag_kernel_ok test_buffers_Done [of ?alloc ?place 0 ?n]
    by (simp add: read_write_test_def QuikIO_new_def calls_ok_def lag_api_def)
qed

end
