(* ===== verification/Spec2Isabelle.thy ===== *)
theory Spec2Isabelle
  imports Put_Protocol Ring_Stranding Double_Flush Model_Main O_Direct Log_Main Quik_Tests
begin

text \<open>
  \<^bold>\<open>A verification development for \<^verbatim>\<open>buffer_ring\<close>.\<close>

  The crate is a lock-free ring of fixed-size buffers in front of a file. Threads reserve a
  range of the current buffer with one compare-exchange on a packed 64-bit word, copy their
  payload, and leave; the thread that finds the buffer full seals it and rotates the ring;
  whoever is last out of a sealed buffer hands it to \<open>io_uring\<close>; reaping the completion
  frees the buffer. The examples are a client of the ring (\<^verbatim>\<open>log.rs\<close>), a use of one buffer
  by hand (\<^verbatim>\<open>o_direct.rs\<close>), and a stand-alone single-threaded writer with the same design,
  run by five threads on one file (\<^verbatim>\<open>model.rs\<close>).

  \<^bold>\<open>Theories and code.\<close> Names are the source's where Isabelle allows it.

  \<^item> \<open>Prelude\<close>: machine integers at their width, \<open>outcome\<close> (\<open>Done\<close>, \<open>Panic\<close>, \<open>Undefined\<close>),
    build profiles with checked and wrapping arithmetic, the binds for runs that may not return.
  \<^item> \<open>State_Word\<close> (\<^verbatim>\<open>src/src/lib.rs\<close>, \<^verbatim>\<open>src/src/state.rs\<close>): the packed word, its accessors,
    and its abstraction to a record of fields.
  \<^item> \<open>Aligned_Buffer\<close> (\<open>Buffer\<close> of \<^verbatim>\<open>lib.rs\<close>): allocation and the raw copy.
  \<^item> \<open>Dispenser\<close>: the contract of a counter that hands out ranges, as locales; interpreted on
    \<open>reserve_space\<close> in \<open>Flush_Buffer\<close> and on the ring's address counter in \<open>Ring_Properties\<close>.
  \<^item> \<open>Flush_Buffer\<close> (\<^verbatim>\<open>flush_buffer.rs\<close>): one function per operation. An operation that loads and
    then exchanges takes what others do in between as an argument.
  \<^item> \<open>Uring\<close>: the interface of the \<open>io-uring\<close> crate, a record of functions that is a parameter
    of everything that uses it. \<open>Uring_Kernel\<close>: what its documentation promises, as hypotheses.
    \<open>Uring_Sim\<close> and \<open>demo_kernel\<close>: instances for witnesses only. \<open>Disk\<close>: files and the effect
    of a set of writes in any order.
  \<^item> \<open>Quik_IO\<close> (\<^verbatim>\<open>quik_io.rs\<close>): the dispatcher; the trait \<open>FlushableBuffer\<close> is a record of methods
    whose contract is the locale \<open>flushable\<close>, interpreted on the flush buffer.
  \<^item> \<open>Buffer_Ring\<close>, \<open>Ring_Invariant\<close>, \<open>Ring_Properties\<close>, \<open>Double_Flush\<close> (\<^verbatim>\<open>ring.rs\<close>): every method of the options
    and of the ring as a function on the ring, run without interference; well-formed rings;
    and what each method does on every branch.
  \<^item> \<open>Buffer_Protocol\<close>, \<open>Protocol_Properties\<close>: any number of threads on one buffer, one access to
    shared memory per step, as a step relation with its invariants. \<open>flush\<close> is the steps \<open>mark\<close>,
    \<open>slice\<close> (the load of the word), \<open>address\<close> (the load of the address) and then \<open>push\<close> or
    \<open>push_full\<close>, the critical section of \<open>submit\<close> under the lock of the instance with its two
    outcomes; \<open>complete\<close>, \<open>retry\<close> and \<open>retry_full\<close> are what \<open>check_cque\<close> does with a completion.
    The errors the code drops are steps of their own: the ghost \<open>ps_dropped\<close> records them. The
    ghost \<open>ps_inflight\<close> holds from the push until the completion is handled. \<open>Protocol_Runs\<close>:
    concrete runs. \<open>Put_Protocol\<close> shows that every call of \<open>put\<close> is a run of the protocol, with
    whatever the submission queue answers.
  \<^item> \<open>Ring_Protocol\<close> (\<^verbatim>\<open>ring.rs\<close>): any number of clients on all the buffers of a ring, with the
    current pointer, the search of \<open>rotate_after_seal\<close> and the address counter, at the same
    grain; each buffer's part of a run is a run of its protocol. The submission queue has \<open>cap\<close>
    entries and refuses one only while it may hold \<open>cap\<close> others. \<open>Ring_Runs\<close>: concrete runs;
    \<open>Ring_Progress\<close>: bounded calls and draining; \<open>Ring_Stranding\<close>: where the bytes are.
  \<^item> \<open>Quik_Tests\<close> (the tests of \<^verbatim>\<open>quik_io.rs\<close>): what a read returns when nothing else is
    outstanding, the three tests that only read, and the one that writes, which cannot be relied
    on; for that an instance \<open>lag_api\<close> that is proved to keep the promises of \<open>Uring_Kernel\<close>.
  \<^item> \<open>Log_Client\<close> (\<^verbatim>\<open>log.rs\<close>): the retry loop of a client and the read-back of completed ranges;
    \<open>Log_Main\<close>: its \<open>main\<close> with the messages of the source, the calls of the threads run one
    at a time in any order. \<open>Message_Format\<close>: the text both examples write.
  \<^item> \<open>O_Direct\<close> (\<^verbatim>\<open>o_direct.rs\<close>): opening a store, and \<open>main\<close>.
  \<^item> \<open>Ring_Writer\<close> (\<^verbatim>\<open>model.rs\<close>): the writer; \<open>Writer_Invariant\<close>: one writer against the kernel's
    promises; \<open>Writer_Fleet\<close>: several writers on one counter and the reference packing they
    refine; \<open>Writer_Main\<close>: the properties of whole runs, up to the messages of \<open>main\<close>;
    \<open>Writer_Threads\<close>: the operations as code that runs up to its access to the shared counter;
    \<open>Writer_Interleaving\<close>: the threads, interleaved at these accesses, ending with their ranges,
    an error or a panic;
    \<open>Text_Lines\<close>: UTF-8, the lines of a file and their count; \<open>Model_Main\<close>: the end of \<open>main\<close>.

  \<^bold>\<open>What is shown.\<close>

  \<^item> The protocol: on every schedule a set flush bit has one owner, a thread or the kernel, or
    its entry was refused; and then, in a ring, no client ever resets it. On \<^emph>\<open>calm\<close> schedules,
    in which a buffer is not reset while another thread is still deciding about its flush, the
    writer count is exact, held ranges are disjoint, and a flush, down to the entry handed to the
    kernel, carries every reserved payload. The program does not enforce calmness, and schedules
    on which these fail are exhibited.
  \<^item> The ring under interleaving: these facts hold for every buffer of a ring whatever the clients
    do on the others; a call takes a bounded number of its own steps; every client can
    always go on. With as many entries in the submission queue as buffers in the ring no
    submission is lost, and a sealed buffer can always run on to its reset. If space is
    granted only in the current buffer, no bytes are left behind; the program does not check
    that either, and runs that lose a byte and a buffer for good are exhibited.
  \<^item> The ring and the dispatcher: totality of \<open>put\<close>, rotation, completions, addresses, error
    paths, two flushes of one buffer, reads through an aligned window; and that what is flushed is
    read back. On an instance with nothing outstanding a read returns the file's bytes, and the
    tests that only read pass; \<open>sync_data\<close> and \<open>wait_for_all\<close> do not wait for the writes, and the
    test that writes fails on an instance that keeps every documented promise.
  \<^item> The client: the message that finds a buffer full is lost; and with the example's own
    messages, called one at a time, \<open>main\<close> never returns, because the loop spins without reaping.
  \<^item> The writers: every interleaving of the threads at their accesses to the shared counter is one of
    whole operations, and nobody waits; under every such interleaving and every order of the kernel's
    writes, all runs return and the file read back is exactly the reference packing; the lines
    that \<open>main\<close> logs and counts are the messages of its threads, each once; an error
    of a write is not noticed, and an oversized payload or an append after an error leaves
    the buffer.

  \<^bold>\<open>Bounds and loops.\<close> There is no fuel: a loop that may not end is a
  \<open>partial_function (option)\<close>, whose value \<open>None\<close> is not returning, and returning is proved:
  \<open>reset_offset\<close>, the draining loops, and both loops of the writer (bounded by the entries in
  flight). A buffer holds 1048576 bytes, a writer has four slots and an instance of 256
  entries; files are shorter than \<open>2 ^ 64\<close>.

  \<^bold>\<open>Hypotheses on what is not here.\<close> The allocator returns a non-null address; the kernel keeps
  \<open>kernel_ok\<close> (accepted entries complete once, under their own user data), and where a property
  says so \<open>kernel_reliable\<close> (writes complete in full), \<open>calls_ok\<close> (the waiting call succeeds),
  \<open>no_errors\<close> (that, and no completion reports an error) or \<open>reads_promise\<close> (a completed read has
  filled its memory from the file). The payloads of the writers have at most one megabyte where
  a property says so, and an oversized one leaves its slot. That no
  submission is lost rests on the size of the queue: \<open>K \<le> cap\<close>, with \<open>K\<close> buffers and \<open>cap\<close>
  entries, which the crate neither checks nor documents; \<^verbatim>\<open>log.rs\<close> has four buffers and eight entries.
  There the ring is the only user of the instance; what happens otherwise is shown, too.
  An entry carries the bytes its buffer held when it was built; that the buffer still holds
  them while the entry is in flight is shown for the writer (\<open>Writer_Main\<close>),
  and for the ring it is what the protocol properties are about.

  \<^bold>\<open>Not modelled.\<close> Memory orderings weaker than one total order per atomic; the raw \<open>Send\<close>/\<open>Sync\<close>
  markers; thread spawning, timing, printing and logging in the examples, interleavings
  finer than whole calls in \<open>main\<close> of \<^verbatim>\<open>log.rs\<close>; \<open>flush_current\<close> and \<open>f_sync\<close>, and an
  application that resets or flushes a buffer itself, at the grain of single accesses; other
  users of the instance of a ring under interleaving; the creation of files (the results of
  \<open>File::open\<close> in \<^verbatim>\<open>model.rs\<close>'s \<open>main\<close> are arguments).
\<close>

end
